(* ===== verification/Dgos_Prelude.thy ===== *)
theory Dgos_Prelude
  imports Main "HOL-Library.Word" "HOL-Library.Monad_Syntax"
begin

unbundle bit_operations_syntax

text \<open>
  Shared vocabulary of the development: machine integer types, the flat byte memory the C
  library routines work on, assertions as optional results, the page constants, and the
  generic lemmas on words, memories and lists that the component theories use.

  A kernel \<^verbatim>\<open>assert\<close> that fails never returns (\<^verbatim>\<open>kernel/lib/assert.cc\<close> spins), and neither
  does \<^verbatim>\<open>panic\<close>; kernel code that asserts therefore has an optional result, \<open>None\<close> meaning that
  the call does not return.
\<close>

section \<open>Machine types\<close>

type_synonym u8 = "8 word"
type_synonym u16 = "16 word"
type_synonym u32 = "32 word"
type_synonym u64 = "64 word"
type_synonym ptr = "64 word"
type_synonym mem = "64 word \<Rightarrow> 8 word"

named_theorems mem_simps \<open>rewrite rules for byte memories\<close>
named_theorems wrap_simps \<open>unsigned readings of word expressions\<close>

section \<open>Assertions\<close>

definition assert_that :: "bool \<Rightarrow> unit option" where
  "assert_that b = (if b then Some () else None)"

lemma assert_that_True [simp]: "assert_that True = Some ()"
  by (simp add: assert_that_def)

lemma assert_that_False [simp]: "assert_that False = None"
  by (simp add: assert_that_def)

lemma assert_that_eq_Some [simp]: "assert_that b = Some u \<longleftrightarrow> b"
  by (simp add: assert_that_def)

lemma bind_assert_that [simp]:
  "Option.bind (assert_that b) f = (if b then f () else None)"
  by (simp add: assert_that_def)

text \<open>A call repeated over a list, stopping at the first one that does not return.\<close>

fun fold_call :: "('a \<Rightarrow> 's \<Rightarrow> 's option) \<Rightarrow> 'a list \<Rightarrow> 's \<Rightarrow> 's option" where
  "fold_call f [] s = Some s"
| "fold_call f (x # xs) s = do { s \<leftarrow> f x s; fold_call f xs s }"

section \<open>Words\<close>

lemma unat_lt_64 [simp]: "unat (w :: u64) < 18446744073709551616"
proof -
  have "unat w < 2 ^ LENGTH(64)" by (rule unsigned_less)
  then show ?thesis by simp
qed

lemma unat_lt_32 [simp]: "unat (w :: u32) < 4294967296"
proof -
  have "unat w < 2 ^ LENGTH(32)" by (rule unsigned_less)
  then show ?thesis by simp
qed

lemma unat_lt_16 [simp]: "unat (w :: u16) < 65536"
proof -
  have "unat w < 2 ^ LENGTH(16)" by (rule unsigned_less)
  then show ?thesis by simp
qed

lemma unat_lt_8 [simp]: "unat (w :: u8) < 256"
proof -
  have "unat w < 2 ^ LENGTH(8)" by (rule unsigned_less)
  then show ?thesis by simp
qed

lemma unat_and_mask: "unat (w AND mask n) = unat (w :: 'a :: len word) mod 2 ^ n"
  by (simp only: unsigned_take_bit_eq flip: take_bit_eq_mask) (rule take_bit_eq_mod)

lemma and_neg_power_eq: "x AND - (2 ^ j) = x - take_bit j x" for x :: "'a :: len word"
proof -
  have "(x AND NOT (mask j)) + take_bit j x = (x AND NOT (mask j)) OR take_bit j x"
    by (rule disjunctive_add) (auto simp: bit_simps)
  also have "\<dots> = x" by (rule bit_word_eqI) (auto simp: bit_simps)
  finally show ?thesis by (simp add: minus_exp_eq_not_mask algebra_simps)
qed

lemma unat_take_bit: "unat (take_bit j x) = unat x mod 2 ^ j" for x :: "'a :: len word"
  unfolding unsigned_take_bit_eq by (rule take_bit_eq_mod)

lemma and_neg_power: "unat (x AND - (2 ^ j)) = unat x - unat x mod 2 ^ j" for x :: "'a :: len word"
proof -
  have "take_bit j x \<le> x" by (simp add: word_le_nat_alt unat_take_bit)
  then show ?thesis by (simp add: and_neg_power_eq unat_sub unat_take_bit)
qed

lemma unat_and_7 [wrap_simps]: "unat (w AND 7) = unat (w :: u64) mod 8"
  using unat_and_mask [of w 3] by (simp add: mask_numeral)

lemma unat_and_31 [wrap_simps]: "unat (w AND 31) = unat (w :: u64) mod 32"
  using unat_and_mask [of w 5] by (simp add: mask_numeral)

lemma unat_drop_bit [wrap_simps]: "unat (drop_bit n w) = unat (w :: 'a :: len word) div 2 ^ n"
  by (simp only: unat_drop_bit_eq) (rule drop_bit_eq_div)

lemma unat_ucast_8_64 [wrap_simps]: "unat (ucast (b :: u8) :: u64) = unat b"
proof -
  have "unat b < 2 ^ 64"
    using unat_lt_8 [of b] by (rule less_trans) simp
  then show ?thesis by (simp add: unsigned_ucast_eq take_bit_nat_eq_self)
qed

lemma unat_ucast_32_64 [wrap_simps]: "unat (ucast (w :: u32) :: u64) = unat w"
proof -
  have "unat w < 2 ^ 64" using unat_lt_32 [of w] by (rule less_trans) simp
  then show ?thesis by (simp add: unsigned_ucast_eq take_bit_nat_eq_self)
qed

lemma unat_of_nat_64 [wrap_simps]:
  "n < 18446744073709551616 \<Longrightarrow> unat (of_nat n :: u64) = n"
  by (simp add: unat_of_nat take_bit_nat_eq_self)

lemma unat_of_nat_32 [wrap_simps]:
  "n < 4294967296 \<Longrightarrow> unat (of_nat n :: u32) = n"
  by (simp add: unat_of_nat take_bit_nat_eq_self)

lemma of_nat_inject_64 [wrap_simps]:
  assumes "i < 18446744073709551616" and "j < 18446744073709551616"
  shows "(of_nat i :: u64) = of_nat j \<longleftrightarrow> i = j"
  using assms by (metis unat_of_nat_64)

lemma unat_add_64 [wrap_simps]:
  "unat a + unat b < 18446744073709551616 \<Longrightarrow> unat (a + b :: u64) = unat a + unat b"
  by (simp add: unat_word_ariths)

lemma unat_sub_wrap_64:
  assumes "a < b"
  shows "unat (a - b :: u64) = unat a + 18446744073709551616 - unat b"
proof -
  have "unat (a - b) = unat a + 2 ^ size a - unat b"
    using assms by (subst unat_sub_if_size) (simp add: word_less_nat_alt)
  then show ?thesis by (simp add: word_size)
qed

lemma signed_take_bit_31:
  "- 2147483648 \<le> i \<Longrightarrow> i < 2147483648 \<Longrightarrow> signed_take_bit 31 i = (i :: int)"
  by (intro signed_take_bit_int_eq_self) simp_all

lemma ge_power_iff_bit: "2 ^ m \<le> unat (z :: 'a :: len word) \<longleftrightarrow> \<not> (\<forall>j\<ge>m. \<not> bit z j)"
proof -
  have "unat z < 2 ^ m \<longleftrightarrow> take_bit m (unat z) = unat z"
    by (simp add: take_bit_nat_eq_self_iff)
  also have "\<dots> \<longleftrightarrow> take_bit m z = z"
    by (simp only: word_unat_eq_iff unsigned_take_bit_eq)
  also have "\<dots> \<longleftrightarrow> (\<forall>j\<ge>m. \<not> bit z j)"
  proof
    assume eq: "take_bit m z = z"
    have "\<not> bit (take_bit m z) j" if "m \<le> j" for j
      using that by (simp add: bit_take_bit_iff)
    then show "\<forall>j\<ge>m. \<not> bit z j" unfolding eq by blast
  next
    assume high: "\<forall>j\<ge>m. \<not> bit z j"
    have "bit (take_bit m z) j = bit z j" for j
      using high [rule_format, of j] by (cases "m \<le> j") (auto simp: bit_take_bit_iff)
    then show "take_bit m z = z" by (intro bit_eqI)
  qed
  finally show ?thesis by (simp add: not_less [symmetric])
qed

section \<open>Lists\<close>

lemma find_append:
  "List.find P (xs @ ys) =
     (case List.find P xs of None \<Rightarrow> List.find P ys | Some x \<Rightarrow> Some x)"
  by (induction xs) auto

lemma find_map: "List.find P (map f xs) = map_option f (List.find (P \<circ> f) xs)"
  by (induction xs) auto

section \<open>Byte memory\<close>

text \<open>The bytes at \<open>p, p + 1, \<dots>\<close> and the memory after storing a run of bytes from \<open>p\<close>.\<close>

fun bytes_at :: "mem \<Rightarrow> ptr \<Rightarrow> nat \<Rightarrow> u8 list" where
  "bytes_at m p 0 = []"
| "bytes_at m p (Suc n) = m p # bytes_at m (p + 1) n"

fun store_bytes :: "mem \<Rightarrow> ptr \<Rightarrow> u8 list \<Rightarrow> mem" where
  "store_bytes m p [] = m"
| "store_bytes m p (b # bs) = store_bytes (m(p := b)) (p + 1) bs"

definition in_block :: "ptr \<Rightarrow> nat \<Rightarrow> ptr \<Rightarrow> bool" where
  "in_block p n a \<longleftrightarrow> unat (a - p) < n"

lemmas bytes_at_numeral [simp] =
  bytes_at.simps(2) [of _ _ "pred_numeral k" for k, folded numeral_eq_Suc]

lemma find_upt_Some:
  "List.find P [0..<n] = Some i \<longleftrightarrow> i < n \<and> P i \<and> (\<forall>j<i. \<not> P j)"
  by (auto simp: find_Some_iff nth_upt)

lemma find_upt_None: "List.find P [0..<n] = None \<longleftrightarrow> (\<forall>i<n. \<not> P i)"
  by (auto simp: find_None_iff)

lemma length_bytes_at [simp]: "length (bytes_at m p n) = n"
  by (induction n arbitrary: p) auto

lemma bytes_at_nth:
  "i < n \<Longrightarrow> bytes_at m p n ! i = m (p + of_nat i)"
proof (induction n arbitrary: p i)
  case 0
  then show ?case by simp
next
  case (Suc n)
  then show ?case by (cases i) (auto simp: algebra_simps)
qed

lemma bytes_at_append: "bytes_at m p (a + b) = bytes_at m p a @ bytes_at m (p + of_nat a) b"
  by (induction a arbitrary: p) (auto simp: algebra_simps)

lemma store_bytes_append:
  "store_bytes m p (xs @ ys) = store_bytes (store_bytes m p xs) (p + of_nat (length xs)) ys"
  by (induction xs arbitrary: m p) (auto simp: algebra_simps)

lemma in_block_0 [simp]: "\<not> in_block p 0 a"
  by (simp add: in_block_def)

lemma in_block_Suc:
  assumes "Suc n < 18446744073709551616"
  shows "in_block p (Suc n) a \<longleftrightarrow> a = p \<or> in_block (p + 1) n a"
proof (cases "a = p")
  case True
  then show ?thesis by (simp add: in_block_def)
next
  case False
  then have "a - p \<noteq> 0" by simp
  then have "unat (a - (p + 1)) = unat (a - p) - 1"
    by (metis diff_diff_add unat_minus_one)
  moreover have "0 < unat (a - p)"
    using \<open>a - p \<noteq> 0\<close> by (simp add: unat_gt_0)
  ultimately show ?thesis using False by (auto simp: in_block_def)
qed

lemma store_bytes_outside [mem_simps]:
  "length bs < 18446744073709551616 \<Longrightarrow> \<not> in_block p (length bs) a \<Longrightarrow> store_bytes m p bs a = m a"
  by (induction bs arbitrary: m p) (auto simp: in_block_Suc)

lemma store_bytes_inside [mem_simps]:
  assumes "length bs < 18446744073709551616" and "i < length bs"
  shows "store_bytes m p bs (p + of_nat i) = bs ! i"
  using assms
proof (induction bs arbitrary: m p i)
  case Nil
  then show ?case by simp
next
  case (Cons b bs)
  show ?case
  proof (cases i)
    case 0
    have "\<not> in_block (p + 1) (length bs) p"
      using Cons.prems by (simp add: in_block_def unsigned_minus_1_eq_mask mask_eq_exp_minus_1)
    then show ?thesis using Cons.prems 0 by (simp add: store_bytes_outside)
  next
    case (Suc j)
    then have "store_bytes (m(p := b)) (p + 1) bs (p + 1 + of_nat j) = bs ! j"
      using Cons.prems by (intro Cons.IH) auto
    then show ?thesis using Suc by (simp add: algebra_simps)
  qed
qed

lemma bytes_at_store_bytes:
  assumes "length bs < 18446744073709551616"
  shows "bytes_at (store_bytes m p bs) p (length bs) = bs"
  using assms by (intro nth_equalityI) (auto simp: bytes_at_nth store_bytes_inside)

text \<open>Little-endian 32-bit values as bytes.\<close>

definition le32 :: "u32 \<Rightarrow> u8 list" where
  "le32 w = [ucast w, ucast (drop_bit 8 w), ucast (drop_bit 16 w), ucast (drop_bit 24 w)]"

definition rd32 :: "mem \<Rightarrow> ptr \<Rightarrow> u32" where
  "rd32 m p = ucast (m p) OR push_bit 8 (ucast (m (p + 1)))
     OR push_bit 16 (ucast (m (p + 2))) OR push_bit 24 (ucast (m (p + 3)))"

lemma length_le32 [simp]: "length (le32 w) = 4"
  by (simp add: le32_def)

lemma join_le32:
  "ucast (ucast w :: u8) OR push_bit 8 (ucast (ucast (drop_bit 8 w) :: u8))
     OR push_bit 16 (ucast (ucast (drop_bit 16 w) :: u8))
     OR push_bit 24 (ucast (ucast (drop_bit 24 w) :: u8)) = (w :: u32)"
proof (rule bit_word_eqI)
  fix n assume "n < LENGTH(32)"
  then have "n < 8 \<or> (8 \<le> n \<and> n < 16) \<or> (16 \<le> n \<and> n < 24) \<or> (24 \<le> n \<and> n < 32)" by auto
  then show "bit (ucast (ucast w :: u8) OR push_bit 8 (ucast (ucast (drop_bit 8 w) :: u8))
     OR push_bit 16 (ucast (ucast (drop_bit 16 w) :: u8))
     OR push_bit 24 (ucast (ucast (drop_bit 24 w) :: u8)) :: u32) n = bit w n"
    by (elim disjE) (auto simp: bit_simps)
qed

lemma rd32_store_bytes: "rd32 (store_bytes m p (le32 w)) p = w"
  using join_le32 [of w] by (simp add: rd32_def le32_def)

text \<open>Little-endian values of any width, as numbers.\<close>

fun rd_le :: "mem \<Rightarrow> ptr \<Rightarrow> nat \<Rightarrow> nat" where
  "rd_le m p 0 = 0"
| "rd_le m p (Suc n) = unat (m p) + 256 * rd_le m (p + 1) n"

fun le_bytes :: "nat \<Rightarrow> nat \<Rightarrow> u8 list" where
  "le_bytes 0 v = []"
| "le_bytes (Suc n) v = of_nat v # le_bytes n (v div 256)"

lemmas rd_le_numeral [simp] = rd_le.simps(2) [of _ _ "pred_numeral k" for k, folded numeral_eq_Suc]
lemmas le_bytes_numeral [simp] = le_bytes.simps(2) [of "pred_numeral k" for k, folded numeral_eq_Suc]

lemma length_le_bytes [simp]: "length (le_bytes n v) = n"
  by (induction n arbitrary: v) auto

lemma rd_le_less: "rd_le m p n < 256 ^ n"
proof (induction n arbitrary: p)
  case 0
  then show ?case by simp
next
  case (Suc n)
  have "Suc (rd_le m (p + 1) n) \<le> 256 ^ n" using Suc.IH by (rule Suc_leI)
  moreover have "unat (m p) < 256" by simp
  ultimately show ?case by (simp del: unat_lt_8)
qed

lemma rd_le_bytes: "bytes_at m p n = le_bytes n v \<Longrightarrow> rd_le m p n = v mod 256 ^ n"
proof (induction n arbitrary: p v)
  case 0
  then show ?case by simp
next
  case (Suc n)
  then have "m p = of_nat v" "rd_le m (p + 1) n = v div 256 mod 256 ^ n" by auto
  then show ?case by (simp add: unat_of_nat take_bit_eq_mod mod_mult2_eq)
qed

section \<open>Stepping machines\<close>

text \<open>
  A component that is driven one call at a time: \<open>step\<close> is the call, \<open>inv\<close> what it keeps.  The
  state after \<open>n\<close> calls keeps the invariant, and what follows from the invariant holds after
  any number of calls.
\<close>

fun run_steps :: "('s \<Rightarrow> 'o \<times> 's) \<Rightarrow> nat \<Rightarrow> 's \<Rightarrow> 's" where
  "run_steps step 0 s = s"
| "run_steps step (Suc n) s = run_steps step n (snd (step s))"

lemma run_steps_add: "run_steps step (m + n) s = run_steps step n (run_steps step m s)"
  by (induction m arbitrary: s) auto

locale stepper =
  fixes step :: "'s \<Rightarrow> 'o \<times> 's"
    and inv :: "'s \<Rightarrow> bool"
  assumes inv_step: "inv s \<Longrightarrow> inv (snd (step s))"
begin

lemma inv_run: "inv s \<Longrightarrow> inv (run_steps step n s)"
  by (induction n arbitrary: s) (auto intro: inv_step)

lemma run_ensures:
  assumes "inv s" and "\<And>s. inv s \<Longrightarrow> Q s"
  shows "Q (run_steps step n s)"
  using assms inv_run by blast

end

end
