(* ===== verification/Cstring.thy ===== *)
theory Cstring
  imports Dgos_Prelude
begin

text \<open>
  The kernel's C string and memory routines, \<^verbatim>\<open>kernel/lib/string.cc\<close> and the fill helpers of
  \<^verbatim>\<open>kernel/lib/string.h\<close>, over a flat byte memory. The build modelled is x86-64
  (\<^verbatim>\<open>USE_REP_STRING\<close>), so the inline assembly is modelled by the string instructions it runs:
  \<^verbatim>\<open>rep stosb/w/l/q\<close>, \<^verbatim>\<open>rep movsb\<close>, \<^verbatim>\<open>std; rep movsq\<close> and \<^verbatim>\<open>repe cmpsb\<close>. Loops that only stop at a
  terminator are \<^theory_text>\<open>partial_function (option)\<close>: \<open>None\<close> means the loop runs forever. The
  null pointer is address 0.
\<close>

section \<open>Searching and comparing\<close>

partial_function (option) strlen_loop :: "mem \<Rightarrow> ptr \<Rightarrow> u64 \<Rightarrow> u64 option" where
  "strlen_loop m src len =
     (if m (src + len) \<noteq> 0 then strlen_loop m src (len + 1) else Some len)"

definition strlen :: "mem \<Rightarrow> ptr \<Rightarrow> u64 option" where
  "strlen m src = strlen_loop m src 0"

fun memchr_loop :: "mem \<Rightarrow> u8 \<Rightarrow> ptr \<Rightarrow> nat \<Rightarrow> ptr" where
  "memchr_loop m c p 0 = 0"
| "memchr_loop m c p (Suc count) = (if m p = c then p else memchr_loop m c (p + 1) count)"

definition memchr :: "mem \<Rightarrow> ptr \<Rightarrow> u32 \<Rightarrow> u64 \<Rightarrow> ptr" where
  "memchr m p ch count = memchr_loop m (ucast ch) p (unat count)"

fun memrchr_loop :: "mem \<Rightarrow> u8 \<Rightarrow> ptr \<Rightarrow> nat \<Rightarrow> ptr" where
  "memrchr_loop m c p 0 = 0"
| "memrchr_loop m c p (Suc count) =
     (if m (p - 1) = c then p - 1 else memrchr_loop m c (p - 1) count)"

definition memrchr :: "mem \<Rightarrow> ptr \<Rightarrow> u32 \<Rightarrow> u64 \<Rightarrow> ptr" where
  "memrchr m p ch count = memrchr_loop m (ucast ch) (p + count) (unat count)"

partial_function (option) strchr_loop :: "mem \<Rightarrow> ptr \<Rightarrow> u8 \<Rightarrow> u64 \<Rightarrow> ptr option" where
  "strchr_loop m s c i =
     (let v = m (s + i) in
      if v = c then Some (s + i)
      else if v = 0 then Some 0
      else strchr_loop m s c (i + 1))"

definition strchr :: "mem \<Rightarrow> ptr \<Rightarrow> u32 \<Rightarrow> ptr option" where
  "strchr m s ch = strchr_loop m s (ucast ch) 0"

partial_function (option) strrchr_loop ::
  "mem \<Rightarrow> ptr \<Rightarrow> u8 \<Rightarrow> u64 \<Rightarrow> u64 \<Rightarrow> u64 option" where
  "strrchr_loop m s c i best =
     (let v = m (s + i);
          best' = (if v = c then i + 1 else best)
      in if v = 0 then Some best' else strrchr_loop m s c (i + 1) best')"

definition strrchr :: "mem \<Rightarrow> ptr \<Rightarrow> u32 \<Rightarrow> ptr option" where
  "strrchr m s ch =
     map_option (\<lambda>best. if best \<noteq> 0 then s + best - 1 else 0) (strrchr_loop m s (ucast ch) 0 0)"

partial_function (option) strcmp :: "mem \<Rightarrow> ptr \<Rightarrow> ptr \<Rightarrow> int option" where
  "strcmp m lhs rhs =
     (let cmp = uint (m lhs) - uint (m rhs)
      in if cmp = 0 \<and> m lhs \<noteq> 0 then strcmp m (lhs + 1) (rhs + 1) else Some cmp)"

fun strncmp_loop :: "mem \<Rightarrow> ptr \<Rightarrow> ptr \<Rightarrow> nat \<Rightarrow> int" where
  "strncmp_loop m lhs rhs 0 = 0"
| "strncmp_loop m lhs rhs (Suc count) =
     (let cmp = uint (m lhs) - uint (m rhs)
      in if count \<noteq> 0 \<and> cmp = 0 \<and> m lhs \<noteq> 0 then strncmp_loop m (lhs + 1) (rhs + 1) count
         else cmp)"

definition strncmp :: "mem \<Rightarrow> ptr \<Rightarrow> ptr \<Rightarrow> u64 \<Rightarrow> int" where
  "strncmp m lhs rhs count = strncmp_loop m lhs rhs (unat count)"

text \<open>\<^verbatim>\<open>repe cmpsb\<close> after the flags were set equal by \<^verbatim>\<open>xor\<close>: the count runs out or a byte differs.\<close>

fun repe_cmpsb :: "mem \<Rightarrow> ptr \<Rightarrow> ptr \<Rightarrow> nat \<Rightarrow> int" where
  "repe_cmpsb m lhs rhs 0 = 0"
| "repe_cmpsb m lhs rhs (Suc count) =
     (if m lhs = m rhs then repe_cmpsb m (lhs + 1) (rhs + 1) count
      else if m lhs < m rhs then - 1 else 1)"

definition memcmp :: "mem \<Rightarrow> ptr \<Rightarrow> ptr \<Rightarrow> u64 \<Rightarrow> int" where
  "memcmp m lhs rhs count = repe_cmpsb m lhs rhs (unat count)"

text \<open>The loop body of \<^verbatim>\<open>const_time_memcmp\<close> dereferences the two base pointers; the index is unused.\<close>

fun const_time_memcmp_loop :: "mem \<Rightarrow> ptr \<Rightarrow> ptr \<Rightarrow> nat \<Rightarrow> int \<Rightarrow> int" where
  "const_time_memcmp_loop m lhs rhs 0 result = result"
| "const_time_memcmp_loop m lhs rhs (Suc n) result =
     (let diff = uint (m rhs) - uint (m lhs)
      in const_time_memcmp_loop m lhs rhs n (if result \<noteq> 0 then result else diff))"

definition const_time_memcmp :: "mem \<Rightarrow> ptr \<Rightarrow> ptr \<Rightarrow> u64 \<Rightarrow> int" where
  "const_time_memcmp m lhs rhs count = const_time_memcmp_loop m lhs rhs (unat count) 0"

fun strstr_loop :: "mem \<Rightarrow> ptr \<Rightarrow> ptr \<Rightarrow> u64 \<Rightarrow> u64 \<Rightarrow> nat \<Rightarrow> ptr" where
  "strstr_loop m str substr blen i 0 = 0"
| "strstr_loop m str substr blen i (Suc n) =
     (if memcmp m (str + i) substr blen = 0 then str + i
      else strstr_loop m str substr blen (i + 1) n)"

text \<open>The starting points tried are \<open>0, \<dots>, chklen\<close>, that is \<open>chklen + 1\<close> of them.\<close>

definition strstr :: "mem \<Rightarrow> ptr \<Rightarrow> ptr \<Rightarrow> ptr option" where
  "strstr m str substr =
     (if m substr = 0 then Some str
      else do {
        slen \<leftarrow> strlen m str;
        blen \<leftarrow> strlen m substr;
        if blen > slen then Some 0
        else let chklen = slen - blen
             in Some (strstr_loop m str substr blen 0 (Suc (unat chklen)))
      })"

section \<open>Filling\<close>

definition store16 :: "mem \<Rightarrow> ptr \<Rightarrow> u64 \<Rightarrow> mem" where
  "store16 m p v = store_bytes m p (map (\<lambda>i. ucast (drop_bit (8 * i) v)) [0..<2])"

definition store32 :: "mem \<Rightarrow> ptr \<Rightarrow> u64 \<Rightarrow> mem" where
  "store32 m p v = store_bytes m p (map (\<lambda>i. ucast (drop_bit (8 * i) v)) [0..<4])"

definition store64 :: "mem \<Rightarrow> ptr \<Rightarrow> u64 \<Rightarrow> mem" where
  "store64 m p v = store_bytes m p (map (\<lambda>i. ucast (drop_bit (8 * i) v)) [0..<8])"

fun memset16 :: "mem \<Rightarrow> ptr \<Rightarrow> u64 \<Rightarrow> nat \<Rightarrow> mem \<times> ptr" where
  "memset16 m d s 0 = (m, d)"
| "memset16 m d s (Suc n) = memset16 (store16 m d s) (d + 2) s n"

fun memset32 :: "mem \<Rightarrow> ptr \<Rightarrow> u64 \<Rightarrow> nat \<Rightarrow> mem \<times> ptr" where
  "memset32 m d s 0 = (m, d)"
| "memset32 m d s (Suc n) = memset32 (store32 m d s) (d + 4) s n"

fun memset64 :: "mem \<Rightarrow> ptr \<Rightarrow> u64 \<Rightarrow> nat \<Rightarrow> mem \<times> ptr" where
  "memset64 m d s 0 = (m, d)"
| "memset64 m d s (Suc n) = memset64 (store64 m d s) (d + 8) s n"

definition memset_byte :: "mem \<Rightarrow> ptr \<Rightarrow> u64 \<Rightarrow> u64 \<Rightarrow> mem \<times> u64" where
  "memset_byte m d s ofs = (m(d + ofs := ucast s), ofs + 1)"

text \<open>\<open>k\<close> calls of \<^verbatim>\<open>memset_byte\<close> in a row, as the fall-through \<^verbatim>\<open>switch\<close> statements make.\<close>

fun memset_bytes :: "nat \<Rightarrow> mem \<Rightarrow> ptr \<Rightarrow> u64 \<Rightarrow> u64 \<Rightarrow> mem \<times> u64" where
  "memset_bytes 0 m d s ofs = (m, ofs)"
| "memset_bytes (Suc k) m d s ofs =
     (let (m', ofs') = memset_byte m d s ofs in memset_bytes k m' d s ofs')"

definition memset_tail :: "mem \<Rightarrow> ptr \<Rightarrow> u64 \<Rightarrow> u64 \<Rightarrow> mem" where
  "memset_tail m d s n =
     (let quads = drop_bit 3 n;
          (m', d') = memset64 m d s (unat quads);
          n' = n AND 7
      in if n' \<noteq> 0 then fst (memset_bytes (unat n') m' d' s 0) else m')"

definition memset :: "mem \<Rightarrow> ptr \<Rightarrow> u32 \<Rightarrow> u64 \<Rightarrow> mem \<times> ptr" where
  "memset m dest c n =
     (let s = 0x0101010101010101 * ucast (c AND 0xFF)
      in if n \<ge> 7 \<and> dest AND 7 \<noteq> 0
         then let (m', ofs) = memset_bytes (8 - unat (dest AND 7)) m dest s 0;
                  n' = n - ofs
              in if n' = 0 then (m', dest) else (memset_tail m' (dest + ofs) s n', dest)
         else (memset_tail m dest s n, dest))"

definition clear64 :: "mem \<Rightarrow> ptr \<Rightarrow> u64 \<Rightarrow> mem" where
  "clear64 m dest n = fst (memset m dest 0 n)"

definition memfill_16 :: "mem \<Rightarrow> ptr \<Rightarrow> u16 \<Rightarrow> u64 \<Rightarrow> mem" where
  "memfill_16 m dest v count = fst (memset16 m dest (ucast v) (unat count))"

definition memfill_32 :: "mem \<Rightarrow> ptr \<Rightarrow> u32 \<Rightarrow> u64 \<Rightarrow> mem" where
  "memfill_32 m dest v count = fst (memset32 m dest (ucast v) (unat count))"

definition memfill_64 :: "mem \<Rightarrow> ptr \<Rightarrow> u64 \<Rightarrow> u64 \<Rightarrow> mem" where
  "memfill_64 m dest v count = fst (memset64 m dest v (unat count))"

section \<open>Copying\<close>

fun rep_movsb :: "mem \<Rightarrow> ptr \<Rightarrow> ptr \<Rightarrow> nat \<Rightarrow> mem" where
  "rep_movsb m d s 0 = m"
| "rep_movsb m d s (Suc n) = rep_movsb (m(d := m s)) (d + 1) (s + 1) n"

definition memcpy :: "mem \<Rightarrow> ptr \<Rightarrow> ptr \<Rightarrow> u64 \<Rightarrow> mem \<times> ptr" where
  "memcpy m dest src n = (rep_movsb m dest src (unat n), dest)"

definition memcpy_byte_reverse :: "mem \<Rightarrow> ptr \<Rightarrow> ptr \<Rightarrow> u64 \<Rightarrow> mem \<times> u64" where
  "memcpy_byte_reverse m d s ofs = (m(d + ofs := m (s + ofs)), ofs - 1)"

fun memcpy_bytes_reverse :: "nat \<Rightarrow> mem \<Rightarrow> ptr \<Rightarrow> ptr \<Rightarrow> u64 \<Rightarrow> mem \<times> u64" where
  "memcpy_bytes_reverse 0 m d s ofs = (m, ofs)"
| "memcpy_bytes_reverse (Suc k) m d s ofs =
     (let (m', ofs') = memcpy_byte_reverse m d s ofs in memcpy_bytes_reverse k m' d s ofs')"

text \<open>\<^verbatim>\<open>std; rep movsq; cld\<close>: each step copies the eight bytes at and above the pointers, then both
  pointers go down by eight.\<close>

fun memcpy64_reverse :: "mem \<Rightarrow> ptr \<Rightarrow> ptr \<Rightarrow> nat \<Rightarrow> mem \<times> ptr \<times> ptr" where
  "memcpy64_reverse m d s 0 = (m, d, s)"
| "memcpy64_reverse m d s (Suc count) =
     memcpy64_reverse (store_bytes m d (bytes_at m s 8)) (d - 8) (s - 8) count"

definition memcpy_reverse_tail :: "mem \<Rightarrow> ptr \<Rightarrow> ptr \<Rightarrow> u64 \<Rightarrow> mem" where
  "memcpy_reverse_tail m d s n =
     (let quads = drop_bit 3 n;
          (m', d', s') = memcpy64_reverse m d s (unat quads);
          n' = n AND 7
      in if n' \<noteq> 0 then fst (memcpy_bytes_reverse (unat n') m' d' s' 0) else m')"

definition memcpy_reverse :: "mem \<Rightarrow> ptr \<Rightarrow> ptr \<Rightarrow> u64 \<Rightarrow> mem" where
  "memcpy_reverse m d s n =
     (if d AND 7 \<noteq> 0
      then let (m', ofs) = memcpy_bytes_reverse (unat (d AND 7)) m d s 0;
               n' = n + ofs
           in if n' = 0 then m' else memcpy_reverse_tail m' (d + ofs) (s + ofs) n'
      else memcpy_reverse_tail m d s n)"

definition memmove :: "mem \<Rightarrow> ptr \<Rightarrow> ptr \<Rightarrow> u64 \<Rightarrow> mem \<times> ptr" where
  "memmove m d s n =
     (if d < s \<or> s + n \<le> d then memcpy m d s n
      else if d \<noteq> s then (memcpy_reverse m (d + n - 1) (s + n - 1) n, d)
      else (m, d))"

partial_function (option) strcpy_loop :: "mem \<Rightarrow> ptr \<Rightarrow> ptr \<Rightarrow> mem option" where
  "strcpy_loop m d s =
     (let c = m s; m' = m(d := c)
      in if c \<noteq> 0 then strcpy_loop m' (d + 1) (s + 1) else Some m')"

definition strcpy :: "mem \<Rightarrow> ptr \<Rightarrow> ptr \<Rightarrow> (mem \<times> ptr) option" where
  "strcpy m dest src = map_option (\<lambda>m'. (m', dest)) (strcpy_loop m dest src)"

partial_function (option) stpcpy_loop :: "mem \<Rightarrow> ptr \<Rightarrow> ptr \<Rightarrow> u64 \<Rightarrow> (mem \<times> ptr) option" where
  "stpcpy_loop m d s i =
     (let c = m (s + i); m' = m(d + i := c)
      in if c \<noteq> 0 then stpcpy_loop m' d s (i + 1) else Some (m', d + i))"

definition stpcpy :: "mem \<Rightarrow> ptr \<Rightarrow> ptr \<Rightarrow> (mem \<times> ptr) option" where
  "stpcpy m lhs rhs = stpcpy_loop m lhs rhs 0"

definition strcat :: "mem \<Rightarrow> ptr \<Rightarrow> ptr \<Rightarrow> (mem \<times> ptr) option" where
  "strcat m dest src = do {
     len \<leftarrow> strlen m dest;
     (m', _) \<leftarrow> strcpy m (dest + len) src;
     Some (m', dest)
   }"

fun strncpy_fill :: "mem \<Rightarrow> ptr \<Rightarrow> u64 \<Rightarrow> nat \<Rightarrow> mem" where
  "strncpy_fill m d i 0 = m"
| "strncpy_fill m d i (Suc k) = strncpy_fill (m(d + i := 0)) d (i + 1) k"

fun strncpy_loop :: "mem \<Rightarrow> ptr \<Rightarrow> ptr \<Rightarrow> u64 \<Rightarrow> nat \<Rightarrow> mem" where
  "strncpy_loop m d s i 0 = m"
| "strncpy_loop m d s i (Suc k) =
     (if m (s + i) \<noteq> 0 then strncpy_loop (m(d + i := m (s + i))) d s (i + 1) k
      else strncpy_fill m d i (Suc k))"

definition strncpy :: "mem \<Rightarrow> ptr \<Rightarrow> ptr \<Rightarrow> u64 \<Rightarrow> mem \<times> ptr" where
  "strncpy m dest src n = (strncpy_loop m dest src 0 (unat n), dest)"

definition strncat :: "mem \<Rightarrow> ptr \<Rightarrow> ptr \<Rightarrow> u64 \<Rightarrow> (mem \<times> ptr) option" where
  "strncat m dest src n = do {
     len \<leftarrow> strlen m dest;
     Some (strncpy m (dest + len) src n)
   }"

section \<open>Spans\<close>

definition byte_slot :: "u8 \<Rightarrow> nat" where
  "byte_slot ch = unat (drop_bit 5 (ucast ch :: u64))"

definition byte_bit :: "u8 \<Rightarrow> u32" where
  "byte_bit ch = push_bit (unat (ucast ch AND 31 :: u64)) 1"

partial_function (option) makeByteBitmap_loop ::
  "mem \<Rightarrow> (nat \<Rightarrow> u32) \<Rightarrow> ptr \<Rightarrow> (nat \<Rightarrow> u32) option" where
  "makeByteBitmap_loop m bm chars =
     (if m chars \<noteq> 0
      then makeByteBitmap_loop m
             (bm(byte_slot (m chars) := bm (byte_slot (m chars)) OR byte_bit (m chars))) (chars + 1)
      else Some bm)"

definition makeByteBitmap :: "mem \<Rightarrow> ptr \<Rightarrow> (nat \<Rightarrow> u32) option" where
  "makeByteBitmap m chars = makeByteBitmap_loop m (\<lambda>_. 0) chars"

partial_function (option) span_char_loop ::
  "mem \<Rightarrow> (u8 \<Rightarrow> bool) \<Rightarrow> ptr \<Rightarrow> u64 \<Rightarrow> u64 option" where
  "span_char_loop m ok src i =
     (if m (src + i) \<noteq> 0 \<and> ok (m (src + i)) then span_char_loop m ok src (i + 1) else Some i)"

definition strspn :: "mem \<Rightarrow> ptr \<Rightarrow> ptr \<Rightarrow> u64 option" where
  "strspn m src chars =
     (if m chars \<noteq> 0 \<and> m (chars + 1) = 0
      then span_char_loop m (\<lambda>c. c = m chars) src 0
      else do {
        bm \<leftarrow> makeByteBitmap m chars;
        span_char_loop m (\<lambda>c. bm (byte_slot c) AND byte_bit c \<noteq> 0) src 0
      })"

definition strcspn :: "mem \<Rightarrow> ptr \<Rightarrow> ptr \<Rightarrow> u64 option" where
  "strcspn m src chars =
     (if m chars \<noteq> 0 \<and> m (chars + 1) = 0
      then span_char_loop m (\<lambda>c. c \<noteq> m chars) src 0
      else do {
        bm \<leftarrow> makeByteBitmap m chars;
        span_char_loop m (\<lambda>c. bm (byte_slot c) AND byte_bit c = 0) src 0
      })"

section \<open>Specification vocabulary\<close>

text \<open>A null-terminated string, and the places where one byte list occurs in another.\<close>

fun cstr :: "mem \<Rightarrow> ptr \<Rightarrow> u8 list \<Rightarrow> bool" where
  "cstr m s [] \<longleftrightarrow> m s = 0"
| "cstr m s (x # xs) \<longleftrightarrow> x \<noteq> 0 \<and> m s = x \<and> cstr m (s + 1) xs"

definition occurs_at :: "u8 list \<Rightarrow> u8 list \<Rightarrow> nat \<Rightarrow> bool" where
  "occurs_at ys xs i \<longleftrightarrow> take (length ys) (drop i xs) = ys"

section \<open>Null-terminated strings\<close>

lemma cstr_nth: "cstr m s xs \<Longrightarrow> i < length xs \<Longrightarrow> m (s + of_nat i) = xs ! i \<and> xs ! i \<noteq> 0"
proof (induction xs arbitrary: s i)
  case Nil
  then show ?case by simp
next
  case (Cons x xs)
  show ?case
  proof (cases i)
    case 0
    then show ?thesis using Cons.prems by simp
  next
    case (Suc j)
    then show ?thesis using Cons.IH [of "s + 1" j] Cons.prems by (simp add: add.assoc)
  qed
qed

lemma cstr_end: "cstr m s xs \<Longrightarrow> m (s + of_nat (length xs)) = 0"
proof (induction xs arbitrary: s)
  case (Cons x xs)
  then show ?case using Cons.IH [of "s + 1"] by (simp add: add.assoc)
qed simp

lemma cstr_length: 
  assumes "cstr m s xs"
  shows "length xs < 18446744073709551616"
proof (rule ccontr)
  assume "\<not> ?thesis"
  then have "length xs - 18446744073709551616 < length xs"
    and eq: "length xs = (length xs - 18446744073709551616) + 2 ^ LENGTH(64)"
    by auto
  then have "m (s + of_nat (length xs - 18446744073709551616)) \<noteq> 0"
    using cstr_nth [OF assms] by metis
  moreover have "(of_nat (length xs) :: u64) = of_nat (length xs - 18446744073709551616)"
    by (subst eq) (simp only: of_nat_add of_nat_power, simp)
  ultimately show False using cstr_end [OF assms] by simp
qed

lemma cstr_unique: "cstr m s xs \<Longrightarrow> cstr m s ys \<Longrightarrow> xs = ys"
proof (induction xs arbitrary: s ys)
  case Nil
  then show ?case by (cases ys) auto
next
  case (Cons x xs)
  then show ?case by (cases ys) auto
qed

lemma cstr_bytes_at: "cstr m s xs \<Longrightarrow> bytes_at m s (length xs) = xs"
  by (induction xs arbitrary: s) auto

lemma strlen_loop_cstr:
  "cstr m (s + len) xs \<Longrightarrow> strlen_loop m s len = Some (len + of_nat (length xs))"
proof (induction xs arbitrary: len)
  case Nil
  then show ?case by (subst strlen_loop.simps) simp
next
  case (Cons x xs)
  then have "strlen_loop m s (len + 1) = Some (len + 1 + of_nat (length xs))"
    by (intro Cons.IH) (simp add: algebra_simps)
  with Cons.prems show ?case by (subst strlen_loop.simps) (simp add: algebra_simps)
qed

lemma strlen_cstr: "cstr m s xs \<Longrightarrow> strlen m s = Some (of_nat (length xs))"
  using strlen_loop_cstr [of m s 0 xs] by (simp add: strlen_def)

lemma strcmp_cstr:
  "cstr m l xs \<Longrightarrow> cstr m r ys \<Longrightarrow>
   \<exists>c. strcmp m l r = Some c \<and> (c = 0 \<longleftrightarrow> xs = ys) \<and>
       (c < 0 \<longleftrightarrow> (xs, ys) \<in> lexord {(a, b). a < b})"
proof (induction xs arbitrary: l r ys)
  case Nil
  then show ?case
    by (subst strcmp.simps; cases ys) (auto simp: word_neq_0_conv word_less_def uint_0_iff)
next
  case (Cons x xs)
  show ?case
  proof (cases ys)
    case Nil
    then show ?thesis using Cons.prems
      by (subst strcmp.simps) (auto simp: uint_0_iff)
  next
    case (Cons y ys')
    show ?thesis
    proof (cases "x = y")
      case True
      then have "strcmp m l r = strcmp m (l + 1) (r + 1)"
        using Cons.prems Cons by (subst strcmp.simps) simp
      with Cons.IH [of "l + 1" "r + 1" ys'] Cons.prems Cons True show ?thesis by auto
    next
      case False
      then show ?thesis using Cons.prems Cons
        by (subst strcmp.simps) (auto simp: word_less_def simp flip: word_uint_eq_iff)
    qed
  qed
qed

lemma repe_cmpsb_bytes:
  "repe_cmpsb m l r n = 0 \<longleftrightarrow> bytes_at m l n = bytes_at m r n"
  by (induction n arbitrary: l r) auto

section \<open>Spans and bitmaps\<close>

lemma span_char_loop_cstr:
  "cstr m (src + i) xs \<Longrightarrow>
   span_char_loop m ok src i = Some (i + of_nat (length (takeWhile ok xs)))"
proof (induction xs arbitrary: i)
  case Nil
  then show ?case by (subst span_char_loop.simps) simp
next
  case (Cons x xs)
  have "span_char_loop m ok src (i + 1) = Some (i + 1 + of_nat (length (takeWhile ok xs)))"
    by (rule Cons.IH) (use Cons.prems in \<open>simp add: add.assoc\<close>)
  with Cons.prems show ?case by (subst span_char_loop.simps) (simp add: add.assoc)
qed

lemma byte_slot_div: "byte_slot c = unat c div 32"
  by (simp add: byte_slot_def wrap_simps)

lemma byte_bit_mod: "byte_bit c = push_bit (unat c mod 32) 1"
  by (simp add: byte_bit_def wrap_simps)

lemma byte_slot_bit_inject:
  "byte_slot c = byte_slot d \<Longrightarrow> unat c mod 32 = unat d mod 32 \<Longrightarrow> c = d"
  unfolding byte_slot_div by (metis div_mult_mod_eq word_unat_eq_iff)

lemma bitmap_test: "(v :: u32) AND byte_bit c \<noteq> 0 \<longleftrightarrow> bit v (unat c mod 32)"
  by (simp add: byte_bit_mod bit_iff_and_push_bit_not_eq_0)

lemma bitmap_insert:
  "(bm(byte_slot d := bm (byte_slot d) OR byte_bit d)) (byte_slot c) AND byte_bit c \<noteq> 0
   \<longleftrightarrow> c = d \<or> bm (byte_slot c) AND byte_bit c \<noteq> 0"
proof (cases "byte_slot c = byte_slot d")
  case True
  then have "unat c mod 32 = unat d mod 32 \<longleftrightarrow> c = d"
    using byte_slot_bit_inject by auto
  with True show ?thesis
    unfolding bitmap_test
    by (auto simp: byte_bit_mod bit_or_iff bit_exp_iff)
next
  case False
  then show ?thesis by auto
qed

lemma makeByteBitmap_loop_cstr:
  "cstr m chars ys \<Longrightarrow>
   \<exists>bm'. makeByteBitmap_loop m bm chars = Some bm' \<and>
     (\<forall>c. bm' (byte_slot c) AND byte_bit c \<noteq> 0 \<longleftrightarrow>
          c \<in> set ys \<or> bm (byte_slot c) AND byte_bit c \<noteq> 0)"
proof (induction ys arbitrary: chars bm)
  case Nil
  then show ?case by (subst makeByteBitmap_loop.simps) simp
next
  case (Cons y ys)
  let ?bm = "bm(byte_slot y := bm (byte_slot y) OR byte_bit y)"
  have step: "makeByteBitmap_loop m bm chars = makeByteBitmap_loop m ?bm (chars + 1)"
    using Cons.prems by (subst makeByteBitmap_loop.simps) simp
  obtain bm' where "makeByteBitmap_loop m ?bm (chars + 1) = Some bm'"
    and "\<forall>c. bm' (byte_slot c) AND byte_bit c \<noteq> 0 \<longleftrightarrow>
             c \<in> set ys \<or> ?bm (byte_slot c) AND byte_bit c \<noteq> 0"
    using Cons.IH [of "chars + 1" ?bm] Cons.prems unfolding cstr.simps by metis
  then show ?case unfolding step bitmap_insert by auto
qed

lemma makeByteBitmap_cstr:
  assumes "cstr m chars ys"
  obtains bm where "makeByteBitmap m chars = Some bm"
    and "\<And>c. bm (byte_slot c) AND byte_bit c \<noteq> 0 \<longleftrightarrow> c \<in> set ys"
  using makeByteBitmap_loop_cstr [OF assms, of "\<lambda>_. 0"] by (auto simp: makeByteBitmap_def)

lemma cstr_singleton:
  "cstr m t ys \<Longrightarrow> m t \<noteq> 0 \<Longrightarrow> m (t + 1) = 0 \<Longrightarrow> ys = [m t]"
  by (cases ys; cases "tl ys") auto

lemma strspn_cstr:
  assumes s: "cstr m s xs" and t: "cstr m t ys"
  shows "strspn m s t = Some (of_nat (length (takeWhile (\<lambda>c. c \<in> set ys) xs)))"
proof (cases "m t \<noteq> 0 \<and> m (t + 1) = 0")
  case True
  then have "ys = [m t]" using t cstr_singleton by blast
  then have "(\<lambda>c. c \<in> set ys) = (\<lambda>c. c = m t)" by (metis empty_iff empty_set insert_iff list.simps(15))
  with True show ?thesis
    using span_char_loop_cstr [of m s 0 xs "\<lambda>c. c = m t"] s by (simp add: strspn_def)
next
  case False
  obtain bm where bm: "makeByteBitmap m t = Some bm"
    and mem: "\<And>c. bm (byte_slot c) AND byte_bit c \<noteq> 0 \<longleftrightarrow> c \<in> set ys"
    using makeByteBitmap_cstr [OF t] by blast
  then show ?thesis
    using False span_char_loop_cstr [of m s 0 xs "\<lambda>c. c \<in> set ys"] s by (auto simp: strspn_def)
qed

lemma strcspn_cstr:
  assumes s: "cstr m s xs" and t: "cstr m t ys"
  shows "strcspn m s t = Some (of_nat (length (takeWhile (\<lambda>c. c \<notin> set ys) xs)))"
proof (cases "m t \<noteq> 0 \<and> m (t + 1) = 0")
  case True
  then have "ys = [m t]" using t cstr_singleton by blast
  then have "(\<lambda>c. c \<notin> set ys) = (\<lambda>c. c \<noteq> m t)" by (metis empty_iff empty_set insert_iff list.simps(15))
  with True show ?thesis
    using span_char_loop_cstr [of m s 0 xs "\<lambda>c. c \<noteq> m t"] s by (simp add: strcspn_def)
next
  case False
  obtain bm where bm: "makeByteBitmap m t = Some bm"
    and mem: "\<And>c. bm (byte_slot c) AND byte_bit c \<noteq> 0 \<longleftrightarrow> c \<in> set ys"
    using makeByteBitmap_cstr [OF t] by blast
  from mem have "(\<lambda>c. bm (byte_slot c) AND byte_bit c = 0) = (\<lambda>c. c \<notin> set ys)" by blast
  then show ?thesis
    using False bm span_char_loop_cstr [of m s 0 xs "\<lambda>c. c \<notin> set ys"] s by (auto simp: strcspn_def)
qed

section \<open>strstr\<close>

lemma cstr_drop: "cstr m s xs \<Longrightarrow> i \<le> length xs \<Longrightarrow> cstr m (s + of_nat i) (drop i xs)"
proof (induction xs arbitrary: s i)
  case (Cons x xs)
  show ?case
  proof (cases i)
    case (Suc j)
    then show ?thesis using Cons.IH [of "s + 1" j] Cons.prems by (simp add: add.assoc)
  qed (use Cons.prems in simp)
qed simp

lemma cstr_take: "cstr m s xs \<Longrightarrow> n \<le> length xs \<Longrightarrow> bytes_at m s n = take n xs"
proof (induction xs arbitrary: s n)
  case (Cons x xs)
  then show ?case by (cases n) auto
qed simp

lemma memcmp_occurs:
  assumes "cstr m s xs" and "cstr m t ys" and "i + length ys \<le> length xs"
  shows "memcmp m (s + of_nat i) t (of_nat (length ys)) = 0 \<longleftrightarrow> occurs_at ys xs i"
proof -
  have "bytes_at m (s + of_nat i) (length ys) = take (length ys) (drop i xs)"
    using assms by (intro cstr_take cstr_drop) auto
  moreover have "bytes_at m t (length ys) = ys"
    by (rule cstr_bytes_at) fact
  moreover have "unat (of_nat (length ys) :: u64) = length ys"
    by (rule unat_of_nat_64) (rule cstr_length [OF assms(2)])
  ultimately show ?thesis by (simp add: memcmp_def repe_cmpsb_bytes occurs_at_def)
qed

lemma occurs_at_bound: "occurs_at ys xs i \<Longrightarrow> ys \<noteq> [] \<Longrightarrow> i + length ys \<le> length xs"
proof -
  assume "occurs_at ys xs i" "ys \<noteq> []"
  then have "length (take (length ys) (drop i xs)) = length ys" "0 < length ys"
    by (simp_all add: occurs_at_def)
  then show ?thesis unfolding length_take length_drop by linarith
qed

lemma strstr_loop_find:
  "strstr_loop m s t b (of_nat i) n =
     (case List.find (\<lambda>j. memcmp m (s + of_nat j) t b = 0) [i..<i + n] of
        None \<Rightarrow> 0 | Some j \<Rightarrow> s + of_nat j)"
proof (induction n arbitrary: i)
  case (Suc n)
  have "[i..<i + Suc n] = i # [Suc i..<Suc i + n]"
    by (simp add: upt_conv_Cons)
  then show ?case using Suc.IH [of "Suc i"] by (simp add: add.commute)
qed simp

lemma strstr_cstr:
  assumes s: "cstr m s xs" and t: "cstr m t ys"
  shows "strstr m s t = Some (case List.find (occurs_at ys xs) [0..<Suc (length xs)] of
           None \<Rightarrow> 0 | Some i \<Rightarrow> s + of_nat i)"
proof (cases "ys = []")
  case True
  then show ?thesis using t by (simp add: strstr_def occurs_at_def upt_conv_Cons del: upt_Suc)
next
  case False
  with t have ne: "m t \<noteq> 0" by (cases ys) auto
  have lens: "length xs < 18446744073709551616" "length ys < 18446744073709551616"
    using s t cstr_length by auto
  show ?thesis
  proof (cases "length ys \<le> length xs")
    case le: False
    then have "\<not> occurs_at ys xs i" for i
      using occurs_at_bound False by fastforce
    then have none: "List.find (occurs_at ys xs) [0..<Suc (length xs)] = None"
      by (simp add: find_None_iff del: upt_Suc)
    have "(of_nat (length xs) :: u64) < of_nat (length ys)"
      using le lens by (simp add: word_less_nat_alt unat_of_nat_64)
    then show ?thesis
      using ne none by (simp add: strstr_def strlen_cstr [OF s] strlen_cstr [OF t] del: upt_Suc)
  next
    case True
    let ?k = "length xs - length ys"
    have nlt: "\<not> (of_nat (length xs) :: u64) < of_nat (length ys)"
      using True lens by (simp add: word_less_nat_alt unat_of_nat_64)
    have k: "unat (of_nat (length xs) - of_nat (length ys) :: u64) = ?k"
    proof -
      have "(of_nat (length xs) - of_nat (length ys) :: u64) = of_nat ?k"
        using True by (simp add: of_nat_diff)
      then show ?thesis using lens by (simp add: unat_of_nat_64)
    qed
    have split: "[0..<Suc (length xs)] = [0..<Suc ?k] @ [Suc ?k..<Suc (length xs)]"
      using upt_add_eq_append [of 0 "Suc ?k" "length ys"] True by simp
    have "List.find (occurs_at ys xs) [Suc ?k..<Suc (length xs)] = None"
      using occurs_at_bound False by (fastforce simp: find_None_iff simp del: upt_Suc)
    then have "List.find (occurs_at ys xs) [0..<Suc (length xs)]
                 = List.find (occurs_at ys xs) [0..<Suc ?k]"
      unfolding split by (simp add: find_append del: upt_Suc split: option.splits)
    also have "\<dots> = List.find (\<lambda>j. memcmp m (s + of_nat j) t (of_nat (length ys)) = 0) [0..<Suc ?k]"
    proof (rule find_cong)
      fix j
      assume "j \<in> set [0..<Suc ?k]"
      then have "j + length ys \<le> length xs" using True by auto
      then show "occurs_at ys xs j = (memcmp m (s + of_nat j) t (of_nat (length ys)) = 0)"
        by (rule memcmp_occurs [OF s t, symmetric])
    qed simp
    finally show ?thesis
      using ne nlt k strstr_loop_find [of m s t "of_nat (length ys)" 0 "Suc ?k"]
      by (simp add: strstr_def strlen_cstr [OF s] strlen_cstr [OF t] del: upt_Suc strstr_loop.simps)
  qed
qed

section \<open>Filling\<close>

lemma memset_bytes_eq:
  "memset_bytes k m d s ofs =
     (store_bytes m (d + ofs) (replicate k (ucast s)), ofs + of_nat k)"
  by (induction k arbitrary: m ofs) (auto simp: memset_byte_def add.assoc)

lemma repunit_digit:
  fixes B D hi lo :: nat
  assumes "lo * B < D" and "B < 256"
  shows "((256 * hi + 1) * D + lo) * B div D mod 256 = B"
proof -
  have "((256 * hi + 1) * D + lo) * B = (256 * (hi * B) + B) * D + lo * B"
    by (simp add: algebra_simps)
  moreover have "((256 * (hi * B) + B) * D + lo * B) div D = 256 * (hi * B) + B"
    using assms(1) by (simp add: div_mult_self3)
  ultimately show ?thesis using assms(2) by simp
qed

lemma fill_pattern_digit:
  fixes B :: nat
  assumes "B < 256" and "i < 8"
  shows "72340172838076673 * B div 2 ^ (8 * i) mod 256 = B"
proof -
  consider "i = 0" | "i = 1" | "i = 2" | "i = 3" | "i = 4" | "i = 5" | "i = 6" | "i = 7"
    using assms(2) by linarith
  then show ?thesis
  proof cases
    case 1
    then show ?thesis using repunit_digit [of 0 B 1 282578800148737] assms(1) by simp
  next
    case 2
    then show ?thesis using repunit_digit [of 1 B 256 1103823438081] assms(1) by simp
  next
    case 3
    then show ?thesis using repunit_digit [of 257 B 65536 4311810305] assms(1) by simp
  next
    case 4
    then show ?thesis using repunit_digit [of 65793 B 16777216 16843009] assms(1) by simp
  next
    case 5
    then show ?thesis using repunit_digit [of 16843009 B 4294967296 65793] assms(1) by simp
  next
    case 6
    then show ?thesis using repunit_digit [of 4311810305 B 1099511627776 257] assms(1) by simp
  next
    case 7
    then show ?thesis using repunit_digit [of 1103823438081 B 281474976710656 1] assms(1) by simp
  next
    case 8
    then show ?thesis using repunit_digit [of 282578800148737 B 72057594037927936 0] assms(1) by simp
  qed
qed

lemma fill_pattern_byte:
  assumes "i < 8"
  shows "ucast (drop_bit (8 * i) (0x0101010101010101 * ucast b :: u64)) = (b :: u8)"
proof -
  have "72340172838076673 * unat b < 18446744073709551616"
    using unat_lt_8 [of b] by linarith
  then have "unat (0x0101010101010101 * ucast b :: u64) = 72340172838076673 * unat b"
    by (simp add: unat_word_ariths wrap_simps)
  then have "unat (drop_bit (8 * i) (0x0101010101010101 * ucast b :: u64)) mod 256 = unat b"
    using fill_pattern_digit [of "unat b" i] assms by (simp add: wrap_simps)
  then show ?thesis
    by (simp add: word_unat_eq_iff unsigned_ucast_eq take_bit_eq_mod)
qed

lemma store64_fill:
  "store64 m p (0x0101010101010101 * ucast b) = store_bytes m p (replicate 8 b)"
proof -
  have "map (\<lambda>i. ucast (drop_bit (8 * i) (0x0101010101010101 * ucast b :: u64))) [0..<8]
          = map (\<lambda>i. b) [0..<8]"
    by (rule map_cong) (auto simp: fill_pattern_byte)
  then show ?thesis by (simp add: store64_def map_replicate_const)
qed

lemma memset64_fill:
  "memset64 m d (0x0101010101010101 * ucast b) n =
     (store_bytes m d (replicate (8 * n) b), d + of_nat (8 * n))"
proof (induction n arbitrary: m d)
  case (Suc n)
  have "store_bytes (store_bytes m d (replicate 8 b)) (d + 8) (replicate (8 * n) b) =
          store_bytes m d (replicate (8 * Suc n) b)"
    using store_bytes_append [of m d "replicate 8 b" "replicate (8 * n) b"]
    by (simp flip: replicate_add)
  then show ?case using Suc.IH by (simp add: store64_fill add.assoc)
qed simp

lemma fill_byte_mask: "ucast (c AND 0xFF) = (ucast (ucast c :: u8) :: u64)" for c :: u32
proof -
  have "c AND 0xFF = take_bit 8 c" by (simp add: take_bit_eq_mask mask_numeral)
  then show ?thesis by (intro bit_word_eqI) (auto simp: bit_simps)
qed

lemma memset_tail_eq:
  "memset_tail m d (0x0101010101010101 * ucast b) n = store_bytes m d (replicate (unat n) b)"
proof -
  define q r where "q = unat n div 8" and "r = unat n mod 8"
  have n: "unat n = 8 * q + r" by (simp add: q_def r_def)
  have low: "ucast (0x0101010101010101 * ucast b :: u64) = b"
    using fill_pattern_byte [of 0 b] by simp
  have r: "(n AND 7 = 0) = (r = 0)" "unat (n AND 7) = r"
    by (simp_all add: word_unat_eq_iff wrap_simps r_def)
  have "store_bytes m d (replicate (unat n) b) =
          store_bytes (store_bytes m d (replicate (8 * q) b)) (d + of_nat (8 * q)) (replicate r b)"
    unfolding n replicate_add by (simp add: store_bytes_append)
  moreover have "unat (drop_bit 3 n) = q" by (simp add: wrap_simps q_def)
  moreover from this have "drop_bit 3 n = of_nat q" by auto
  ultimately show ?thesis
    using r by (simp add: memset_tail_def memset64_fill memset_bytes_eq low Let_def)
qed

lemma memset_eq:
  "memset m dest c n = (store_bytes m dest (replicate (unat n) (ucast c)), dest)"
proof -
  let ?b = "ucast c :: u8" and ?s = "0x0101010101010101 * ucast (ucast c :: u8) :: u64"
  have low: "ucast ?s = ?b" using fill_pattern_byte [of 0 ?b] by simp
  show ?thesis
  proof (cases "n \<ge> 7 \<and> dest AND 7 \<noteq> 0")
    case True
    define k where "k = 8 - unat (dest AND 7)"
    have "0 < unat (dest AND 7)" using True by (simp add: unat_gt_0)
    moreover have "7 \<le> unat n" using True by (simp add: word_le_nat_alt)
    ultimately have k: "k \<le> 7" "k \<le> unat n" by (simp_all add: k_def)
    then have k64: "unat (of_nat k :: u64) = k" by (simp add: unat_of_nat_64)
    then have n': "unat (n - of_nat k) = unat n - k"
      using k by (simp add: unat_sub word_le_nat_alt)
    have split: "store_bytes m dest (replicate (unat n) ?b) =
        store_bytes (store_bytes m dest (replicate k ?b)) (dest + of_nat k)
          (replicate (unat n - k) ?b)"
      using store_bytes_append [of m dest "replicate k ?b" "replicate (unat n - k) ?b"] k
      by (simp flip: replicate_add)
    have zero: "n - of_nat k = 0 \<Longrightarrow> unat n - k = 0"
      using n' by simp
    show ?thesis
      using True split n' zero
      by (auto simp: memset_def fill_byte_mask memset_bytes_eq low memset_tail_eq Let_def simp flip: k_def)
  next
    case False
    then show ?thesis by (auto simp: memset_def fill_byte_mask memset_tail_eq Let_def)
  qed
qed

section \<open>Copying\<close>

lemma bytes_at_upd_outside:
  assumes "n < 18446744073709551616" and "\<not> in_block s n a"
  shows "bytes_at (m(a := v)) s n = bytes_at m s n"
  using assms by (induction n arbitrary: s) (auto simp: in_block_Suc)

lemma in_block_next:
  assumes "d \<noteq> s"
  shows "in_block (s + 1) n d \<longleftrightarrow> unat (d - s) \<le> n"
proof -
  have "unat (d - (s + 1)) = unat (d - s) - 1"
    using unat_minus_one [of "d - s"] assms by (simp add: diff_diff_add)
  moreover have "0 < unat (d - s)" using assms by (simp add: unat_gt_0)
  ultimately show ?thesis by (auto simp: in_block_def)
qed

lemma rep_movsb_eq:
  assumes "d = s \<or> n \<le> unat (d - s)"
  shows "rep_movsb m d s n = store_bytes m d (bytes_at m s n)"
  using assms
proof (induction n arbitrary: m d s)
  case 0
  then show ?case by simp
next
  case (Suc n)
  have n: "n < 18446744073709551616" if "d \<noteq> s"
    using Suc.prems that unat_lt_64 [of "d - s"] by linarith
  have "bytes_at (m(d := m s)) (s + 1) n = bytes_at m (s + 1) n"
  proof (cases "d = s")
    case False
    then have "\<not> in_block (s + 1) n d" using Suc.prems by (simp add: in_block_next)
    with n [OF False] show ?thesis by (rule bytes_at_upd_outside)
  qed simp
  then show ?case using Suc.IH [of "d + 1" "s + 1"] Suc.prems by auto
qed

lemma store_bytes_same: "store_bytes m p (bytes_at m p n) = m"
proof (induction n arbitrary: p)
  case (Suc n)
  then show ?case by simp
qed simp

lemma memmove_forward:
  assumes "unat s + unat n < 18446744073709551616"
    and "d \<le> s \<or> unat s + unat n \<le> unat d"
  shows "memmove m d s n = (store_bytes m d (bytes_at m s (unat n)), d)"
proof -
  have sn: "unat (s + n) = unat s + unat n"
    using assms(1) by (rule unat_add_64)
  consider "d = s" | "d < s" | "s < d" "unat s + unat n \<le> unat d"
    using assms(2) by (metis leD le_less_linear nat_less_le order_less_le word_less_nat_alt)
  then show ?thesis
  proof cases
    case 1
    then have "rep_movsb m d s (unat n) = store_bytes m d (bytes_at m s (unat n))"
      by (intro rep_movsb_eq) simp
    with 1 show ?thesis by (simp add: memmove_def memcpy_def store_bytes_same)
  next
    case 2
    then have "unat n \<le> unat (d - s)"
      using assms(1) unat_sub_wrap_64 [of d s] by linarith
    with 2 show ?thesis by (simp add: memmove_def memcpy_def rep_movsb_eq)
  next
    case 3
    then have "unat n \<le> unat (d - s)"
      by (subst unat_sub) auto
    moreover have "s + n \<le> d" using 3 sn by (simp add: word_le_nat_alt)
    ultimately show ?thesis by (simp add: memmove_def memcpy_def rep_movsb_eq)
  qed
qed

lemma cstr_upd_outside:
  "Suc (length xs) < 18446744073709551616 \<Longrightarrow> \<not> in_block s (Suc (length xs)) a \<Longrightarrow>
   cstr (m(a := v)) s xs = cstr m s xs"
proof (induction xs arbitrary: s)
  case Nil
  then show ?case by (auto simp: in_block_def)
next
  case (Cons x xs)
  then show ?case by (auto simp: in_block_Suc)
qed

lemma cstr_store_bytes:
  assumes "0 \<notin> set xs" and "Suc (length xs) < 18446744073709551616"
  shows "cstr (store_bytes m p (xs @ [0])) p xs"
proof -
  have "cstr m' p xs" if "bytes_at m' p (Suc (length xs)) = xs @ [0]" for m'
    using that assms(1) by (induction xs arbitrary: p) auto
  moreover have "bytes_at (store_bytes m p (xs @ [0])) p (Suc (length xs)) = xs @ [0]"
    using bytes_at_store_bytes [of "xs @ [0]" m p] assms(2) by simp
  ultimately show ?thesis .
qed

lemma cstr_no_zero: "cstr m s xs \<Longrightarrow> 0 \<notin> set xs"
  by (induction xs arbitrary: s) auto

lemma strcpy_loop_cstr:
  "cstr m s xs \<Longrightarrow> length xs < unat (d - s) \<Longrightarrow>
   strcpy_loop m d s = Some (store_bytes m d (xs @ [0]))"
proof (induction xs arbitrary: m d s)
  case Nil
  then show ?case by (subst strcpy_loop.simps) simp
next
  case (Cons x xs)
  have "d \<noteq> s" using Cons.prems by auto
  moreover have "Suc (length xs) < 18446744073709551616"
    using Cons.prems unat_lt_64 [of "d - s"] by (simp del: unat_lt_64)
  ultimately have "cstr (m(d := x)) (s + 1) xs"
    using Cons.prems by (simp add: cstr_upd_outside in_block_next)
  then have "strcpy_loop (m(d := x)) (d + 1) (s + 1)
               = Some (store_bytes (m(d := x)) (d + 1) (xs @ [0]))"
    by (rule Cons.IH) (use Cons.prems in simp)
  then show ?case using Cons.prems by (subst strcpy_loop.simps) simp
qed

lemma strcpy_cstr:
  assumes "cstr m s xs" and "length xs < unat (d - s)"
  shows "strcpy m d s = Some (store_bytes m d (xs @ [0]), d)"
  using strcpy_loop_cstr [OF assms] by (simp add: strcpy_def)

lemma strcat_cstr:
  assumes d: "cstr m d xs" and s: "cstr m s ys"
    and sep: "length ys < unat (d + of_nat (length xs) - s)"
  shows "strcat m d s = Some (store_bytes m (d + of_nat (length xs)) (ys @ [0]), d)"
  using strcpy_cstr [OF s sep] by (simp add: strcat_def strlen_cstr [OF d])

lemma cstr_append_store:
  assumes "cstr m d xs" and "0 \<notin> set ys"
    and "Suc (length xs + length ys) < 18446744073709551616"
  shows "cstr (store_bytes m (d + of_nat (length xs)) (ys @ [0])) d (xs @ ys)"
proof -
  have "store_bytes m (d + of_nat (length xs)) (ys @ [0])
          = store_bytes (store_bytes m d xs) (d + of_nat (length xs)) (ys @ [0])"
    using store_bytes_same [of m d "length xs"] cstr_bytes_at [OF assms(1)] by simp
  also have "\<dots> = store_bytes m d ((xs @ ys) @ [0])"
    using store_bytes_append [of m d xs "ys @ [0]"] by simp
  finally show ?thesis
    using cstr_store_bytes [of "xs @ ys" m d] assms cstr_no_zero [OF assms(1)] by simp
qed

lemma strncpy_fill_eq:
  "strncpy_fill m d i k = store_bytes m (d + i) (replicate k 0)"
  by (induction k arbitrary: m i) (auto simp: add.assoc)

lemma strncpy_loop_eq:
  assumes "k \<le> unat (d - s)"
  shows "strncpy_loop m d s i k =
     (let xs = takeWhile (\<lambda>b. b \<noteq> 0) (bytes_at m (s + i) k)
      in store_bytes m (d + i) (xs @ replicate (k - length xs) 0))"
  using assms
proof (induction k arbitrary: m i)
  case (Suc k)
  show ?case
  proof (cases "m (s + i) = 0")
    case True
    then show ?thesis by (simp add: strncpy_fill_eq)
  next
    case False
    have "d + i \<noteq> s + i" using Suc.prems by auto
    moreover have "k < 18446744073709551616"
      using Suc.prems unat_lt_64 [of "d - s"] by (simp del: unat_lt_64)
    ultimately have "bytes_at (m(d + i := m (s + i))) (s + i + 1) k = bytes_at m (s + i + 1) k"
      using Suc.prems by (intro bytes_at_upd_outside) (simp_all add: in_block_next)
    then show ?thesis
      using False Suc.IH [of "m(d + i := m (s + i))" "i + 1"] Suc.prems
      by (simp add: Let_def add.assoc del: fun_upd_apply)
  qed
qed simp

lemma strncpy_eq:
  assumes "unat n \<le> unat (d - s)"
  shows "strncpy m d s n =
     (let xs = takeWhile (\<lambda>b. b \<noteq> 0) (bytes_at m s (unat n))
      in (store_bytes m d (xs @ replicate (unat n - length xs) 0), d))"
  using strncpy_loop_eq [OF assms, of m 0] by (simp add: strncpy_def Let_def)

lemma const_time_memcmp_loop_eq:
  "const_time_memcmp_loop m l r n result =
     (if result \<noteq> 0 \<or> n = 0 then result else uint (m r) - uint (m l))"
  by (induction n arbitrary: result) (auto simp: Let_def)

lemma const_time_memcmp_first_byte:
  "const_time_memcmp m l r n = (if n = 0 then 0 else uint (m r) - uint (m l))"
  by (auto simp: const_time_memcmp_def const_time_memcmp_loop_eq unat_eq_zero)

lemma memchr_loop_find:
  "memchr_loop m c p n =
     (case List.find (\<lambda>i. bytes_at m p n ! i = c) [0..<n] of None \<Rightarrow> 0 | Some i \<Rightarrow> p + of_nat i)"
proof (induction n arbitrary: p)
  case (Suc n)
  have "[0..<Suc n] = 0 # map Suc [0..<n]" by (simp add: map_Suc_upt upt_conv_Cons del: upt_Suc)
  moreover have "List.find (\<lambda>i. bytes_at m p (Suc n) ! i = c) (map Suc [0..<n])
      = map_option Suc (List.find (\<lambda>i. bytes_at m (p + 1) n ! i = c) [0..<n])"
    by (simp add: find_map comp_def)
  ultimately show ?case using Suc.IH [of "p + 1"]
    by (auto simp: add.assoc simp del: upt_Suc split: option.splits)
qed simp

lemma strchr_loop_cstr:
  "cstr m (s + i) xs \<Longrightarrow>
   strchr_loop m s c i =
     Some (let k = length (takeWhile (\<lambda>b. b \<noteq> c) (xs @ [0]))
           in if k \<le> length xs then s + i + of_nat k else 0)"
proof (induction xs arbitrary: i)
  case Nil
  then show ?case by (subst strchr_loop.simps) (auto simp: Let_def)
next
  case (Cons x xs)
  have "cstr m (s + (i + 1)) xs" using Cons.prems by (simp add: add.assoc)
  from Cons.IH [OF this] Cons.prems show ?case
    by (subst strchr_loop.simps) (auto simp: Let_def add.assoc)
qed

section \<open>Properties\<close>

text \<open>A memory holding the strings \<^verbatim>\<open>"banana"\<close> at 256, \<^verbatim>\<open>"nan"\<close> at 512 and \<^verbatim>\<open>"na"\<close> at 768,
  and a memory in which every byte is the low byte of its own address.\<close>

definition demo_mem :: mem where
  "demo_mem = store_bytes (store_bytes (store_bytes (\<lambda>_. 0) 256 [98, 97, 110, 97, 110, 97])
     512 [110, 97, 110]) 768 [110, 97]"

definition ramp :: mem where
  "ramp a = ucast a"

lemma demo_mem_cstr:
  "cstr demo_mem 256 [98, 97, 110, 97, 110, 97]" "cstr demo_mem 512 [110, 97, 110]"
  "cstr demo_mem 768 [110, 97]"
  by (simp_all add: demo_mem_def)

text \<open>C24: \<open>strstr\<close> returns the address of the first occurrence of the substring, the string itself
  for an empty substring, and the null pointer when there is no occurrence.\<close>

theorem strstr_first_occurrence:
  assumes "cstr m s xs" and "cstr m t ys"
  shows "strstr m s t = Some (case List.find (occurs_at ys xs) [0..<Suc (length xs)] of
           None \<Rightarrow> 0 | Some i \<Rightarrow> s + of_nat i)"
  using assms by (rule strstr_cstr)

theorem strstr_first_occurrence_witness: "strstr demo_mem 256 512 = Some 258"
  using strstr_first_occurrence [OF demo_mem_cstr(1,2)] by (simp add: occurs_at_def upt_rec)

text \<open>C23: \<open>memset\<close>, with its alignment prologue, its quadword body and its byte tail, writes exactly
  the bytes that the plain byte loop writes and returns the destination, for every count and
  alignment.\<close>

theorem memset_equals_byte_fill:
  "memset m dest c n = (store_bytes m dest (replicate (unat n) (ucast c)), dest)"
  by (rule memset_eq)

text \<open>C26: \<open>memmove\<close> moves the source bytes and changes nothing else when the destination is not above
  the source inside it (the forward path, including every forward overlap).\<close>

theorem memmove_forward_path:
  assumes "unat s + unat n < 18446744073709551616"
    and "d \<le> s \<or> unat s + unat n \<le> unat d"
  shows "memmove m d s n = (store_bytes m d (bytes_at m s (unat n)), d)"
  using assms by (rule memmove_forward)

theorem memmove_forward_path_witness:
  "fst (memmove ramp 4096 4098 5) 4100 = 6"
  using memmove_forward_path [of 4098 5 4096 ramp] by (simp add: ramp_def)

text \<open>C38: on the backward path \<open>memmove\<close> is not a move. Moving eight bytes up by one leaves a byte of
  the destination unwritten and overwrites a byte after its end, because the quadword copy starts
  at the last byte instead of seven bytes before it.\<close>

theorem memmove_backward_corrupts:
  "let m' = fst (memmove ramp 4097 4096 8)
   in m' 4098 = ramp 4098 \<and> m' 4098 \<noteq> ramp 4097 \<and> m' 4105 \<noteq> ramp 4105"
  by (simp add: memmove_def memcpy_reverse_def memcpy_reverse_tail_def ramp_def Let_def)

text \<open>C19: \<open>strspn\<close> and \<open>strcspn\<close> return the length of the longest prefix made of, and free of, the given
  characters; the one-character fast path and the bitmap path agree with it.\<close>

theorem strspn_strcspn_prefix:
  assumes "cstr m s xs" and "cstr m t ys"
  shows "strspn m s t = Some (of_nat (length (takeWhile (\<lambda>c. c \<in> set ys) xs)))
       \<and> strcspn m s t = Some (of_nat (length (takeWhile (\<lambda>c. c \<notin> set ys) xs)))"
  using assms by (simp add: strspn_cstr strcspn_cstr)

theorem strspn_strcspn_prefix_witness:
  "strspn demo_mem 512 768 = Some 3 \<and> strcspn demo_mem 256 768 = Some 1"
  using strspn_strcspn_prefix [OF demo_mem_cstr(2,3)] strspn_strcspn_prefix [OF demo_mem_cstr(1,3)]
  by simp

text \<open>C30: \<open>strcmp\<close> terminates on null-terminated strings; its result is zero exactly for equal strings
  and negative exactly when the left string is smaller in the order of unsigned bytes.\<close>

theorem strcmp_is_byte_order:
  assumes "cstr m l xs" and "cstr m r ys"
  shows "\<exists>c. strcmp m l r = Some c \<and> (c = 0 \<longleftrightarrow> xs = ys) \<and>
             (c < 0 \<longleftrightarrow> (xs, ys) \<in> lexord {(a, b). a < b})"
  using assms by (rule strcmp_cstr)

theorem strcmp_is_byte_order_witness: "\<exists>c. strcmp demo_mem 256 512 = Some c \<and> c < 0"
  using strcmp_is_byte_order [OF demo_mem_cstr(1,2)] by auto

text \<open>C7: \<open>strcat\<close> leaves the concatenation of both strings, null-terminated, at the destination and
  returns the destination, when the appended bytes do not run into the source.\<close>

theorem strcat_concatenates:
  assumes "cstr m d xs" and "cstr m s ys"
    and "length ys < unat (d + of_nat (length xs) - s)"
    and "Suc (length xs + length ys) < 18446744073709551616"
  shows "\<exists>m'. strcat m d s = Some (m', d) \<and> cstr m' d (xs @ ys)"
  using strcat_cstr [OF assms(1,2,3)] cstr_append_store [OF assms(1) cstr_no_zero [OF assms(2)] assms(4)]
  by blast

theorem strcat_concatenates_witness:
  "\<exists>m'. strcat demo_mem 512 768 = Some (m', 512) \<and> cstr m' 512 [110, 97, 110, 110, 97]"
  using strcat_concatenates [OF demo_mem_cstr(2,3)] by simp

text \<open>C8: \<open>strncat\<close> writes no terminator when the source has at least \<open>n\<close> characters: the memory after it
  differs from the one before in exactly the \<open>n\<close> copied bytes.\<close>

theorem strncat_omits_terminator:
  assumes "cstr m d xs" and "0 \<notin> set (bytes_at m s (unat n))"
    and "unat n \<le> unat (d + of_nat (length xs) - s)"
  shows "map_option fst (strncat m d s n)
           = Some (store_bytes m (d + of_nat (length xs)) (bytes_at m s (unat n)))"
proof -
  have tw: "takeWhile (\<lambda>b. b \<noteq> 0) (bytes_at m s (unat n)) = bytes_at m s (unat n)"
    using assms(2) by (subst takeWhile_eq_all_conv) auto
  have "fst (strncpy m (d + of_nat (length xs)) s n)
          = store_bytes m (d + of_nat (length xs)) (bytes_at m s (unat n))"
    unfolding strncpy_eq [OF assms(3)] Let_def tw by simp
  then show ?thesis by (simp add: strncat_def strlen_cstr [OF assms(1)])
qed

theorem strncat_omits_terminator_witness:
  "map_option fst (strncat ramp 256 1 1) = Some (store_bytes ramp 256 [1])"
  using strncat_omits_terminator [of ramp 256 "[]" 1 1] by (simp add: ramp_def)

text \<open>C9: \<open>const_time_memcmp\<close> only ever compares the first byte: its result depends on no other byte of
  the two buffers.\<close>

theorem const_time_memcmp_ignores_tail:
  "const_time_memcmp m l r n = (if n = 0 then 0 else uint (m r) - uint (m l))"
  by (rule const_time_memcmp_first_byte)

end
