(* ===== verification/Rand.thy ===== *)
theory Rand
  imports Dgos_Prelude
begin

text \<open>
  The pseudo-random generators of \<^verbatim>\<open>kernel/lib/rand.cc\<close> and \<^verbatim>\<open>kernel/lib/rand.h\<close>: the linear
  congruential \<open>rand_r\<close>, the four-component shift register \<open>lfsr113_rand\<close> with its seeding, the
  rejection loop \<open>rand_range\<close>, and the byte-permutation generator \<open>c4rand\<close>.

  A generator call takes its state and returns the drawn value with the state after the call.
  \<open>nano_time\<close> is a parameter of \<open>lfsr113_autoseed\<close>: it reads a hardware counter.
\<close>

section \<open>Model\<close>

subsection \<open>The linear congruential generator\<close>

definition rand_r :: "u64 \<Rightarrow> int \<times> u64" where
  "rand_r seed = (let seed = seed * 6364136223846793005 + 1
     in (signed_take_bit 31 (uint (drop_bit 33 seed)), seed))"

definition rand_r_range :: "u64 \<Rightarrow> int \<Rightarrow> int \<Rightarrow> int \<times> u64" where
  "rand_r_range seed lo hi = (let (r, seed) = rand_r seed
     in (signed_take_bit 31 (drop_bit 31 (r * (hi - lo)) + lo), seed))"

subsection \<open>The shift register generator\<close>

record lfsr113_state_t =
  seed_z1 :: u32
  seed_z2 :: u32
  seed_z3 :: u32
  seed_z4 :: u32

definition lfsr113_default :: lfsr113_state_t where
  "lfsr113_default = \<lparr> seed_z1 = 987654321, seed_z2 = 987654321,
     seed_z3 = 987654321, seed_z4 = 987654321 \<rparr>"

definition lfsr113_seed :: "u32 \<Rightarrow> lfsr113_state_t" where
  "lfsr113_seed seed =
    (let seed_seed = push_bit 16 (ucast seed) :: u64;
         (z1, seed_seed) = rand_r seed_seed;
         (z2, seed_seed) = rand_r seed_seed;
         (z3, seed_seed) = rand_r seed_seed;
         (z4, seed_seed) = rand_r seed_seed;
         z1 = word_of_int z1; z2 = word_of_int z2; z3 = word_of_int z3; z4 = word_of_int z4
     in \<lparr> seed_z1 = (if z1 < 1 then 71 else z1),
          seed_z2 = (if z2 < 7 then z2 + 61 else z2),
          seed_z3 = (if z3 < 15 then z3 + 93 else z3),
          seed_z4 = (if z4 < 127 then z4 + 293 else z4) \<rparr>)"

definition lfsr113_autoseed :: "u64 \<Rightarrow> lfsr113_state_t" where
  "lfsr113_autoseed nano_time = lfsr113_seed (ucast nano_time)"

definition lfsr113_rand :: "lfsr113_state_t \<Rightarrow> u32 \<times> lfsr113_state_t" where
  "lfsr113_rand state =
    (let b = drop_bit 13 (push_bit 6 (seed_z1 state) XOR seed_z1 state);
         z1 = push_bit 18 (seed_z1 state AND 0xFFFFFFFE) XOR b;
         b = drop_bit 27 (push_bit 2 (seed_z2 state) XOR seed_z2 state);
         z2 = push_bit 2 (seed_z2 state AND 0xFFFFFFF8) XOR b;
         b = drop_bit 21 (push_bit 13 (seed_z3 state) XOR seed_z3 state);
         z3 = push_bit 7 (seed_z3 state AND 0xFFFFFFF0) XOR b;
         b = drop_bit 12 (push_bit 3 (seed_z4 state) XOR seed_z4 state);
         z4 = push_bit 13 (seed_z4 state AND 0xFFFFFF80) XOR b
     in (z1 XOR z2 XOR z3 XOR z4,
         \<lparr> seed_z1 = z1, seed_z2 = z2, seed_z3 = z3, seed_z4 = z4 \<rparr>))"

text \<open>
  The rejection loop of \<open>rand_range\<close>: \<open>limit\<close> is kept at 32 bits, so it is 0 when the range
  divides \<open>2 ^ 32\<close>.  A zero range divides by zero, which traps and does not return.
\<close>

definition rand_limit :: "u32 \<Rightarrow> u32" where
  "rand_limit n = ucast ((4294967296 :: u64) - 4294967296 mod ucast n)"

definition rand_accept :: "u32 \<Rightarrow> u32 \<Rightarrow> bool" where
  "rand_accept limit r \<longleftrightarrow> r < limit \<or> limit = 0"

partial_function (option) rand_range_loop ::
    "u32 \<Rightarrow> u32 \<Rightarrow> u32 \<Rightarrow> lfsr113_state_t \<Rightarrow> (u32 \<times> lfsr113_state_t) option" where
  "rand_range_loop n limit st state =
    (case lfsr113_rand state of (r, state) \<Rightarrow>
       if rand_accept limit r then Some (r mod n + st, state)
       else rand_range_loop n limit st state)"

definition rand_range ::
    "lfsr113_state_t \<Rightarrow> u32 \<Rightarrow> u32 \<Rightarrow> (u32 \<times> lfsr113_state_t) option" where
  "rand_range state st en =
    (let n = en - st in
     do { assert_that (n \<noteq> 0);
          rand_range_loop n (rand_limit n) st state })"

subsection \<open>The byte permutation generator\<close>

record c4rand =
  c4_state :: "u8 list"
  c4_a :: u32
  c4_b :: u32

definition swap_at :: "nat \<Rightarrow> nat \<Rightarrow> 'a list \<Rightarrow> 'a list" where
  "swap_at i j xs = xs[i := xs ! j, j := xs ! i]"

definition c4_mix :: "u8 \<Rightarrow> nat \<Rightarrow> u8 list \<Rightarrow> u32 \<Rightarrow> u8 list \<times> u32" where
  "c4_mix k i st b = (let b = (b + ucast (st ! i) + ucast k) AND 0xFF
     in (swap_at i (unat b) st, b))"

lemma c4_mod_less:
  "0 < i mod 256 \<Longrightarrow> (256 - Suc (i mod 256) mod 256) mod 256 < (256 - i mod 256 :: nat)"
  by (cases "i mod 256 = 255") (auto simp: mod_less)

function c4_write_loop ::
    "mem \<Rightarrow> ptr \<Rightarrow> nat \<Rightarrow> nat \<Rightarrow> nat \<Rightarrow> bool \<Rightarrow> u8 list \<Rightarrow> u32 \<Rightarrow> u8 list \<times> u32" where
  "c4_write_loop m key len ki i fin st b =
    (let i = i mod 256 in
     if i \<noteq> 0 \<or> \<not> fin then
       (let (st, b) = c4_mix (m (key + of_nat ki)) i st b in
        if Suc ki \<ge> len then c4_write_loop m key len 0 (Suc i) True st b
        else c4_write_loop m key len (Suc ki) (Suc i) fin st b)
     else (st, b))"
  by pat_completeness auto
termination
  by (relation "measures [\<lambda>(m, key, len, ki, i, fin, st, b). if fin then 0 else 1,
        \<lambda>(m, key, len, ki, i, fin, st, b). if fin then (256 - i mod 256) mod 256 else len - ki]")
     (auto simp: c4_mod_less)

definition c4_write :: "mem \<Rightarrow> ptr \<Rightarrow> nat \<Rightarrow> c4rand \<Rightarrow> c4rand" where
  "c4_write m data len c =
    (let (st, b) = c4_write_loop m data len 0 0 False (c4_state c) (c4_b c)
     in c\<lparr> c4_state := st, c4_b := b, c4_a := 0 \<rparr>)"

definition c4_seed :: "mem \<Rightarrow> ptr \<Rightarrow> nat \<Rightarrow> c4rand \<Rightarrow> c4rand" where
  "c4_seed m data len c =
    c4_write m data len (c\<lparr> c4_state := map of_nat [0..<256], c4_b := 0 \<rparr>)"

definition c4_byte :: "c4rand \<Rightarrow> u8 \<times> c4rand" where
  "c4_byte c =
    (let a = (c4_a c + 1) AND 0xFF;
         b = (c4_b c + ucast (c4_state c ! unat a)) AND 0xFF;
         st = swap_at (unat a) (unat b) (c4_state c);
         k = st ! unat ((ucast (st ! unat a) + ucast (st ! unat b) :: u32) AND 0xFF)
     in (k, \<lparr> c4_state = st, c4_a = a, c4_b = b \<rparr>))"

fun c4_read :: "u8 list \<Rightarrow> c4rand \<Rightarrow> u8 list \<times> c4rand" where
  "c4_read [] c = ([], c)"
| "c4_read (x # xs) c =
    (let (k, c) = c4_byte c; (ys, c) = c4_read xs c in ((x XOR k) # ys, c))"

section \<open>Lemmas\<close>

subsection \<open>The linear congruential generator\<close>

lemma uint_drop_bit_33: "uint (drop_bit 33 (w :: u64)) < 2147483648"
proof -
  have "unat w < 8589934592 * 2147483648" using unat_lt_64 [of w] by simp
  then have "unat (drop_bit 33 w) < 2147483648"
    by (simp only: unat_drop_bit) (simp add: less_mult_imp_div_less)
  then have "int (unat (drop_bit 33 w)) < 2147483648" by linarith
  then show ?thesis by simp
qed

lemma rand_r_value: "fst (rand_r s) = uint (drop_bit 33 (snd (rand_r s)))"
proof -
  have "signed_take_bit 31 (uint (drop_bit 33 w)) = uint (drop_bit 33 w)" for w :: u64
    by (intro signed_take_bit_31 uint_drop_bit_33) (rule order_trans [of _ 0], simp_all)
  then show ?thesis by (simp add: rand_r_def Let_def)
qed

lemma rand_r_bounds: "0 \<le> fst (rand_r s)" "fst (rand_r s) < 2147483648"
  by (simp_all add: rand_r_value uint_drop_bit_33)

text \<open>
  C30. For a non-empty range that fits an \<^verbatim>\<open>int\<close>, \<open>rand_r_range\<close> returns a value of the range
  \<open>[lo, hi)\<close>: scaling by the 31-bit draw neither overflows nor reaches \<open>hi\<close>.
\<close>

theorem rand_r_range_in_range:
  assumes "- 2147483648 \<le> lo" and "lo < hi" and "hi < 2147483648" and "hi - lo < 2147483648"
  shows "lo \<le> fst (rand_r_range s lo hi) \<and> fst (rand_r_range s lo hi) < hi"
proof -
  let ?r = "fst (rand_r s)"
  have r: "0 \<le> ?r" "?r < 2147483648" by (rule rand_r_bounds)+
  have "0 \<le> ?r * (hi - lo)" using r assms by simp
  moreover have "?r * (hi - lo) < 2147483648 * (hi - lo)"
    using r assms by (intro mult_strict_right_mono) auto
  ultimately have "0 \<le> drop_bit 31 (?r * (hi - lo))" "drop_bit 31 (?r * (hi - lo)) < hi - lo"
    by (auto simp: drop_bit_eq_div)
  moreover from this have "signed_take_bit 31 (drop_bit 31 (?r * (hi - lo)) + lo)
      = drop_bit 31 (?r * (hi - lo)) + lo"
    using assms by (intro signed_take_bit_31) linarith+
  ultimately show ?thesis by (simp add: rand_r_range_def case_prod_beta)
qed

theorem rand_r_range_in_range_witness:
  "1 \<le> fst (rand_r_range 5 1 7) \<and> fst (rand_r_range 5 1 7) < 7"
  by (rule rand_r_range_in_range) simp_all

subsection \<open>The shift register\<close>

text \<open>
  One component of the register: \<open>m\<close> low bits are dropped, the rest is shifted left by \<open>s\<close>, and
  the feedback is \<open>z XOR (z << q)\<close> shifted right by \<open>r\<close>, with \<open>m + s + r = 32\<close>.
\<close>

definition lfsr_component :: "nat \<Rightarrow> nat \<Rightarrow> nat \<Rightarrow> nat \<Rightarrow> u32 \<Rightarrow> u32" where
  "lfsr_component m s q r z =
    push_bit s (z AND NOT (mask m)) XOR drop_bit r (push_bit q z XOR z)"

lemma bit_lfsr_component:
  assumes "m + s + r = 32" and "q + s + m \<le> 32" and "q \<le> r" and "i < 32"
  shows "bit (lfsr_component m s q r z) i \<longleftrightarrow>
    (if s + m \<le> i then bit z (i - s) else bit z (r + i - q) \<noteq> bit z (r + i))"
  using assms bit_imp_le_length [of z "r + i"] bit_imp_le_length [of z "r + i - q"]
  by (auto simp: lfsr_component_def bit_simps)

lemma lfsr_component_nonzero:
  assumes p: "m + s + r = 32" "q + s + m \<le> 32" "q \<le> r" "0 < q"
    and z: "\<not> (\<forall>j\<ge>m. \<not> bit z j)"
  shows "\<not> (\<forall>j\<ge>m. \<not> bit (lfsr_component m s q r z) j)"
proof
  assume zero: "\<forall>j\<ge>m. \<not> bit (lfsr_component m s q r z) j"
  have low: "\<not> bit z j" if "m \<le> j" "j < 32 - s" for j
  proof -
    have "\<not> bit (lfsr_component m s q r z) (j + s)" using zero that by simp
    then show ?thesis using p that by (simp add: bit_lfsr_component)
  qed
  have high: "bit z j = bit z (j - q)" if "32 - s \<le> j" "j < 32" for j
  proof -
    have "\<not> bit (lfsr_component m s q r z) (j - r)" using zero that p by simp
    moreover have "\<not> s + m \<le> j - r" "r + (j - r) = j" using p that by auto
    ultimately show ?thesis using p that by (simp add: bit_lfsr_component)
  qed
  have "m \<le> j \<Longrightarrow> \<not> bit z j" for j
  proof (induction j rule: less_induct)
    case (less j)
    show ?case
    proof (cases "32 \<le> j")
      case True
      then show ?thesis using bit_imp_le_length [of z j] by auto
    next
      case False
      then show ?thesis using less low [of j] high [of j] p
        by (cases "j < 32 - s") auto
    qed
  qed
  with z show False by blast
qed

lemma seed_masks:
  "(0xFFFFFFFE :: u32) = NOT (mask 1)" "(0xFFFFFFF8 :: u32) = NOT (mask 3)"
  "(0xFFFFFFF0 :: u32) = NOT (mask 4)" "(0xFFFFFF80 :: u32) = NOT (mask 7)"
  by (simp_all add: mask_eq_exp_minus_1 not_eq_complement)

lemma lfsr113_rand_components:
  "snd (lfsr113_rand st) =
    \<lparr> seed_z1 = lfsr_component 1 18 6 13 (seed_z1 st), seed_z2 = lfsr_component 3 2 2 27 (seed_z2 st),
      seed_z3 = lfsr_component 4 7 13 21 (seed_z3 st), seed_z4 = lfsr_component 7 13 3 12 (seed_z4 st) \<rparr>"
  by (simp add: lfsr113_rand_def lfsr_component_def seed_masks Let_def)

text \<open>No component is in the part of its range that the feedback drains to zero.\<close>

definition lfsr113_ok :: "lfsr113_state_t \<Rightarrow> bool" where
  "lfsr113_ok st \<longleftrightarrow> 2 \<le> unat (seed_z1 st) \<and> 8 \<le> unat (seed_z2 st)
     \<and> 16 \<le> unat (seed_z3 st) \<and> 128 \<le> unat (seed_z4 st)"

lemma lfsr_component_ge:
  assumes "m + s + r = 32" "q + s + m \<le> 32" "q \<le> r" "0 < q" and "2 ^ m \<le> unat z"
  shows "2 ^ m \<le> unat (lfsr_component m s q r z)"
  using assms lfsr_component_nonzero [of m s r q z] by (simp only: ge_power_iff_bit) blast

lemma lfsr113_rand_ok: "lfsr113_ok st \<Longrightarrow> lfsr113_ok (snd (lfsr113_rand st))"
  using lfsr_component_ge [of 1 18 13 6 "seed_z1 st"] lfsr_component_ge [of 3 2 27 2 "seed_z2 st"]
    lfsr_component_ge [of 4 7 21 13 "seed_z3 st"] lfsr_component_ge [of 7 13 12 3 "seed_z4 st"]
  by (simp add: lfsr113_ok_def lfsr113_rand_components)

interpretation lfsr: stepper lfsr113_rand lfsr113_ok
  by unfold_locales (rule lfsr113_rand_ok)

text \<open>
  The shift register never degenerates: from a state whose four components are large enough
  (2, 8, 16 and 128 at least), every later state has all four components large enough too, so
  none of them ever becomes zero.
\<close>

theorem lfsr113_never_degenerates:
  assumes "lfsr113_ok st"
  shows "lfsr113_ok (run_steps lfsr113_rand n st)
    \<and> seed_z1 (run_steps lfsr113_rand n st) \<noteq> 0 \<and> seed_z2 (run_steps lfsr113_rand n st) \<noteq> 0
    \<and> seed_z3 (run_steps lfsr113_rand n st) \<noteq> 0 \<and> seed_z4 (run_steps lfsr113_rand n st) \<noteq> 0"
  using lfsr.inv_run [OF assms, of n] by (auto simp: lfsr113_ok_def)

theorem lfsr113_never_degenerates_witness:
  "lfsr113_ok (run_steps lfsr113_rand 1000 lfsr113_default)
    \<and> seed_z4 (run_steps lfsr113_rand 1000 lfsr113_default) \<noteq> 0"
  using lfsr113_never_degenerates [of lfsr113_default 1000]
  by (simp add: lfsr113_ok_def lfsr113_default_def)

text \<open>
  \<open>lfsr113_seed\<close> lets the bounds themselves through, although its comment asks for seeds
  larger than 1, 7, 15 and 127: seed 490967483 gives a first component of 1, which is zero after
  every draw from then on.
\<close>

theorem lfsr113_seed_degenerate:
  "seed_z1 (lfsr113_seed 490967483) = 1
    \<and> seed_z1 (run_steps lfsr113_rand (Suc n) (lfsr113_seed 490967483)) = 0"
proof -
  have z: "seed_z1 (lfsr113_seed 490967483) = 1"
    by (simp add: lfsr113_seed_def rand_r_def Let_def)
  have "seed_z1 st = 0 \<Longrightarrow> seed_z1 (run_steps lfsr113_rand n st) = 0" for st
    by (induction n arbitrary: st) (auto simp: lfsr113_rand_components lfsr_component_def)
  then show ?thesis using z
    by (simp add: lfsr113_rand_components lfsr_component_def drop_bit_eq_div mask_eq_exp_minus_1)
qed

subsection \<open>Rejection sampling\<close>

lemma unat_rand_limit:
  assumes "n \<noteq> 0"
  shows "unat (rand_limit n) = (4294967296 div unat n * unat n) mod 4294967296"
proof -
  have "unat ((4294967296 :: u64) - 4294967296 mod ucast n)
      = 4294967296 - 4294967296 mod unat n"
    by (subst unat_sub) (simp_all add: unat_mod_distrib word_le_nat_alt wrap_simps)
  also have "\<dots> = 4294967296 div unat n * unat n"
    by (simp add: minus_mod_eq_div_mult)
  finally have "unat (rand_limit n) = take_bit 32 (4294967296 div unat n * unat n)"
    by (simp add: rand_limit_def unsigned_ucast_eq)
  then show ?thesis by (simp add: take_bit_eq_mod)
qed

lemma rand_accept_iff:
  assumes "n \<noteq> 0"
  shows "rand_accept (rand_limit n) r \<longleftrightarrow> unat r < 4294967296 div unat n * unat n"
proof -
  let ?l = "4294967296 div unat n * unat n"
  have le: "?l \<le> 4294967296" by (rule div_times_less_eq_dividend)
  show ?thesis
  proof (cases "?l = 4294967296")
    case True
    then have "rand_limit n = 0"
      using unat_rand_limit [OF assms] by (simp add: unat_eq_0 [symmetric])
    then show ?thesis using True by (simp add: rand_accept_def)
  next
    case False
    have "unat n \<le> 4294967296" using unat_lt_32 [of n] by linarith
    then have "0 < 4294967296 div unat n"
      using assms by (simp add: div_greater_zero_iff unat_gt_0)
    then have "0 < ?l" using assms by (simp add: unat_gt_0)
    moreover have "?l < 4294967296" using False le by linarith
    then have "unat (rand_limit n) = ?l"
      by (simp only: unat_rand_limit [OF assms] mod_less)
    ultimately show ?thesis
      by (auto simp: rand_accept_def word_less_nat_alt)
  qed
qed

lemma card_residue_below:
  assumes "j < (n :: nat)"
  shows "card {r. r < q * n \<and> r mod n = j} = q"
proof -
  have "{r. r < q * n \<and> r mod n = j} = (\<lambda>i. i * n + j) ` {..<q}"
  proof (intro set_eqI iffI)
    fix r assume "r \<in> {r. r < q * n \<and> r mod n = j}"
    then have "r = r div n * n + j" "r div n < q"
      using div_mult_mod_eq [of r n] by (auto simp: less_mult_imp_div_less)
    then show "r \<in> (\<lambda>i. i * n + j) ` {..<q}" by blast
  next
    fix r assume "r \<in> (\<lambda>i. i * n + j) ` {..<q}"
    then obtain i where "i < q" and r: "r = i * n + j" by auto
    have "i * n + j < Suc i * n" using assms by simp
    moreover have "Suc i * n \<le> q * n" using \<open>i < q\<close> by (intro mult_le_mono1 Suc_leI)
    ultimately have "i * n + j < q * n" by (rule less_le_trans)
    then show "r \<in> {r. r < q * n \<and> r mod n = j}" using r assms by simp
  qed
  moreover have "inj_on (\<lambda>i. i * n + j) {..<q}" using assms by (auto simp: inj_on_def)
  ultimately show ?thesis by (simp add: card_image)
qed

lemma card_words_32:
  assumes "\<And>r. P r \<Longrightarrow> r < 4294967296"
  shows "card {r :: u32. P (unat r)} = card {r. P r}"
proof (rule bij_betw_same_card [of unat])
  have "unat ` {r :: u32. P (unat r)} = {r. P r}"
  proof (intro set_eqI iffI)
    fix r assume "r \<in> {r. P r}"
    then have "unat (of_nat r :: u32) = r" "P r" using assms by (auto simp: unat_of_nat_32)
    then show "r \<in> unat ` {r :: u32. P (unat r)}" by (intro image_eqI [of _ _ "of_nat r"]) auto
  qed auto
  then show "bij_betw unat {r :: u32. P (unat r)} {r. P r}"
    by (auto simp: bij_betw_def inj_on_def word_unat_eq_iff)
qed

text \<open>
  C29. \<open>rand_range\<close> is unbiased: for a range of \<open>n\<close> values, every one of them is the image of
  the same number \<open>2 ^ 32 div n\<close> of accepted 32-bit draws.
\<close>

theorem rand_range_unbiased:
  assumes "n \<noteq> 0" and "j < unat n"
  shows "card {r. rand_accept (rand_limit n) r \<and> unat (r mod n) = j} = 4294967296 div unat n"
proof -
  let ?q = "4294967296 div unat n"
  have "?q * unat n \<le> 4294967296" by (rule div_times_less_eq_dividend)
  then have "card {r :: u32. unat r < ?q * unat n \<and> unat r mod unat n = j}
      = card {r. r < ?q * unat n \<and> r mod unat n = j}"
    by (intro card_words_32) (elim conjE less_le_trans)
  then show ?thesis
    using assms by (simp add: rand_accept_iff unat_mod_distrib card_residue_below)
qed

theorem rand_range_unbiased_witness:
  "card {r. rand_accept (rand_limit 6) r \<and> unat (r mod 6) = 2} = 715827882"
  using rand_range_unbiased [of 6 2] by simp

text \<open>
  The state before draw \<open>k\<close> is \<open>run_steps lfsr113_rand k st\<close>; the loop returns at the first
  accepted draw.
\<close>

lemma rand_range_loop_returns:
  assumes "rand_accept limit (fst (lfsr113_rand (run_steps lfsr113_rand k st)))"
  shows "\<exists>i\<le>k. rand_accept limit (fst (lfsr113_rand (run_steps lfsr113_rand i st)))
    \<and> rand_range_loop n limit lo st =
       Some (fst (lfsr113_rand (run_steps lfsr113_rand i st)) mod n + lo,
             run_steps lfsr113_rand (Suc i) st)"
  using assms
proof (induction k arbitrary: st)
  case 0
  then show ?case by (simp add: rand_range_loop.simps [of n limit lo st] case_prod_beta)
next
  case (Suc k)
  show ?case
  proof (cases "rand_accept limit (fst (lfsr113_rand st))")
    case True
    then show ?thesis
      by (intro exI [of _ 0]) (simp add: rand_range_loop.simps [of n limit lo st] case_prod_beta)
  next
    case False
    have "rand_accept limit (fst (lfsr113_rand (run_steps lfsr113_rand k (snd (lfsr113_rand st)))))"
      using Suc.prems by simp
    from Suc.IH [OF this] False show ?thesis
      by (auto simp: rand_range_loop.simps [of n limit lo st] case_prod_beta
          intro: exI [of _ "Suc _"])
  qed
qed

lemma rand_result_in_range:
  assumes "lo < hi"
  shows "lo \<le> r mod (hi - lo) + lo" "r mod (hi - lo) + lo < (hi :: u32)"
proof -
  have le: "lo \<le> hi" using assms by simp
  have sub: "unat (hi - lo) = unat hi - unat lo" using le by (rule unat_sub)
  have "unat (r mod (hi - lo)) < unat hi - unat lo"
    using assms by (simp add: unat_mod_distrib sub word_less_nat_alt)
  moreover from this have "unat (r mod (hi - lo) + lo) = unat (r mod (hi - lo)) + unat lo"
    using unat_lt_32 [of hi] by (subst unat_word_ariths, simp, intro mod_less) linarith
  ultimately show "lo \<le> r mod (hi - lo) + lo" "r mod (hi - lo) + lo < hi"
    by (simp_all add: word_le_nat_alt word_less_nat_alt)
qed

text \<open>
  \<open>rand_range\<close> returns as soon as the register draws an accepted value, and what it returns
  lies in \<open>[lo, hi)\<close>.  When the size of the range divides \<open>2 ^ 32\<close> every draw is accepted and
  the first one is used.
\<close>

theorem rand_range_returns_in_range:
  assumes "lo < hi"
    and "rand_accept (rand_limit (hi - lo)) (fst (lfsr113_rand (run_steps lfsr113_rand k st)))"
  shows "\<exists>i\<le>k. \<exists>r. rand_range st lo hi = Some (r, run_steps lfsr113_rand (Suc i) st)
    \<and> lo \<le> r \<and> r < hi
    \<and> (4294967296 mod unat (hi - lo) = 0 \<longrightarrow> rand_range st lo hi =
         Some (fst (lfsr113_rand st) mod (hi - lo) + lo, snd (lfsr113_rand st)))"
proof -
  have n: "hi - lo \<noteq> 0" using assms by auto
  have "rand_accept (rand_limit (hi - lo)) r" if "4294967296 mod unat (hi - lo) = 0" for r
    using that n unat_lt_32 [of r] by (simp add: rand_accept_iff flip: minus_mod_eq_div_mult)
  then have one: "rand_range st lo hi =
      Some (fst (lfsr113_rand st) mod (hi - lo) + lo, snd (lfsr113_rand st))"
    if "4294967296 mod unat (hi - lo) = 0"
    using that n by (simp add: rand_range_def rand_range_loop.simps case_prod_beta)
  from rand_range_loop_returns [OF assms(2), of "hi - lo" lo] n
  obtain i where "i \<le> k" "rand_range st lo hi =
      Some (fst (lfsr113_rand (run_steps lfsr113_rand i st)) mod (hi - lo) + lo,
            run_steps lfsr113_rand (Suc i) st)"
    by (auto simp: rand_range_def)
  with one rand_result_in_range [OF assms(1)] show ?thesis
    by (intro exI [of _ i] conjI exI impI) assumption+
qed

theorem rand_range_returns_in_range_witness:
  "\<exists>r. rand_range lfsr113_default 10 16 = Some (r, run_steps lfsr113_rand 1 lfsr113_default)
    \<and> 10 \<le> r \<and> r < 16"
  using rand_range_returns_in_range [of 10 16 0 lfsr113_default]
  by (simp add: rand_accept_def rand_limit_def lfsr113_rand_def lfsr113_default_def Let_def)

subsection \<open>The byte permutation\<close>

text \<open>
  The state table is a permutation of the 256 byte values and both indices are in range, so
  every table access of the generator is within bounds.
\<close>

definition c4_table_ok :: "u8 list \<Rightarrow> bool" where
  "c4_table_ok st \<longleftrightarrow> length st = 256 \<and> distinct st"

definition c4_ok :: "c4rand \<Rightarrow> bool" where
  "c4_ok c \<longleftrightarrow> c4_table_ok (c4_state c) \<and> unat (c4_a c) < 256 \<and> unat (c4_b c) < 256"

lemma unat_and_255 [simp]: "unat ((w :: u32) AND 255) < 256"
  using unat_and_mask [of w 8] by (simp add: mask_numeral)

lemma c4_table_ok_swap:
  "c4_table_ok st \<Longrightarrow> i < 256 \<Longrightarrow> j < 256 \<Longrightarrow> c4_table_ok (swap_at i j st)"
  by (simp add: c4_table_ok_def swap_at_def distinct_swap)

lemma c4_table_ok_UNIV: "c4_table_ok st \<Longrightarrow> set st = UNIV"
  by (intro card_subset_eq) (simp_all add: c4_table_ok_def distinct_card card_word)

lemma c4_mix_ok:
  "c4_table_ok st \<Longrightarrow> i < 256 \<Longrightarrow> c4_table_ok (fst (c4_mix k i st b)) \<and> unat (snd (c4_mix k i st b)) < 256"
  by (simp add: c4_mix_def Let_def c4_table_ok_swap)

declare c4_write_loop.simps [simp del]

lemma c4_write_loop_ok:
  "c4_table_ok st \<Longrightarrow> unat b < 256 \<Longrightarrow>
     c4_table_ok (fst (c4_write_loop m key len ki i fin st b))
     \<and> unat (snd (c4_write_loop m key len ki i fin st b)) < 256"
proof (induction m key len ki i fin st b rule: c4_write_loop.induct)
  case (1 m key len ki i fin st b)
  let ?x = "c4_mix (m (key + of_nat ki)) (i mod 256) st b"
  show ?case
  proof (cases "i mod 256 \<noteq> 0 \<or> \<not> fin")
    case True
    have "c4_table_ok (fst ?x)" "unat (snd ?x) < 256"
      using c4_mix_ok [of st "i mod 256"] "1.prems" by simp_all
    then show ?thesis
      using "1.IH" [OF refl True prod.collapse] True
      by (subst (1 2) c4_write_loop.simps) (simp add: Let_def case_prod_beta)
  next
    case False
    then show ?thesis using "1.prems" by (subst (1 2) c4_write_loop.simps) simp
  qed
qed

lemma c4_write_ok: "c4_table_ok (c4_state c) \<Longrightarrow> unat (c4_b c) < 256 \<Longrightarrow> c4_ok (c4_write m p len c)"
  using c4_write_loop_ok [of "c4_state c" "c4_b c" m p len 0 0 False]
  by (simp add: c4_write_def c4_ok_def case_prod_beta)

lemma c4_identity_ok: "c4_table_ok (map of_nat [0..<256])"
proof -
  have "inj_on (of_nat :: nat \<Rightarrow> u8) {0..<256}"
    by (rule inj_on_inverseI [of _ unat]) (simp add: unat_of_nat take_bit_nat_eq_self)
  then show ?thesis by (simp add: c4_table_ok_def distinct_map)
qed

lemma c4_seed_ok: "c4_ok (c4_seed m p len c)"
  by (simp add: c4_seed_def c4_write_ok c4_identity_ok)

lemma c4_byte_ok: "c4_ok c \<Longrightarrow> c4_ok (snd (c4_byte c))"
  by (simp add: c4_byte_def c4_ok_def Let_def c4_table_ok_swap)

interpretation c4: stepper c4_byte c4_ok
  by unfold_locales (rule c4_byte_ok)

lemma c4_read_state: "snd (c4_read xs c) = run_steps c4_byte (length xs) c"
  by (induction xs arbitrary: c) (simp_all add: case_prod_beta)

lemma c4_read_ok: "c4_ok c \<Longrightarrow> c4_ok (snd (c4_read xs c))"
  by (simp add: c4_read_state c4.inv_run)

text \<open>
  C25. Whatever the state before, after seeding and any further entropy and reads the table of
  \<open>c4rand\<close> is a permutation of all 256 byte values and both indices address it.
\<close>

theorem c4rand_stays_permutation:
  "c4_ok (snd (c4_read xs (c4_write m q n (c4_seed m p len c))))
    \<and> set (c4_state (snd (c4_read xs (c4_write m q n (c4_seed m p len c))))) = UNIV"
proof -
  have "c4_ok (c4_write m q n (c4_seed m p len c))"
    using c4_seed_ok [of m p len c] by (intro c4_write_ok) (simp_all add: c4_ok_def)
  then have "c4_ok (snd (c4_read xs (c4_write m q n (c4_seed m p len c))))" by (rule c4_read_ok)
  then show ?thesis by (simp add: c4_ok_def c4_table_ok_UNIV)
qed

text \<open>
  \<open>c4rand::read\<close> is a stream cipher: it keeps the length, reading a buffer in two parts is
  reading it at once, two reads from the same state cancel, and the state after the read does
  not depend on the data.
\<close>

theorem c4rand_read_stream_cipher:
  "length (fst (c4_read xs c)) = length xs
    \<and> fst (c4_read (fst (c4_read xs c)) c) = xs
    \<and> snd (c4_read (fst (c4_read xs c)) c) = snd (c4_read xs c)
    \<and> c4_read (xs @ ys) c =
        (fst (c4_read xs c) @ fst (c4_read ys (snd (c4_read xs c))),
         snd (c4_read ys (snd (c4_read xs c))))"
proof -
  have len: "length (fst (c4_read xs c)) = length xs" for xs c
    by (induction xs arbitrary: c) (simp_all add: case_prod_beta)
  have "fst (c4_read (fst (c4_read xs c)) c) = xs"
    by (induction xs arbitrary: c) (simp_all add: case_prod_beta xor.assoc)
  moreover have "c4_read (xs @ ys) c =
      (fst (c4_read xs c) @ fst (c4_read ys (snd (c4_read xs c))),
       snd (c4_read ys (snd (c4_read xs c))))"
    by (induction xs arbitrary: c) (simp_all add: case_prod_beta)
  ultimately show ?thesis by (simp add: len c4_read_state)
qed

end
