(* ===== verification/Time_Of_Day.thy ===== *)
theory Time_Of_Day
  imports Dgos_Prelude
begin

text \<open>
  The time services of \<^verbatim>\<open>kernel/lib/time.cc\<close>: the conversion of a broken-down time to seconds
  since 1970, and the registration of the nanosecond clock, the sleep handler and the time of
  day handler.

  A handler is a function pointer of a device driver.  It is modelled by its identity; the
  call through it is a parameter of the definitions that call it.  A call through a null pointer
  does not return.
\<close>

section \<open>Model\<close>

subsection \<open>Calendar\<close>

record time_of_day_t =
  centisec :: u8
  second :: u8
  minute :: u8
  hour :: u8
  day :: u8
  month :: u8
  year :: u8
  century :: u8

definition fullYear :: "time_of_day_t \<Rightarrow> int" where
  "fullYear t = uint (century t) * 100 + uint (year t)"

definition month_days :: "u8 \<Rightarrow> int list" where
  "month_days y =
    [31,
     (if uint y mod 400 \<noteq> 0 then 28
      else if uint y mod 100 \<noteq> 0 then 29
      else if uint y mod 4 \<noteq> 0 then 28
      else 29),
     31, 30, 31, 30, 31, 31, 30, 31, 30, 31]"

text \<open>A month above 13 makes the loop read past the table, which is undefined: \<open>None\<close>.\<close>

definition time_day_of_year :: "time_of_day_t \<Rightarrow> u32 option" where
  "time_day_of_year t =
    (let days = month_days (year t) in
     do { assert_that (unat (month t) - 1 \<le> length days);
          let yday = foldl (\<lambda>yday m. yday + days ! (m - 1)) 0 [1..<unat (month t)];
          Some (word_of_int (yday + (uint (day t) - 1))) })"

definition time_unix :: "time_of_day_t \<Rightarrow> u64 option" where
  "time_unix t =
    (let y = word_of_int (fullYear t - 1900) :: u64 in
     do { yday \<leftarrow> time_day_of_year t;
          Some (ucast (second t) + ucast (minute t) * 60 + ucast (hour t) * 3600
            + ucast yday * 86400 + (y - 70) * 365 * 86400
            + (y - 69) div 4 * 86400 - (y - 1) div 100 * 86400
            + (y + 299) div 400 * 86400) })"

definition time_unix_ms :: "time_of_day_t \<Rightarrow> u64 option" where
  "time_unix_ms t = do { s \<leftarrow> time_unix t; Some (s * 1000 + ucast (centisec t) * 10) }"

subsection \<open>Handlers\<close>

datatype time_vec = Vec_null | Vec_dummy | Vec_fn nat

record time_handlers =
  time_ns_vec :: time_vec
  nsleep_vec :: time_vec
  time_ns_stop_vec :: "nat option"
  nsleep_stop_vec :: "nat option"
  time_gettimeofday_vec :: time_vec
  stop_calls :: "nat list"

definition time_handlers_init :: time_handlers where
  "time_handlers_init = \<lparr> time_ns_vec = Vec_dummy, nsleep_vec = Vec_dummy,
     time_ns_stop_vec = None, nsleep_stop_vec = None,
     time_gettimeofday_vec = Vec_null, stop_calls = [] \<rparr>"

definition call_stop :: "nat option \<Rightarrow> time_handlers \<Rightarrow> time_handlers" where
  "call_stop stop s = (case stop of None \<Rightarrow> s | Some f \<Rightarrow> s\<lparr> stop_calls := stop_calls s @ [f] \<rparr>)"

definition time_ns_set_handler ::
    "time_vec \<Rightarrow> nat option \<Rightarrow> bool \<Rightarrow> time_handlers \<Rightarrow> bool \<times> time_handlers" where
  "time_ns_set_handler vec stop override s =
    (if time_ns_vec s \<noteq> Vec_dummy \<and> \<not> override then (False, s)
     else (True, (call_stop (time_ns_stop_vec s) s)\<lparr> time_ns_vec := vec, time_ns_stop_vec := stop \<rparr>))"

definition nsleep_set_handler ::
    "time_vec \<Rightarrow> nat option \<Rightarrow> bool \<Rightarrow> time_handlers \<Rightarrow> bool \<times> time_handlers" where
  "nsleep_set_handler vec stop override s =
    (if nsleep_vec s \<noteq> Vec_dummy \<and> \<not> override then (False, s)
     else (True, (call_stop (nsleep_stop_vec s) s)\<lparr> nsleep_stop_vec := stop, nsleep_vec := vec \<rparr>))"

text \<open>The dummy handlers of the clock and of the sleep both return 0.\<close>

definition time_ns :: "(nat \<Rightarrow> u64) \<Rightarrow> time_handlers \<Rightarrow> u64 option" where
  "time_ns call s =
    (case time_ns_vec s of Vec_null \<Rightarrow> None | Vec_dummy \<Rightarrow> Some 0 | Vec_fn f \<Rightarrow> Some (call f))"

definition nsleep :: "(nat \<Rightarrow> u64 \<Rightarrow> u64) \<Rightarrow> u64 \<Rightarrow> time_handlers \<Rightarrow> u64 option" where
  "nsleep call ns s =
    do { assert_that (nsleep_vec s \<noteq> Vec_null);
         case nsleep_vec s of Vec_null \<Rightarrow> None | Vec_dummy \<Rightarrow> Some 0 | Vec_fn f \<Rightarrow> Some (call f ns) }"

definition time_ofday_set_handler :: "time_vec \<Rightarrow> time_handlers \<Rightarrow> time_handlers" where
  "time_ofday_set_handler handler s = s\<lparr> time_gettimeofday_vec := handler \<rparr>"

definition time_ofday :: "(nat \<Rightarrow> time_of_day_t) \<Rightarrow> time_handlers \<Rightarrow> time_of_day_t option" where
  "time_ofday call s =
    (case time_gettimeofday_vec s of Vec_fn f \<Rightarrow> Some (call f) | _ \<Rightarrow> None)"

section \<open>The calendar\<close>

subsection \<open>The Gregorian calendar as reference\<close>

definition leap_year :: "nat \<Rightarrow> bool" where
  "leap_year y \<longleftrightarrow> 4 dvd y \<and> (\<not> 100 dvd y \<or> 400 dvd y)"

definition days_in_month :: "nat \<Rightarrow> nat \<Rightarrow> nat" where
  "days_in_month y m = (if m = 2 then if leap_year y then 29 else 28
     else if m \<in> {4, 6, 9, 11} then 30 else 31)"

fun days_of_years :: "nat \<Rightarrow> nat" where
  "days_of_years 0 = 0"
| "days_of_years (Suc k) = days_of_years k + (if leap_year (1970 + k) then 366 else 365)"

definition days_of_months :: "nat \<Rightarrow> nat \<Rightarrow> nat" where
  "days_of_months y m = (\<Sum>k\<in>{1..<m}. days_in_month y k)"

definition civil_year :: "time_of_day_t \<Rightarrow> nat" where
  "civil_year t = unat (century t) * 100 + unat (year t)"

definition civil_seconds :: "time_of_day_t \<Rightarrow> nat" where
  "civil_seconds t =
    (days_of_years (civil_year t - 1970) + days_of_months (civil_year t) (unat (month t))
       + (unat (day t) - 1)) * 86400
     + unat (hour t) * 3600 + unat (minute t) * 60 + unat (second t)"

definition civil_valid :: "time_of_day_t \<Rightarrow> bool" where
  "civil_valid t \<longleftrightarrow> 1970 \<le> civil_year t \<and> 1 \<le> unat (month t) \<and> unat (month t) \<le> 12 \<and> 1 \<le> unat (day t)"

text \<open>The days by which \<open>time_day_of_year\<close> miscounts February, felt from March on.\<close>

definition february_error :: "time_of_day_t \<Rightarrow> int" where
  "february_error t = (if unat (month t) \<le> 2 then 0
     else (if year t = 0 then 29 else 28) - int (days_in_month (civil_year t) 2))"

subsection \<open>Leap days before a year\<close>

lemma div_Suc_dvd:
  assumes "y = Suc a + n * c"
  shows "Suc a div n = a div n + (if n dvd y then 1 else 0)"
proof -
  have "n dvd y \<longleftrightarrow> n dvd Suc a" unfolding assms by (rule dvd_add_left_iff) simp
  then show ?thesis by (simp add: div_Suc dvd_eq_mod_eq_0)
qed

lemma leap_days_formula:
  "days_of_years k + (k + 69) div 100 = 365 * k + (k + 1) div 4 + (k + 369) div 400"
proof (induction k)
  case 0
  then show ?case by simp
next
  case (Suc k)
  have "400 dvd 1970 + k \<Longrightarrow> 100 dvd 1970 + k"
    by (rule dvd_trans [of 100 400]) simp_all
  moreover have "100 dvd 1970 + k \<Longrightarrow> 4 dvd 1970 + k"
    by (rule dvd_trans [of 4 100]) simp_all
  ultimately show ?case
    using Suc.IH div_Suc_dvd [of "1970 + k" "k + 1" 4 492]
      div_Suc_dvd [of "1970 + k" "k + 69" 100 19] div_Suc_dvd [of "1970 + k" "k + 369" 400 4]
    by (auto simp: leap_year_def)
qed

subsection \<open>The day of the year\<close>

lemma month_days_february: "month_days y ! 1 = (if y = 0 then 29 else 28)"
proof -
  have "int (unat y) < 400" using unat_lt_8 [of y] by linarith
  then have "uint y mod 400 = uint y" by simp
  then show ?thesis by (simp add: month_days_def unsigned_eq_0_iff)
qed

lemma day_of_year_sum:
  assumes "1 \<le> m" "m \<le> 12"
  shows "foldl (\<lambda>yday k. yday + month_days y ! (k - 1)) 0 [1..<m]
    = int (days_of_months fy m) + (if m \<le> 2 then 0 else (if y = 0 then 29 else 28) - int (days_in_month fy 2))"
  using assms
proof (induction m rule: nat_induct_at_least)
  case base
  then show ?case by (simp add: days_of_months_def)
next
  case (Suc m)
  have "m \<in> set [1..<12]" using Suc by auto
  then have "m \<noteq> 2 \<longrightarrow> month_days y ! (m - 1) = int (days_in_month fy m)"
    by (auto simp: month_days_def days_in_month_def upt_rec)
  moreover have "days_of_months fy (Suc m) = days_of_months fy m + days_in_month fy m"
    using Suc by (simp add: days_of_months_def)
  moreover have "m = 2 \<Longrightarrow> month_days y ! (m - 1) = (if y = 0 then 29 else 28)"
    using month_days_february [of y] by simp
  moreover have "foldl (\<lambda>yday k. yday + month_days y ! (k - 1)) 0 [1..<Suc m]
      = foldl (\<lambda>yday k. yday + month_days y ! (k - 1)) 0 [1..<m] + month_days y ! (m - 1)"
    using Suc.hyps by simp
  ultimately show ?case using Suc.IH Suc.hyps Suc.prems by (cases "m = 2") auto
qed

definition civil_yday :: "time_of_day_t \<Rightarrow> nat" where
  "civil_yday t = days_of_months (civil_year t) (unat (month t)) + (unat (day t) - 1)"

lemma days_of_months_bounds:
  assumes "m \<le> 12"
  shows "days_of_months y m \<le> 372" and "3 \<le> m \<Longrightarrow> 59 \<le> days_of_months y m"
proof -
  have "days_of_months y m \<le> (\<Sum>k\<in>{1..<m}. 31)"
    unfolding days_of_months_def by (rule sum_mono) (simp add: days_in_month_def)
  then show "days_of_months y m \<le> 372" using assms by simp
  assume "3 \<le> m"
  then have "(\<Sum>k\<in>{1..<3}. days_in_month y k) \<le> days_of_months y m"
    unfolding days_of_months_def by (intro sum_mono2) auto
  moreover have "{1..<3} = {1, 2 :: nat}" by auto
  ultimately show "59 \<le> days_of_months y m" by (simp add: days_in_month_def split: if_splits)
qed

lemma february_error_range: "- 1 \<le> february_error t" "february_error t \<le> 1"
  by (simp_all add: february_error_def days_in_month_def)

lemma civil_yday_error:
  assumes "civil_valid t"
  shows "0 \<le> int (civil_yday t) + february_error t" "int (civil_yday t) + february_error t < 1000"
proof -
  have m: "unat (month t) \<le> 12" using assms by (simp add: civil_valid_def)
  have "unat (month t) \<le> 2 \<Longrightarrow> february_error t = 0" by (simp add: february_error_def)
  then show "0 \<le> int (civil_yday t) + february_error t"
    using days_of_months_bounds(2) [OF m, of "civil_year t"] february_error_range [of t]
    by (cases "unat (month t) \<le> 2") (auto simp: civil_yday_def)
  show "int (civil_yday t) + february_error t < 1000"
    using days_of_months_bounds(1) [OF m, of "civil_year t"] february_error_range [of t]
      unat_lt_8 [of "day t"] by (simp only: civil_yday_def)
qed

lemma time_day_of_year_valid:
  assumes "civil_valid t"
  shows "time_day_of_year t = Some (word_of_int (int (civil_yday t) + february_error t))"
proof -
  have m: "1 \<le> unat (month t)" "unat (month t) \<le> 12" and d: "1 \<le> unat (day t)"
    using assms by (simp_all add: civil_valid_def)
  have "uint (day t) - 1 = int (unat (day t) - 1)" using d by (simp add: of_nat_diff)
  moreover have "length (month_days (year t)) = 12" by (simp add: month_days_def)
  ultimately show ?thesis
    using m day_of_year_sum [OF m, of "year t" "civil_year t"]
    by (simp add: time_day_of_year_def Let_def civil_yday_def february_error_def algebra_simps)
qed

subsection \<open>Seconds since the epoch\<close>

lemma time_unix_years:
  assumes "civil_valid t"
  defines "k \<equiv> civil_year t - 1970"
  shows "(word_of_int (fullYear t - 1900) :: u64) = of_nat (k + 70)" and "k < 30000"
proof -
  have y: "civil_year t = k + 1970" using assms by (simp add: civil_valid_def)
  have "fullYear t = int (civil_year t)" by (simp add: fullYear_def civil_year_def)
  then have "fullYear t - 1900 = int (k + 70)" using y by simp
  then show "(word_of_int (fullYear t - 1900) :: u64) = of_nat (k + 70)"
    by (simp only: of_int_of_nat_eq)
  show "k < 30000"
    using y unat_lt_8 [of "century t"] unat_lt_8 [of "year t"] by (simp only: civil_year_def)
qed

lemma of_nat_div_64:
  assumes "a < 18446744073709551616" "b < 18446744073709551616"
  shows "(of_nat a :: u64) div of_nat b = of_nat (a div b)"
  using assms by (subst word_arith_nat_div) (simp add: unat_of_nat_64)

lemma ucast_of_nat_u8: "(ucast (b :: u8) :: u64) = of_nat (unat b)"
  by simp

lemma time_unix_year_seconds:
  assumes "k < 30000"
  defines "y \<equiv> of_nat (k + 70) :: u64"
  shows "(y - 70) * 365 * 86400 + (y - 69) div 4 * 86400 - (y - 1) div 100 * 86400
      + (y + 299) div 400 * 86400 = of_nat (days_of_years k * 86400)"
proof -
  have y: "y - 70 = of_nat k" "y - 69 = of_nat (k + 1)" "y - 1 = of_nat (k + 69)"
    "y + 299 = of_nat (k + 369)"
    by (simp_all add: y_def)
  have d: "(of_nat (k + 1) :: u64) div 4 = of_nat ((k + 1) div 4)"
    "(of_nat (k + 69) :: u64) div 100 = of_nat ((k + 69) div 100)"
    "(of_nat (k + 369) :: u64) div 400 = of_nat ((k + 369) div 400)"
    using assms of_nat_div_64 [of "k + 1" 4] of_nat_div_64 [of "k + 69" 100]
      of_nat_div_64 [of "k + 369" 400] by simp_all
  have "of_nat (days_of_years k + (k + 69) div 100) =
      (of_nat (365 * k + (k + 1) div 4 + (k + 369) div 400) :: u64)"
    by (simp only: leap_days_formula)
  then have "of_nat (days_of_years k) = 365 * of_nat k + of_nat ((k + 1) div 4)
      + of_nat ((k + 369) div 400) - (of_nat ((k + 69) div 100) :: u64)"
    by (simp only: of_nat_add of_nat_mult of_nat_numeral eq_diff_eq)
  then show ?thesis
    by (simp only: y d of_nat_mult of_nat_numeral) (simp only: algebra_simps)
qed

lemma add_diff_chain: "a + x + y - z + w = a + (x + y - z + w)" for a :: u64
  by (simp add: algebra_simps)

lemma ucast_of_nat_u32: "d < 4294967296 \<Longrightarrow> (ucast (of_nat d :: u32) :: u64) = of_nat d"
  by (simp add: word_unat_eq_iff unat_ucast_32_64 unat_of_nat_32 unat_of_nat_64)

lemma days_of_years_bound: "days_of_years k \<le> 366 * k"
  by (induction k) simp_all

lemma time_unix_valid:
  assumes "civil_valid t"
  shows "\<exists>v. time_unix t = Some (of_nat v) \<and> v < 2000000000000
    \<and> int v = int (civil_seconds t) + 86400 * february_error t"
proof -
  define k where "k = civil_year t - 1970"
  define d where "d = nat (int (civil_yday t) + february_error t)"
  define s where "s = unat (second t) + unat (minute t) * 60 + unat (hour t) * 3600"
  define v where "v = s + d * 86400 + days_of_years k * 86400"
  have k: "(word_of_int (fullYear t - 1900) :: u64) = of_nat (k + 70)" "k < 30000"
    using time_unix_years [OF assms] by (simp_all add: k_def)
  have d: "int d = int (civil_yday t) + february_error t" "d < 1000"
    using civil_yday_error [OF assms] by (simp_all add: d_def)
  have yday: "time_day_of_year t = Some (of_nat d)"
    using time_day_of_year_valid [OF assms] by (simp only: d(1) [symmetric] of_int_of_nat_eq)
  have "ucast (second t) + ucast (minute t) * 60 + ucast (hour t) * 3600 = (of_nat s :: u64)"
    by (simp add: s_def)
  then have "time_unix t = Some (of_nat s + of_nat d * 86400 + of_nat (days_of_years k * 86400))"
    using ucast_of_nat_u32 [of d] d(2) time_unix_year_seconds [OF k(2)]
    by (simp only: time_unix_def Let_def k(1) yday bind.bind_lunit add_diff_chain)
  then have "time_unix t = Some (of_nat v)" by (simp add: v_def)
  moreover have "v < 2000000000000"
    using days_of_years_bound [of k] k(2) d(2) unat_lt_8 [of "second t"] unat_lt_8 [of "minute t"]
      unat_lt_8 [of "hour t"] by (simp only: v_def s_def)
  moreover have "int v = int (civil_seconds t) + 86400 * february_error t"
    using d by (simp add: v_def s_def civil_seconds_def civil_yday_def k_def algebra_simps)
  ultimately show ?thesis by blast
qed

text \<open>
  For every valid date from 1970 on, \<open>time_unix\<close> returns the number of seconds since the
  epoch in the Gregorian calendar, except that from March on it is off by the days by which the
  day-of-year table misjudges February: the leap test is applied to the two-digit year, so the
  table has 29 days exactly in years divisible by 100.  In January and February, in common years
  and in 2000 the result is exact; in every other leap year of this century it is one day short.
\<close>

theorem time_unix_exact_up_to_february:
  assumes "civil_valid t"
  shows "\<exists>w. time_unix t = Some w \<and> int (unat w) = int (civil_seconds t) + 86400 * february_error t"
proof -
  obtain v where v: "time_unix t = Some (of_nat v)" "v < 2000000000000"
      "int v = int (civil_seconds t) + 86400 * february_error t"
    using time_unix_valid [OF assms] by blast
  have "unat (of_nat v :: u64) = v" using v(2) by (intro unat_of_nat_64) simp
  with v show ?thesis by (intro exI [of _ "of_nat v"]) (simp only:)
qed

theorem time_unix_exact_up_to_february_witness:
  "civil_valid \<lparr> centisec = 0, second = 0, minute = 0, hour = 0, day = 1, month = 3, year = 24, century = 20 \<rparr>
    \<and> (\<exists>w. time_unix \<lparr> centisec = 0, second = 0, minute = 0, hour = 0, day = 1, month = 3, year = 24, century = 20 \<rparr>
         = Some w \<and> int (unat w) = 1709164800)"
proof -
  let ?t = "\<lparr> centisec = 0, second = 0, minute = 0, hour = 0, day = 1, month = 3, year = 24, century = 20 \<rparr>"
  have v: "civil_valid ?t" by (simp add: civil_valid_def civil_year_def)
  have "february_error ?t = - 1"
    by (simp add: february_error_def days_in_month_def leap_year_def civil_year_def)
  moreover have "{Suc 0..<3} = {1, 2}" by auto
  then have "days_of_months 2024 3 = 60"
    by (simp add: days_of_months_def days_in_month_def leap_year_def)
  then have "civil_seconds ?t = 1709251200"
    using leap_days_formula [of 54] by (simp add: civil_seconds_def civil_year_def)
  ultimately show ?thesis using v time_unix_exact_up_to_february [OF v] by auto
qed

text \<open>
  \<open>time_unix_ms\<close> is \<open>time_unix\<close> in milliseconds plus ten times the hundredths, with no wrap
  around for any valid date.
\<close>

theorem time_unix_ms_scales:
  assumes "civil_valid t"
  shows "\<exists>w ms. time_unix t = Some w \<and> time_unix_ms t = Some ms
    \<and> unat ms = unat w * 1000 + unat (centisec t) * 10"
proof -
  obtain v where v: "time_unix t = Some (of_nat v)" "v < 2000000000000"
    using time_unix_valid [OF assms] by blast
  have c: "unat (centisec t) < 256" by simp
  have "time_unix_ms t = Some (of_nat (v * 1000 + unat (centisec t) * 10))"
    by (simp add: time_unix_ms_def v(1))
  moreover have "unat (of_nat v :: u64) = v" using v(2) by (intro unat_of_nat_64) simp
  moreover have "unat (of_nat (v * 1000 + unat (centisec t) * 10) :: u64)
      = v * 1000 + unat (centisec t) * 10"
    using v(2) c by (intro unat_of_nat_64) linarith
  ultimately show ?thesis using v(1) by (intro exI conjI) (assumption, assumption, simp only:)
qed

theorem time_unix_ms_scales_witness:
  "\<exists>w ms. time_unix \<lparr> centisec = 7, second = 0, minute = 0, hour = 0, day = 1, month = 3, year = 24, century = 20 \<rparr> = Some w
    \<and> time_unix_ms \<lparr> centisec = 7, second = 0, minute = 0, hour = 0, day = 1, month = 3, year = 24, century = 20 \<rparr> = Some ms
    \<and> unat ms = unat w * 1000 + 70"
  using time_unix_ms_scales [of "\<lparr> centisec = 7, second = 0, minute = 0, hour = 0, day = 1, month = 3, year = 24, century = 20 \<rparr>"]
  by (simp add: civil_valid_def civil_year_def)

section \<open>Handlers\<close>

text \<open>
  A request to install a clock: the handler, its stop routine and whether it may replace another
  driver's.  \<open>accepted_stops\<close> lists the stop routines of the accepted requests in order.
\<close>

type_synonym handler_request = "time_vec \<times> nat option \<times> bool"

fun install_all :: "handler_request list \<Rightarrow> time_handlers \<Rightarrow> nat option list \<times> time_handlers" where
  "install_all [] s = ([], s)"
| "install_all ((vec, stop, override) # rs) s =
    (let (ok, s') = time_ns_set_handler vec stop override s;
         (stops, s'') = install_all rs s'
     in (if ok then stop # stops else stops, s''))"

definition stops_of :: "nat option list \<Rightarrow> nat list" where
  "stops_of xs = List.map_filter id xs"

lemma stops_of_simps [simp]:
  "stops_of [] = []" "stops_of (None # xs) = stops_of xs" "stops_of (Some f # xs) = f # stops_of xs"
  "stops_of (xs @ ys) = stops_of xs @ stops_of ys"
  by (simp_all add: stops_of_def map_filter_def)

lemma call_stop_calls: "stop_calls (call_stop stop s) = stop_calls s @ stops_of [stop]"
  by (simp add: call_stop_def split: option.split)

lemma install_all_stops:
  "stop_calls (snd (install_all rs s)) @ stops_of [time_ns_stop_vec (snd (install_all rs s))]
     = stop_calls s @ stops_of [time_ns_stop_vec s] @ stops_of (fst (install_all rs s))"
proof (induction rs s rule: install_all.induct)
  case (2 vec stop override rs s)
  show ?case
  proof (cases "fst (time_ns_set_handler vec stop override s)")
    case True
    then show ?thesis using "2.IH" [OF refl prod.collapse]
      by (cases stop) (auto simp: time_ns_set_handler_def call_stop_calls case_prod_beta split: if_splits)
  next
    case False
    then show ?thesis using "2.IH" [OF refl prod.collapse]
      by (auto simp: time_ns_set_handler_def case_prod_beta split: if_splits)
  qed
qed simp

text \<open>
  However the clock drivers compete from boot on, the stop routines run so far followed by
  that of the current driver are exactly those of the accepted drivers, in order: a displaced
  driver is stopped once and the current one is not.  Once a driver is installed, requests
  without override are refused and change nothing.
\<close>

theorem time_ns_handlers_stopped_once:
  assumes "install_all rs time_handlers_init = (accepted, s)"
  shows "stop_calls s @ stops_of [time_ns_stop_vec s] = stops_of accepted
    \<and> (time_ns_vec s \<noteq> Vec_dummy \<longrightarrow> time_ns_set_handler vec stop False s = (False, s))"
  using install_all_stops [of rs time_handlers_init] assms
  by (simp add: time_handlers_init_def time_ns_set_handler_def)

theorem time_ns_handlers_stopped_once_witness:
  "stop_calls (snd (install_all [(Vec_fn 1, Some 10, False), (Vec_fn 2, Some 20, False),
       (Vec_fn 3, Some 30, True)] time_handlers_init)) @ [30] = [10, 30]"
  using time_ns_handlers_stopped_once [of "[(Vec_fn 1, Some 10, False), (Vec_fn 2, Some 20, False),
       (Vec_fn 3, Some 30, True)]", OF prod.collapse [symmetric]]
  by (simp add: time_handlers_init_def time_ns_set_handler_def call_stop_def)

end
