(* ===== verification/Bitsearch.thy ===== *)
theory Bitsearch
  imports Dgos_Prelude
begin

text \<open>
  The bit searches of \<^verbatim>\<open>kernel/lib/bitsearch.h\<close>.  The compiler builtins count trailing and
  leading zeros and set bits; the first two are undefined for zero, which is \<open>None\<close> here.  The
  overloads select the 64- or the 32-bit routine by operand size, widening 16- and 8-bit
  operands without sign.
\<close>

section \<open>Model\<close>

definition builtin_ctz :: "'a :: len word \<Rightarrow> nat option" where
  "builtin_ctz n = List.find (bit n) [0..<LENGTH('a)]"

definition builtin_clz :: "'a :: len word \<Rightarrow> nat option" where
  "builtin_clz n = List.find (\<lambda>i. bit n (LENGTH('a) - 1 - i)) [0..<LENGTH('a)]"

definition builtin_popcount :: "'a :: len word \<Rightarrow> nat" where
  "builtin_popcount n = length (filter (bit n) [0..<LENGTH('a)])"

definition bit_lsb_set_64 :: "u64 \<Rightarrow> nat option" where
  "bit_lsb_set_64 n = builtin_ctz n"

definition bit_lsb_set_32 :: "u32 \<Rightarrow> nat option" where
  "bit_lsb_set_32 n = builtin_ctz n"

definition bit_msb_set_64 :: "u64 \<Rightarrow> nat option" where
  "bit_msb_set_64 n = map_option (\<lambda>c. 63 - c) (builtin_clz n)"

definition bit_msb_set_32 :: "u32 \<Rightarrow> nat option" where
  "bit_msb_set_32 n = map_option (\<lambda>c. 31 - c) (builtin_clz n)"

definition bit_popcnt_64 :: "u64 \<Rightarrow> nat" where
  "bit_popcnt_64 n = builtin_popcount n"

definition bit_popcnt_32 :: "u32 \<Rightarrow> nat" where
  "bit_popcnt_32 n = builtin_popcount n"

definition bit_lsb_set_16 :: "u16 \<Rightarrow> nat option" where
  "bit_lsb_set_16 n = bit_lsb_set_32 (ucast n)"

definition bit_lsb_set_8 :: "u8 \<Rightarrow> nat option" where
  "bit_lsb_set_8 n = bit_lsb_set_32 (ucast n)"

definition bit_msb_set_16 :: "u16 \<Rightarrow> nat option" where
  "bit_msb_set_16 n = bit_msb_set_32 (ucast n)"

definition bit_msb_set_8 :: "u8 \<Rightarrow> nat option" where
  "bit_msb_set_8 n = bit_msb_set_32 (ucast n)"

definition bit_log2_n_64 :: "u64 \<Rightarrow> nat option" where
  "bit_log2_n_64 n = do {
     top \<leftarrow> bit_msb_set_64 n;
     Some (top + (if NOT (push_bit top (NOT 0)) AND n \<noteq> 0 then 1 else 0)) }"

definition bit_log2_n_32 :: "u32 \<Rightarrow> nat option" where
  "bit_log2_n_32 n = do {
     top \<leftarrow> bit_msb_set_32 n;
     Some (top + (if NOT (push_bit top (NOT 0)) AND n \<noteq> 0 then 1 else 0)) }"

definition bit_log2_64 :: "u64 \<Rightarrow> nat option" where
  "bit_log2_64 n = do { assert_that (n \<noteq> 0); bit_log2_n_64 n }"

definition bit_log2_32 :: "u32 \<Rightarrow> nat option" where
  "bit_log2_32 n = do { assert_that (n \<noteq> 0); bit_log2_n_32 n }"

definition bit_popcnt_16 :: "u16 \<Rightarrow> nat" where
  "bit_popcnt_16 n = bit_popcnt_32 (ucast n)"

definition bit_popcnt_8 :: "u8 \<Rightarrow> nat" where
  "bit_popcnt_8 n = bit_popcnt_32 (ucast n)"

fun bitmap_tree_depth_loop :: "nat \<Rightarrow> nat \<Rightarrow> nat \<Rightarrow> nat \<Rightarrow> nat" where
  "bitmap_tree_depth_loop 0 d c n = 0"
| "bitmap_tree_depth_loop (Suc k) d c n =
    (if c \<ge> n then d else bitmap_tree_depth_loop k (d + 1) (c * 64) n)"

definition bitmap_tree_depth :: "nat \<Rightarrow> nat" where
  "bitmap_tree_depth n = bitmap_tree_depth_loop 5 1 64 n"

section \<open>Lemmas\<close>

lemma word_nonzero_bit: "(n :: 'a :: len word) \<noteq> 0 \<longleftrightarrow> (\<exists>i<LENGTH('a). bit n i)"
  by (metis bit_0_eq bit_imp_le_length bit_eq_iff bot_apply bot_bool_def)

lemma builtin_ctz_Some:
  "builtin_ctz n = Some i \<longleftrightarrow> bit n i \<and> (\<forall>j<i. \<not> bit n j)"
  using bit_imp_le_length [of n i] by (auto simp: builtin_ctz_def find_upt_Some)

lemma builtin_ctz_None: "builtin_ctz n = None \<longleftrightarrow> n = 0"
  using word_nonzero_bit [of n] by (auto simp: builtin_ctz_def find_upt_None)

lemma builtin_clz_Some:
  fixes n :: "'a :: len word"
  assumes "builtin_clz n = Some c"
  shows "c < LENGTH('a)" "bit n (LENGTH('a) - 1 - c)" "\<forall>j>LENGTH('a) - 1 - c. \<not> bit n j"
proof -
  have c: "c < LENGTH('a)" "bit n (LENGTH('a) - 1 - c)" and
    h: "\<forall>j<c. \<not> bit n (LENGTH('a) - 1 - j)"
    using assms by (auto simp: builtin_clz_def find_upt_Some)
  show "c < LENGTH('a)" "bit n (LENGTH('a) - 1 - c)" by (fact c)+
  show "\<forall>j>LENGTH('a) - 1 - c. \<not> bit n j"
  proof (intro allI impI notI)
    fix j assume "LENGTH('a) - 1 - c < j" and b: "bit n j"
    moreover have "j < LENGTH('a)" using b by (rule bit_imp_le_length)
    ultimately have "LENGTH('a) - 1 - j < c" "LENGTH('a) - 1 - (LENGTH('a) - 1 - j) = j" by auto
    then show False using h [rule_format, of "LENGTH('a) - 1 - j"] b by simp
  qed
qed

lemma builtin_clz_None: "builtin_clz n = None \<longleftrightarrow> n = 0"
proof -
  have "(\<forall>i<LENGTH('a). \<not> bit n (LENGTH('a) - 1 - i)) \<longleftrightarrow> (\<forall>i<LENGTH('a). \<not> bit n i)"
    for n :: "'a word"
  proof
    assume *: "\<forall>i<LENGTH('a). \<not> bit n (LENGTH('a) - 1 - i)"
    show "\<forall>i<LENGTH('a). \<not> bit n i"
    proof (intro allI impI)
      fix i assume "i < LENGTH('a)"
      then show "\<not> bit n i" using * [rule_format, of "LENGTH('a) - 1 - i"] by simp
    qed
  qed simp
  then show ?thesis
    using word_nonzero_bit [of n] by (auto simp: builtin_clz_def find_upt_None)
qed

lemma top_bit_bounds:
  fixes n :: "'a :: len word"
  assumes "bit n t" and "\<forall>j>t. \<not> bit n j"
  shows "2 ^ t \<le> unat n" "unat n < 2 ^ Suc t"
proof -
  show "2 ^ t \<le> unat n" using assms(1) by (auto simp: ge_power_iff_bit)
  have "\<not> 2 ^ Suc t \<le> unat n" using assms(2) by (simp only: ge_power_iff_bit) auto
  then show "unat n < 2 ^ Suc t" by simp
qed

lemma low_mask: "NOT (push_bit t (NOT 0)) = (mask t :: 'a :: len word)"
  by (rule bit_eqI) (auto simp: bit_simps)

lemma ceil_log2:
  fixes n :: "'a :: len word"
  assumes "bit n t" and "\<forall>j>t. \<not> bit n j"
    and k: "k = t + (if NOT (push_bit t (NOT 0)) AND n \<noteq> 0 then 1 else 0)"
  shows "unat n \<le> 2 ^ k \<and> (k = 0 \<or> 2 ^ (k - 1) < unat n)"
proof -
  have b: "2 ^ t \<le> unat n" "unat n < 2 ^ Suc t" using top_bit_bounds [OF assms(1,2)] by auto
  have "unat (n AND mask t) = unat n mod 2 ^ t" by (rule unat_and_mask)
  also have "\<dots> = unat n - 2 ^ t"
    using b mod_less [of "unat n - 2 ^ t" "2 ^ t"] by (simp add: le_mod_geq)
  finally have "mask t AND n = 0 \<longleftrightarrow> unat n = 2 ^ t"
    using b by (auto simp: unat_eq_0 [symmetric] and.commute)
  then show ?thesis using b k by (cases t) (auto simp: low_mask less_imp_le)
qed

text \<open>
  C34. On every non-zero 64-bit operand the searches are total and exact: \<open>bit_lsb_set\<close> is the
  lowest set bit, \<open>bit_msb_set\<close> the highest, and \<open>bit_log2\<close> the least \<open>k\<close> with \<open>n \<le> 2 ^ k\<close>;
  on zero the logarithm fails its assertion.
\<close>

theorem bitsearch_64_exact:
  assumes "n \<noteq> 0"
  shows "(\<exists>i. bit_lsb_set_64 n = Some i \<and> bit n i \<and> (\<forall>j<i. \<not> bit n j))
    \<and> (\<exists>i. bit_msb_set_64 n = Some i \<and> 2 ^ i \<le> unat n \<and> unat n < 2 ^ Suc i)
    \<and> (\<exists>k. bit_log2_64 n = Some k \<and> unat n \<le> 2 ^ k \<and> (k = 0 \<or> 2 ^ (k - 1) < unat n))
    \<and> bit_log2_64 0 = None"
proof -
  obtain i where i: "builtin_ctz n = Some i" using assms builtin_ctz_None [of n] by auto
  obtain c where c: "builtin_clz n = Some c" using assms builtin_clz_None [of n] by auto
  have t: "bit n (63 - c)" "\<forall>j>63 - c. \<not> bit n j" using builtin_clz_Some [OF c] by auto
  have "bit_msb_set_64 n = Some (63 - c)" by (simp add: bit_msb_set_64_def c)
  then show ?thesis
    using i builtin_ctz_Some [of n i] top_bit_bounds [OF t] ceil_log2 [OF t refl] assms
    by (simp add: bit_lsb_set_64_def bit_log2_64_def bit_log2_n_64_def)
qed

theorem bitsearch_64_exact_witness:
  "(\<exists>i. bit_lsb_set_64 40 = Some i \<and> bit (40 :: u64) i \<and> (\<forall>j<i. \<not> bit (40 :: u64) j))
    \<and> (\<exists>k. bit_log2_64 40 = Some k \<and> 40 \<le> (2 :: nat) ^ k \<and> (k = 0 \<or> 2 ^ (k - 1) < (40 :: nat)))"
  using bitsearch_64_exact [of 40] by simp

lemmas bitmap_tree_depth_loop_numeral [simp] =
  bitmap_tree_depth_loop.simps(2) [of "pred_numeral k" for k, folded numeral_eq_Suc]

text \<open>The depth of a bitmap tree is the least one below 6 whose \<open>64 ^ depth\<close> bits hold \<open>n\<close>.\<close>

lemma bitmap_tree_depth_least:
  assumes "n \<le> 1073741824"
  shows "n \<le> 64 ^ bitmap_tree_depth n
    \<and> (bitmap_tree_depth n = 1 \<or> 64 ^ (bitmap_tree_depth n - 1) < n)"
  using assms by (simp add: bitmap_tree_depth_def)

end
