(* ===== verification/Desc_Alloc.thy ===== *)
theory Desc_Alloc
  imports Bitsearch
begin

text \<open>
  The file descriptor allocator of \<^verbatim>\<open>kernel/lib/desc_alloc.cc\<close>: a two-level bitmap of 4096
  descriptors, with the two words per level of \<^verbatim>\<open>desc_alloc.h\<close>.  The operations run under the
  allocator's spinlock, so each is one atomic step here.  The theory relates the bitmap to the
  set of descriptors in use and follows the summary word \<open>level0\<close> through every run.
\<close>

section \<open>Model\<close>

record desc_alloc_t =
  level0 :: u64
  level1 :: "u64 list"

definition desc_alloc :: "desc_alloc_t \<Rightarrow> (int \<times> desc_alloc_t) option" where
  "desc_alloc s =
    (if level0 s = NOT 0 then Some (- 1, s)
     else do {
       bitlvl0 \<leftarrow> bit_lsb_set_64 (NOT (level0 s));
       let mask = level1 s ! bitlvl0;
       assert_that (mask \<noteq> NOT 0);
       bitlvl1 \<leftarrow> bit_lsb_set_64 (NOT mask);
       let mask = mask OR push_bit bitlvl1 1;
       let l0 = (if mask = NOT 0 then level0 s AND NOT (push_bit bitlvl0 1) else level0 s);
       Some (int (bitlvl0 * 64 + bitlvl1),
             s\<lparr> level0 := l0, level1 := (level1 s)[bitlvl0 := mask] \<rparr>) })"

definition desc_free :: "int \<Rightarrow> desc_alloc_t \<Rightarrow> desc_alloc_t option" where
  "desc_free fd s = do {
     assert_that (0 \<le> fd \<and> fd < 4096);
     let bitlvl0 = nat fd div 64;
     let bitlvl1 = nat fd mod 64;
     let mask = level1 s ! bitlvl0;
     let clr = push_bit bitlvl1 1;
     assert_that (mask AND clr \<noteq> 0);
     Some (s\<lparr> level1 := (level1 s)[bitlvl0 := mask AND NOT clr],
              level0 := level0 s AND NOT (push_bit bitlvl0 1) \<rparr>) }"

definition desc_take_locked :: "int \<Rightarrow> desc_alloc_t \<Rightarrow> (bool \<times> desc_alloc_t) option" where
  "desc_take_locked fd s = do {
     assert_that (0 \<le> fd \<and> fd < 4096);
     let bitlvl0 = nat fd div 64;
     let bitlvl1 = nat fd mod 64;
     let mask = level1 s ! bitlvl0;
     let bset = push_bit bitlvl1 1;
     if mask AND bset \<noteq> 0 then Some (False, s)
     else do {
       let mask = mask OR bset;
       let l0 = (if mask = NOT 0 then level0 s AND NOT (push_bit bitlvl0 1) else level0 s);
       Some (True, s\<lparr> level0 := l0, level1 := (level1 s)[bitlvl0 := mask] \<rparr>) } }"

definition desc_take :: "int \<Rightarrow> desc_alloc_t \<Rightarrow> (bool \<times> desc_alloc_t) option" where
  "desc_take fd s = desc_take_locked fd s"

fun desc_take_list_loop :: "int list \<Rightarrow> bool \<Rightarrow> desc_alloc_t \<Rightarrow> (bool \<times> desc_alloc_t) option" where
  "desc_take_list_loop [] result s = Some (result, s)"
| "desc_take_list_loop (fd # fds) result s = do {
     (ok, s) \<leftarrow> desc_take_locked fd s;
     desc_take_list_loop fds (result \<and> ok) s }"

definition desc_take_list :: "int list \<Rightarrow> desc_alloc_t \<Rightarrow> (bool \<times> desc_alloc_t) option" where
  "desc_take_list fds s = desc_take_list_loop fds True s"

text \<open>A process starts with a zeroed allocator.\<close>

definition desc_init :: desc_alloc_t where
  "desc_init = \<lparr> level0 = 0, level1 = replicate 64 0 \<rparr>"

section \<open>The interface: a set of descriptors\<close>

locale desc_pool =
  fixes alloc :: "'s \<Rightarrow> (int \<times> 's) option"
    and free :: "int \<Rightarrow> 's \<Rightarrow> 's option"
    and take :: "int \<Rightarrow> 's \<Rightarrow> (bool \<times> 's) option"
    and used :: "'s \<Rightarrow> nat set"
    and inv :: "'s \<Rightarrow> bool"
  assumes alloc_fresh: "inv s \<Longrightarrow> alloc s = Some (fd, s') \<Longrightarrow> fd \<noteq> - 1 \<Longrightarrow>
      \<exists>n. fd = int n \<and> n < 4096 \<and> n \<notin> used s \<and> used s' = insert n (used s) \<and> inv s'"
    and free_used: "inv s \<Longrightarrow> n < 4096 \<Longrightarrow> n \<in> used s \<Longrightarrow>
      \<exists>s'. free (int n) s = Some s' \<and> used s' = used s - {n} \<and> inv s'"
    and free_unused: "inv s \<Longrightarrow> n \<notin> used s \<Longrightarrow> free (int n) s = None"
    and take_spec: "inv s \<Longrightarrow> n < 4096 \<Longrightarrow>
      \<exists>s'. take (int n) s = Some (n \<notin> used s, s') \<and> used s' = insert n (used s) \<and> inv s'"
begin

lemma alloc_then_free:
  assumes "inv s" "alloc s = Some (fd, s')" "fd \<noteq> - 1"
  shows "\<exists>s''. free fd s' = Some s'' \<and> used s'' = used s \<and> inv s''"
proof -
  obtain n where n: "fd = int n" "n < 4096" "n \<notin> used s" "used s' = insert n (used s)" "inv s'"
    using alloc_fresh [OF assms] by blast
  then obtain s'' where "free fd s' = Some s''" "used s'' = used s' - {n}" "inv s''"
    using free_used [of s' n] by blast
  then show ?thesis using n by auto
qed

lemma alloc_twice:
  assumes "inv s" "alloc s = Some (fd, s')" "fd \<noteq> - 1" "alloc s' = Some (fd', s'')" "fd' \<noteq> - 1"
  shows "fd \<noteq> fd'"
proof -
  obtain n where n: "fd = int n" "used s' = insert n (used s)" "inv s'"
    using alloc_fresh [OF assms(1-3)] by blast
  obtain n' where "fd' = int n'" "n' \<notin> used s'" using alloc_fresh [OF n(3) assms(4,5)] by blast
  then show ?thesis using n by auto
qed

lemma alloc_then_take:
  assumes "inv s" "alloc s = Some (fd, s')" "fd \<noteq> - 1"
  shows "\<exists>s''. take fd s' = Some (False, s'') \<and> used s'' = used s'"
proof -
  obtain n where n: "fd = int n" "n < 4096" "used s' = insert n (used s)" "inv s'"
    using alloc_fresh [OF assms] by blast
  then show ?thesis using take_spec [of s' n] by auto
qed

end

section \<open>The bitmap as a set\<close>

definition desc_used :: "desc_alloc_t \<Rightarrow> nat set" where
  "desc_used s = {n. n < 4096 \<and> bit (level1 s ! (n div 64)) (n mod 64)}"

definition desc_ok :: "desc_alloc_t \<Rightarrow> bool" where
  "desc_ok s \<longleftrightarrow> length (level1 s) = 64 \<and> level0 s = 0"

lemma bit_single: "(w :: u64) AND 2 ^ i = 0 \<longleftrightarrow> \<not> bit w i"
  by (simp add: bit_iff_and_push_bit_not_eq_0)

lemma desc_used_update:
  assumes "length (level1 s) = 64" "i < 64"
  shows "desc_used (s\<lparr> level1 := (level1 s)[i := w], level0 := l \<rparr>)
    = {n. n < 4096 \<and> bit (if n div 64 = i then w else level1 s ! (n div 64)) (n mod 64)}"
  using assms by (auto simp: desc_used_def nth_list_update)

lemma desc_used_set:
  assumes "length (level1 s) = 64" "i < 64" "j < 64"
  shows "desc_used (s\<lparr> level1 := (level1 s)[i := level1 s ! i OR push_bit j 1], level0 := l \<rparr>)
    = insert (i * 64 + j) (desc_used s)"
proof (intro set_eqI)
  fix n
  have "n div 64 = i \<and> n mod 64 = j \<longleftrightarrow> n = i * 64 + j" using assms by auto
  moreover have "i * 64 + j < 4096" using assms by simp
  ultimately show "n \<in> desc_used (s\<lparr> level1 := (level1 s)[i := level1 s ! i OR push_bit j 1], level0 := l \<rparr>)
      \<longleftrightarrow> n \<in> insert (i * 64 + j) (desc_used s)"
    using assms by (auto simp: desc_used_update bit_simps) (auto simp: desc_used_def)
qed

lemma desc_used_clear:
  assumes "length (level1 s) = 64" "i < 64" "j < 64"
  shows "desc_used (s\<lparr> level1 := (level1 s)[i := level1 s ! i AND NOT (push_bit j 1)], level0 := l \<rparr>)
    = desc_used s - {i * 64 + j}"
proof (intro set_eqI)
  fix n
  have "n div 64 = i \<and> n mod 64 = j \<longleftrightarrow> n = i * 64 + j" using assms by auto
  then show "n \<in> desc_used (s\<lparr> level1 := (level1 s)[i := level1 s ! i AND NOT (push_bit j 1)], level0 := l \<rparr>)
      \<longleftrightarrow> n \<in> desc_used s - {i * 64 + j}"
    using assms by (auto simp: desc_used_update bit_simps) (auto simp: desc_used_def)
qed

lemma bit_lsb_all: "bit_lsb_set_64 (- 1) = Some 0"
  by (simp add: bit_lsb_set_64_def builtin_ctz_Some)

lemma bit_lsb_clear:
  assumes "bit_lsb_set_64 (NOT w) = Some j"
  shows "j < 64" "\<not> bit w j" "\<forall>i<j. bit w i"
proof -
  have j: "bit (NOT w) j" "\<forall>i<j. \<not> bit (NOT w) i"
    using assms by (auto simp: bit_lsb_set_64_def builtin_ctz_Some)
  show "j < 64" using bit_imp_le_length [OF j(1)] by simp
  then show "\<not> bit w j" "\<forall>i<j. bit w i" using j by (auto simp: bit_simps)
qed

lemma bit_lsb_clear_None: "bit_lsb_set_64 (NOT w) = None \<longleftrightarrow> w = NOT 0"
proof -
  have "NOT w = 0 \<longleftrightarrow> w = NOT 0" by (metis bit.double_compl)
  then show ?thesis by (simp only: bit_lsb_set_64_def builtin_ctz_None)
qed

text \<open>With an all-clear summary word the allocator only looks at the first 64 descriptors.\<close>

lemma desc_alloc_ok:
  assumes "desc_ok s"
  shows "desc_alloc s =
    map_option (\<lambda>j. (int j, s\<lparr> level1 := (level1 s)[0 := level1 s ! 0 OR push_bit j 1], level0 := 0 \<rparr>))
      (bit_lsb_set_64 (NOT (level1 s ! 0)))"
proof -
  have l: "level0 s = 0" using assms by (simp add: desc_ok_def)
  show ?thesis
  proof (cases "bit_lsb_set_64 (NOT (level1 s ! 0))")
    case None
    then have "level1 s ! 0 = NOT 0" by (simp only: bit_lsb_clear_None)
    then show ?thesis using None by (simp add: desc_alloc_def l bit_lsb_all)
  next
    case (Some j)
    then have "level1 s ! 0 \<noteq> NOT 0" using bit_lsb_clear_None [of "level1 s ! 0"] by auto
    then show ?thesis using Some by (simp add: desc_alloc_def l bit_lsb_all Let_def)
  qed
qed

lemma desc_alloc_fresh:
  assumes "desc_ok s" "desc_alloc s = Some (fd, s')"
  shows "\<exists>n. fd = int n \<and> n < 64 \<and> n \<notin> desc_used s \<and> desc_used s' = insert n (desc_used s)
    \<and> desc_ok s' \<and> (\<forall>i<n. i \<in> desc_used s)"
proof -
  have s: "length (level1 s) = 64" using assms by (simp add: desc_ok_def)
  obtain j where j: "bit_lsb_set_64 (NOT (level1 s ! 0)) = Some j" and
    r: "fd = int j" "s' = s\<lparr> level1 := (level1 s)[0 := level1 s ! 0 OR push_bit j 1], level0 := 0 \<rparr>"
    using assms by (auto simp: desc_alloc_ok)
  have "desc_used s' = insert j (desc_used s)"
    using desc_used_set [OF s, of 0 j 0] bit_lsb_clear [OF j] r by simp
  moreover have "j \<notin> desc_used s" "\<forall>i<j. i \<in> desc_used s"
    using bit_lsb_clear [OF j] by (simp_all add: desc_used_def)
  ultimately show ?thesis using r s bit_lsb_clear(1) [OF j] by (simp add: desc_ok_def)
qed

lemma desc_free_used:
  assumes "desc_ok s" "n \<in> desc_used s"
  shows "\<exists>s'. desc_free (int n) s = Some s' \<and> desc_used s' = desc_used s - {n} \<and> desc_ok s'"
proof -
  have s: "length (level1 s) = 64" "level0 s = 0" using assms by (auto simp: desc_ok_def)
  have n: "n < 4096" "n div 64 < 64" "bit (level1 s ! (n div 64)) (n mod 64)"
    using assms by (auto simp: desc_used_def)
  then show ?thesis
    using s desc_used_clear [of s "n div 64" "n mod 64" 0]
    by (simp add: desc_free_def Let_def bit_single desc_ok_def)
qed

lemma desc_free_unused:
  assumes "desc_ok s" "n \<notin> desc_used s"
  shows "desc_free (int n) s = None"
  using assms by (auto simp: desc_free_def Let_def bit_single desc_used_def)

lemma desc_take_spec:
  assumes "desc_ok s" "n < 4096"
  shows "\<exists>s'. desc_take (int n) s = Some (n \<notin> desc_used s, s')
    \<and> desc_used s' = insert n (desc_used s) \<and> desc_ok s'"
proof -
  have s: "length (level1 s) = 64" "level0 s = 0" using assms by (auto simp: desc_ok_def)
  have "n div 64 < 64" using assms by simp
  then show ?thesis
    using assms s desc_used_set [of s "n div 64" "n mod 64" 0]
    by (cases "n \<in> desc_used s")
       (auto simp: desc_take_def desc_take_locked_def Let_def bit_single desc_ok_def desc_used_def insert_absorb)
qed

interpretation dp: desc_pool desc_alloc desc_free desc_take desc_used desc_ok
proof
  fix s fd s'
  assume "desc_ok s" "desc_alloc s = Some (fd, s')" "fd \<noteq> - 1"
  then show "\<exists>n. fd = int n \<and> n < 4096 \<and> n \<notin> desc_used s \<and> desc_used s' = insert n (desc_used s) \<and> desc_ok s'"
    using desc_alloc_fresh [of s fd s'] by force
qed (blast intro: desc_free_used desc_free_unused desc_take_spec)+

section \<open>Runs\<close>

inductive desc_step :: "desc_alloc_t \<Rightarrow> desc_alloc_t \<Rightarrow> bool" where
  step_alloc: "desc_alloc s = Some (fd, s') \<Longrightarrow> desc_step s s'"
| step_free: "desc_free fd s = Some s' \<Longrightarrow> desc_step s s'"
| step_take: "desc_take fd s = Some (ok, s') \<Longrightarrow> desc_step s s'"

lemma desc_step_ok:
  assumes "desc_step s s'" "desc_ok s"
  shows "desc_ok s'"
  using assms(1)
proof cases
  case (step_alloc fd)
  then show ?thesis using desc_alloc_fresh [OF assms(2)] by blast
next
  case (step_free fd)
  then have "0 \<le> fd" by (auto simp: desc_free_def split: if_splits)
  then obtain n where "fd = int n" by (metis nonneg_int_cases)
  then show ?thesis using step_free desc_free_used [OF assms(2), of n] desc_free_unused [OF assms(2), of n]
    by (cases "n \<in> desc_used s") auto
next
  case (step_take fd ok)
  then have "0 \<le> fd" "fd < 4096" by (auto simp: desc_take_def desc_take_locked_def split: if_splits)
  then obtain n where "fd = int n" "n < 4096" by (metis nonneg_int_cases of_nat_less_iff of_nat_numeral)
  then show ?thesis using step_take desc_take_spec [OF assms(2), of n] by auto
qed

lemma desc_reach_ok:
  assumes "desc_step\<^sup>*\<^sup>* desc_init s"
  shows "desc_ok s"
  using assms
proof (induction rule: rtranclp_induct)
  case base
  then show ?case by (simp add: desc_init_def desc_ok_def)
next
  case (step s s')
  then show ?case by (blast intro: desc_step_ok)
qed

text \<open>
  The summary word never records a full group: it is 0 in every reachable state although its
  comment says that a full group has its bit set, because both \<open>alloc\<close> and \<open>take\<close> clear the bit
  instead.  So \<open>alloc\<close> never reports exhaustion by returning -1: once the first 64
  descriptors are in use it fails its assertion, with up to 4032 descriptors still free.
\<close>

theorem desc_alloc_stops_at_64:
  assumes "desc_step\<^sup>*\<^sup>* desc_init s"
  shows "level0 s = 0
    \<and> (desc_alloc s = None \<longleftrightarrow> {0..<64} \<subseteq> desc_used s)
    \<and> (\<forall>s'. desc_alloc s \<noteq> Some (- 1, s'))"
proof -
  have ok: "desc_ok s" by (rule desc_reach_ok [OF assms])
  have "level1 s ! 0 = NOT 0 \<longleftrightarrow> (\<forall>i<64. bit (level1 s ! 0) i)"
    by (auto simp: bit_eq_iff bit_simps)
  also have "\<dots> \<longleftrightarrow> {0..<64} \<subseteq> desc_used s"
    by (auto simp: desc_used_def subset_iff)
  finally show ?thesis
    using ok bit_lsb_clear_None [of "level1 s ! 0"]
    by (auto simp: desc_alloc_ok [OF ok] desc_ok_def)
qed


lemma desc_init_unused: "desc_used desc_init = {}"
  by (auto simp: desc_used_def desc_init_def)


lemma desc_take_list_loop_used:
  assumes "desc_ok s" and "set ns \<subseteq> {0..<4096}"
  shows "\<exists>ok s'. desc_take_list_loop (map int ns) r s = Some (ok, s')
    \<and> desc_step\<^sup>*\<^sup>* s s' \<and> desc_used s' = desc_used s \<union> set ns"
  using assms
proof (induction ns arbitrary: r s)
  case Nil
  then show ?case by simp
next
  case (Cons n ns)
  obtain s1 where s1: "desc_take (int n) s = Some (n \<notin> desc_used s, s1)"
      "desc_used s1 = insert n (desc_used s)" "desc_ok s1"
    using desc_take_spec [OF Cons.prems(1), of n] Cons.prems(2) by auto
  obtain ok s' where "desc_take_list_loop (map int ns) (r \<and> n \<notin> desc_used s) s1 = Some (ok, s')"
      "desc_step\<^sup>*\<^sup>* s1 s'" "desc_used s' = desc_used s1 \<union> set ns"
    using Cons.IH [OF s1(3)] Cons.prems(2) by fastforce
  moreover have "desc_step s s1" using s1(1) by (rule step_take)
  ultimately show ?case using s1 by (auto simp: desc_take_def intro: converse_rtranclp_into_rtranclp)
qed

theorem desc_alloc_stops_at_64_witness:
  "\<exists>s. desc_step\<^sup>*\<^sup>* desc_init s \<and> desc_used s = {0..<64} \<and> level0 s = 0 \<and> desc_alloc s = None"
proof -
  have "desc_ok desc_init" by (simp add: desc_ok_def desc_init_def)
  then obtain s where "desc_step\<^sup>*\<^sup>* desc_init s" "desc_used s = {0..<64}"
    using desc_take_list_loop_used [of desc_init "[0..<64]" True] by (auto simp: desc_init_unused)
  then show ?thesis using desc_alloc_stops_at_64 [of s] by blast
qed

end
