(* ===== verification/Pool.thy ===== *)
theory Pool
  imports Cstring
begin

text \<open>
  The fixed-size object pool of \<^verbatim>\<open>kernel/lib/pool.cc\<close> and \<^verbatim>\<open>pool.h\<close>: a bump pointer over a
  mapped array of slots and a free list whose links are stored in the first four bytes of the
  freed slots.  The state is the pool object together with the byte memory.  \<open>mmap\<close> is a
  parameter.  The build has \<^verbatim>\<open>HEAP_DEBUG\<close> on, so allocated and freed slots are filled.
\<close>

section \<open>Model\<close>

record pool_base_t =
  items :: ptr
  item_size :: u32
  item_capacity :: u32
  item_count :: u32
  first_free :: u32

definition pool_round_up :: "u32 \<Rightarrow> nat \<Rightarrow> u32" where
  "pool_round_up n log2m = (n + (push_bit log2m 1 - 1)) AND push_bit log2m (NOT 0)"

text \<open>
  \<open>create\<close> rounds its parameter \<open>item_size\<close> up and at the end assigns the parameter to
  itself, since it hides the member of the same name: the member keeps its value.
\<close>

definition pool_create ::
    "(u64 \<Rightarrow> ptr) \<Rightarrow> u32 \<Rightarrow> u32 \<Rightarrow> pool_base_t \<Rightarrow> bool \<times> pool_base_t" where
  "pool_create mmap size_arg capacity p =
    (let size_arg = pool_round_up size_arg 6;
         size = ucast (size_arg * capacity);
         pool_mem = mmap size
     in if pool_mem = 0 \<or> pool_mem = - 1 then (False, p)
        else (True, p\<lparr> items := pool_mem, item_count := 0, item_capacity := capacity,
                       first_free := - 1 \<rparr>))"

definition pool_base_init :: pool_base_t where
  "pool_base_init = \<lparr> items = 0, item_size = 0, item_capacity = 0, item_count = 0, first_free = 0 \<rparr>"

text \<open>The size the destructor passes to \<open>munmap\<close>, given the size of the pool object.\<close>

definition pool_munmap_size :: "u32 \<Rightarrow> pool_base_t \<Rightarrow> u64" where
  "pool_munmap_size sizeof_base p =
     ucast (pool_round_up sizeof_base 6) + ucast (item_size p * item_capacity p)"

definition pool_item :: "u32 \<Rightarrow> pool_base_t \<Rightarrow> ptr option" where
  "pool_item index p = do {
     assert_that (index < item_capacity p);
     Some (items p + ucast (index * item_size p)) }"

definition pool_alloc :: "mem \<Rightarrow> pool_base_t \<Rightarrow> (ptr \<times> mem \<times> pool_base_t) option" where
  "pool_alloc m p = do {
     (slot, p) \<leftarrow>
       (if first_free p \<noteq> NOT 0 then do {
          slot \<leftarrow> pool_item (first_free p) p;
          Some (slot, p\<lparr> first_free := rd32 m slot \<rparr>) }
        else if item_count p < item_capacity p then do {
          slot \<leftarrow> pool_item (item_count p) p;
          Some (slot, p\<lparr> item_count := item_count p + 1 \<rparr>) }
        else Some (0, p));
     let m = (if slot \<noteq> 0 then fst (memset m slot 0xf0 (ucast (item_size p))) else m);
     Some (slot, m, p) }"

definition pool_calloc :: "mem \<Rightarrow> pool_base_t \<Rightarrow> (ptr \<times> mem \<times> pool_base_t) option" where
  "pool_calloc m p = do {
     (slot, m, p) \<leftarrow> pool_alloc m p;
     let m = (if slot \<noteq> 0 then fst (memset m slot 0 (ucast (item_size p))) else m);
     Some (slot, m, p) }"

definition pool_free :: "mem \<Rightarrow> u32 \<Rightarrow> pool_base_t \<Rightarrow> (mem \<times> pool_base_t) option" where
  "pool_free m index p = do {
     slot \<leftarrow> pool_item index p;
     let m = fst (memset m slot 0xfe (ucast (item_size p)));
     let m = store_bytes m slot (le32 (first_free p));
     Some (m, p\<lparr> first_free := index \<rparr>) }"

text \<open>
  The typed pool: creation with the size of the element type, and \<open>free\<close> of an element, which
  computes the index as a pointer difference in elements.
\<close>

definition pool_t_create :: "(u64 \<Rightarrow> ptr) \<Rightarrow> u32 \<Rightarrow> u32 \<Rightarrow> pool_base_t \<Rightarrow> bool \<times> pool_base_t" where
  "pool_t_create mmap sizeof_t capacity p = pool_create mmap sizeof_t capacity p"

definition pool_t_free :: "mem \<Rightarrow> u32 \<Rightarrow> ptr \<Rightarrow> pool_base_t \<Rightarrow> (mem \<times> pool_base_t) option" where
  "pool_t_free m sizeof_t item p =
    (if item = 0 then Some (m, p)
     else do {
       let index = (item - items p) div ucast sizeof_t;
       assert_that (index < ucast (item_capacity p));
       let m = fst (memset m item 0xfe (ucast sizeof_t));
       pool_free m (ucast index) p })"

section \<open>Lemmas\<close>

text \<open>Rounding to a multiple of the cache line, without wrap-around.\<close>

lemma pool_round_up_64:
  assumes "unat n + 63 < 4294967296"
  shows "unat (pool_round_up n 6) = (unat n + 63) div 64 * 64"
proof -
  have "pool_round_up n 6 = push_bit 6 (drop_bit 6 (n + 63))"
    by (rule bit_word_eqI) (auto simp: pool_round_up_def bit_simps)
  moreover have "unat (n + 63) = unat n + 63" using assms by (simp add: unat_word_ariths)
  then have d: "unat (drop_bit 6 (n + 63)) = (unat n + 63) div 64" by (simp add: unat_drop_bit)
  moreover have "(unat n + 63) div 64 * 64 < 4294967296"
    using assms div_times_less_eq_dividend [of "unat n + 63" 64] by linarith
  then have "unat (push_bit 6 (drop_bit 6 (n + 63))) = unat (drop_bit 6 (n + 63)) * 64"
    using d by (simp add: push_bit_eq_mult unat_word_ariths(2))
  ultimately show ?thesis by simp
qed

text \<open>
  After construction and a successful \<open>create\<close> the member \<open>item_size\<close> is still 0, so every
  slot has the same address: the first two allocations of a pool with at least two slots return
  the same pointer, and no memory is filled by either.
\<close>

theorem pool_create_slots_alias:
  assumes "pool_create mmap sz capacity pool_base_init = (True, p)" and "2 \<le> capacity"
  shows "item_size p = 0
    \<and> (\<exists>p1 p2. pool_alloc m p = Some (items p, m, p1) \<and> pool_alloc m p1 = Some (items p, m, p2)
         \<and> item_count p2 = 2)"
proof -
  have p: "item_size p = 0" "item_capacity p = capacity" "item_count p = 0" "first_free p = - 1"
    using assms(1) by (auto simp: pool_create_def pool_base_init_def Let_def split: if_splits)
  have "0 < capacity" "1 < capacity" using assms(2) by (auto simp: word_le_nat_alt word_less_nat_alt)
  then show ?thesis using p by (simp add: pool_alloc_def pool_item_def memset_eq Let_def)
qed

theorem pool_create_slots_alias_witness:
  "\<exists>p p1 p2. pool_create (\<lambda>size. 4096) 40 10 pool_base_init = (True, p)
    \<and> pool_alloc (\<lambda>_. 0) p = Some (4096, (\<lambda>_. 0), p1)
    \<and> pool_alloc (\<lambda>_. 0) p1 = Some (4096, (\<lambda>_. 0), p2)"
proof -
  obtain p where p: "pool_create (\<lambda>size. 4096) 40 10 pool_base_init = (True, p)" "items p = 4096"
    by (simp add: pool_create_def Let_def)
  then show ?thesis using pool_create_slots_alias [OF p(1), of "\<lambda>_. 0"] by auto
qed

text \<open>
  The free list is last-in first-out: freeing a slot and allocating again returns that slot
  and the pool as it was before, whatever the slot size; the pair changes no byte outside the slot
  and its link word.
\<close>

theorem pool_free_then_alloc:
  assumes "index < item_capacity p" and "items p + ucast (index * item_size p) \<noteq> 0"
  shows "\<exists>m1 p1 m2. pool_free m index p = Some (m1, p1)
    \<and> pool_alloc m1 p1 = Some (items p + ucast (index * item_size p), m2, p)
    \<and> (\<forall>a. \<not> in_block (items p + ucast (index * item_size p)) (max 4 (unat (item_size p))) a
         \<longrightarrow> m2 a = m a)"
proof -
  let ?slot = "items p + ucast (index * item_size p)"
  let ?n = "unat (item_size p)"
  let ?fill = "\<lambda>m b. store_bytes m ?slot (replicate ?n b)"
  let ?m1 = "store_bytes (?fill m 0xfe) ?slot (le32 (first_free p))"
  have "unat index < unat (item_capacity p)" using assms by (simp add: word_less_nat_alt)
  then have i: "index \<noteq> - 1"
    using unat_lt_32 [of "item_capacity p"]
    by (auto simp: unsigned_minus_1_eq_mask mask_eq_exp_minus_1 simp del: unat_lt_32)
  have "m2 a = m a"
    if "m2 = ?fill ?m1 0xf0" "\<not> in_block ?slot (max 4 ?n) a" for m2 a
  proof -
    have "?n < 18446744073709551616" using unat_lt_32 [of "item_size p"] by linarith
    then show ?thesis using that by (auto simp: in_block_def store_bytes_outside)
  qed
  moreover have "pool_free m index p = Some (?m1, p\<lparr> first_free := index \<rparr>)"
    using assms by (simp add: pool_free_def pool_item_def memset_eq unat_ucast_32_64)
  moreover have "pool_alloc ?m1 (p\<lparr> first_free := index \<rparr>) = Some (?slot, ?fill ?m1 0xf0, p)"
    using assms i by (simp add: pool_alloc_def pool_item_def rd32_store_bytes memset_eq unat_ucast_32_64)
  ultimately show ?thesis by blast
qed

theorem pool_free_then_alloc_witness:
  "\<exists>m1 p1 m2. pool_free (\<lambda>_. 0) 3 \<lparr> items = 4096, item_size = 64, item_capacity = 8, item_count = 5, first_free = 2 \<rparr>
      = Some (m1, p1)
    \<and> pool_alloc m1 p1 = Some (4288, m2,
        \<lparr> items = 4096, item_size = 64, item_capacity = 8, item_count = 5, first_free = 2 \<rparr>)
    \<and> m2 4352 = 0"
proof -
  let ?p = "\<lparr> items = 4096, item_size = 64, item_capacity = 8, item_count = 5, first_free = 2 \<rparr>"
  have "\<not> in_block 4288 64 4352" by (simp add: in_block_def)
  then show ?thesis using pool_free_then_alloc [of 3 ?p "\<lambda>_. 0"] by fastforce
qed

end
