(* ===== verification/Pipe.thy ===== *)
theory Pipe
  imports Dgos_Prelude
begin

text \<open>
  The kernel pipe of \<^verbatim>\<open>kernel/lib/pipe.cc\<close>: pages of a mapped pool are chained into a write
  chain, taken over by the reader as a whole, and recycled through a free list.

  A page is named by its index in the pool; its header and payload are a record in a page store,
  so that chains are followed through the store as the code follows pointers.  Operations run under
  the pipe lock.  A wait on a condition variable releases the lock: the run of the other threads
  during the wait is the next element of the list \<open>env\<close> of state transformers, and the empty list
  is the time-out.  \<open>mmap\<close> is a parameter of \<open>reserve\<close>.
\<close>

section \<open>Model\<close>

record pipe_page =
  pg_next :: "nat option"
  pg_size :: u64
  pg_payload :: "u8 list"

record pipe_t =
  write_buffer_first :: "nat option"
  write_buffer :: "nat option"
  read_buffer :: "nat option"
  read_ofs :: u64
  free_buffer :: "nat option"
  page_pool :: "ptr option"
  page_bump :: nat
  page_capacity :: nat
  pages :: "nat \<Rightarrow> pipe_page"

type_synonym pipe_env = "(pipe_t \<Rightarrow> pipe_t) list"

text \<open>Bytes of payload per page: the page size less the 64-byte header.\<close>

definition pipe_payload :: u64 where
  "pipe_payload = 4096 - 64"

definition pipe_capacity :: "pipe_t \<Rightarrow> nat" where
  "pipe_capacity s = page_capacity s * 4096"

definition cleanup_buffer :: "pipe_t \<Rightarrow> pipe_t" where
  "cleanup_buffer s =
    (if page_pool s \<noteq> None then
       s\<lparr> page_pool := None, page_bump := 0, page_capacity := 0, free_buffer := None,
          write_buffer_first := None, write_buffer := None, read_buffer := None \<rparr>
     else s)"

text \<open>The page constructor resets the header and leaves the payload as it is in memory.\<close>

fun allocate_page :: "pipe_env \<Rightarrow> pipe_t \<Rightarrow> nat option \<times> pipe_env \<times> pipe_t" where
  "allocate_page env s =
    (if page_pool s = None then (None, env, s)
     else case free_buffer s of
       Some p \<Rightarrow>
         (Some p, env,
          s\<lparr> free_buffer := pg_next (pages s p),
             pages := (pages s)(p := (pages s p)\<lparr> pg_next := None, pg_size := 0 \<rparr>) \<rparr>)
     | None \<Rightarrow>
         if page_bump s < page_capacity s then
           (Some (page_bump s), env,
            s\<lparr> pages := (pages s)(page_bump s :=
                   (pages s (page_bump s))\<lparr> pg_next := None, pg_size := 0 \<rparr>),
               page_bump := page_bump s + 1 \<rparr>)
         else case env of
           [] \<Rightarrow> (None, [], s)
         | others # env \<Rightarrow> allocate_page env (others s))"

definition free_page :: "nat \<Rightarrow> pipe_t \<Rightarrow> pipe_t" where
  "free_page p s =
     s\<lparr> pages := (pages s)(p := (pages s p)\<lparr> pg_next := free_buffer s, pg_size := 0 \<rparr>),
        free_buffer := Some p \<rparr>"

text \<open>\<open>mmap\<close> gives the mapped address, or \<open>None\<close> for failure, and what the pages hold.\<close>

definition pipe_reserve ::
    "ptr option \<Rightarrow> (nat \<Rightarrow> pipe_page) \<Rightarrow> nat \<Rightarrow> pipe_t \<Rightarrow> bool \<times> pipe_t" where
  "pipe_reserve mmap fresh npages s =
    (case mmap of
       None \<Rightarrow> (False, s)
     | Some a \<Rightarrow>
         let s = cleanup_buffer s
         in (True, s\<lparr> page_pool := Some a, page_capacity := npages, pages := fresh \<rparr>))"

text \<open>One round of the loop of \<open>enqueue\<close>: get a page that has room, then fill it.\<close>

definition needs_page :: "pipe_t \<Rightarrow> bool" where
  "needs_page s = (case write_buffer s of None \<Rightarrow> True | Some w \<Rightarrow> pg_size (pages s w) = pipe_payload)"

definition link_write_page :: "nat \<Rightarrow> pipe_t \<Rightarrow> pipe_t" where
  "link_write_page p s =
    (case write_buffer s of
       Some w \<Rightarrow> s\<lparr> pages := (pages s)(w := (pages s w)\<lparr> pg_next := Some p \<rparr>), write_buffer := Some p \<rparr>
     | None \<Rightarrow> s\<lparr> write_buffer_first := Some p, write_buffer := Some p \<rparr>)"

definition acquire_write_buffer :: "pipe_env \<Rightarrow> pipe_t \<Rightarrow> nat option \<times> pipe_env \<times> pipe_t" where
  "acquire_write_buffer env s =
    (if needs_page s then
       (case allocate_page env s of
          (None, env, s) \<Rightarrow> (None, env, s)
        | (Some p, env, s) \<Rightarrow> (Some p, env, link_write_page p s))
     else (write_buffer s, env, s))"

definition write_room :: "nat \<Rightarrow> pipe_t \<Rightarrow> nat" where
  "write_room w s = unat (pipe_payload - pg_size (pages s w))"

definition fill_page :: "nat \<Rightarrow> u8 list \<Rightarrow> pipe_t \<Rightarrow> pipe_t" where
  "fill_page w chunk s =
    (let pg = pages s w; ofs = unat (pg_size pg)
     in s\<lparr> pages := (pages s)(w := pg\<lparr> pg_size := pg_size pg + of_nat (length chunk),
            pg_payload := take ofs (pg_payload pg) @ chunk @ drop (ofs + length chunk) (pg_payload pg) \<rparr>) \<rparr>)"

declare allocate_page.simps [simp del]

lemma allocate_page_size:
  "allocate_page env s = (Some p, env', s') \<Longrightarrow> pg_size (pages s' p) = 0"
proof (induction env s rule: allocate_page.induct)
  case (1 env s)
  then show ?case
    by (subst (asm) (2) allocate_page.simps) (auto split: if_splits option.splits list.splits)
qed

lemma acquire_write_room:
  assumes "acquire_write_buffer env s = (Some w, env', s')"
  shows "0 < write_room w s'"
proof -
  have "pg_size (pages s' w) \<noteq> pipe_payload"
    using assms
    by (auto simp: acquire_write_buffer_def needs_page_def link_write_page_def pipe_payload_def
        split: if_splits option.splits prod.splits dest: allocate_page_size)
  then show ?thesis by (simp add: write_room_def unat_gt_0)
qed

function enqueue_loop ::
    "pipe_env \<Rightarrow> pipe_t \<Rightarrow> u8 list \<Rightarrow> nat \<Rightarrow> nat \<times> pipe_env \<times> pipe_t" where
  "enqueue_loop env s data sent =
    (if data = [] then (sent, env, s)
     else case acquire_write_buffer env s of
       (None, env', s') \<Rightarrow> (sent, env', s')
     | (Some w, env', s') \<Rightarrow>
         (let transferred = min (write_room w s') (length data)
          in enqueue_loop env' (fill_page w (take transferred data) s')
               (drop transferred data) (sent + transferred)))"
  by pat_completeness auto
termination
  by (relation "measure (\<lambda>(env, s, data, sent). length data)") (auto dest!: acquire_write_room [OF sym])

definition pipe_enqueue :: "pipe_env \<Rightarrow> u8 list \<Rightarrow> pipe_t \<Rightarrow> nat \<times> pipe_env \<times> pipe_t" where
  "pipe_enqueue env data s = enqueue_loop env s data 0"

text \<open>
  One round of \<open>dequeue\<close> on the read chain: copy what the page and the request allow, and recycle
  the page when it is used up.
\<close>

definition read_page :: "nat \<Rightarrow> nat \<Rightarrow> pipe_t \<Rightarrow> nat \<times> u8 list \<times> pipe_t" where
  "read_page r n s =
    (let pg = pages s r;
         transferred = min (unat (pg_size pg - read_ofs s)) n;
         chunk = take transferred (drop (unat (read_ofs s)) (pg_payload pg));
         s = s\<lparr> read_ofs := read_ofs s + of_nat transferred \<rparr>
     in (transferred, chunk,
         if read_ofs s = pg_size pg
         then free_page r (s\<lparr> read_buffer := pg_next pg, read_ofs := 0 \<rparr>) else s))"

definition take_write_chain :: "pipe_t \<Rightarrow> pipe_t" where
  "take_write_chain s = s\<lparr> read_buffer := write_buffer_first s, read_ofs := 0,
     write_buffer_first := None, write_buffer := None \<rparr>"

partial_function (option) dequeue_loop ::
    "pipe_env \<Rightarrow> pipe_t \<Rightarrow> nat \<Rightarrow> u8 list \<Rightarrow> (u8 list \<times> pipe_env \<times> pipe_t) option" where
  "dequeue_loop env s n received =
    (if n = 0 then Some (received, env, s)
     else case read_buffer s of
       Some r \<Rightarrow>
         (case read_page r n s of (transferred, chunk, s') \<Rightarrow>
            dequeue_loop env s' (n - transferred) (received @ chunk))
     | None \<Rightarrow>
         if write_buffer s \<noteq> None then dequeue_loop env (take_write_chain s) n received
         else case env of
           [] \<Rightarrow> Some (received, [], s)
         | others # env' \<Rightarrow> dequeue_loop env' (others s) n received)"

definition pipe_dequeue ::
    "pipe_env \<Rightarrow> nat \<Rightarrow> pipe_t \<Rightarrow> (u8 list \<times> pipe_env \<times> pipe_t) option" where
  "pipe_dequeue env n s = dequeue_loop env s n []"

definition pipe_init :: pipe_t where
  "pipe_init = \<lparr> write_buffer_first = None, write_buffer = None, read_buffer = None, read_ofs = 0,
     free_buffer = None, page_pool = None, page_bump = 0, page_capacity = 0,
     pages = (\<lambda>_. \<lparr> pg_next = None, pg_size = 0, pg_payload = [] \<rparr>) \<rparr>"

section \<open>Page chains\<close>

fun chain :: "(nat \<Rightarrow> pipe_page) \<Rightarrow> nat option \<Rightarrow> nat list \<Rightarrow> bool" where
  "chain pg p [] \<longleftrightarrow> p = None"
| "chain pg p (x # xs) \<longleftrightarrow> p = Some x \<and> chain pg (pg_next (pg x)) xs"

lemma chain_None [simp]: "chain pg None xs \<longleftrightarrow> xs = []"
  by (cases xs) auto

lemma chain_Some: "chain pg (Some p) xs \<longleftrightarrow> (\<exists>ys. xs = p # ys \<and> chain pg (pg_next (pg p)) ys)"
  by (cases xs) auto

lemma chain_outside [simp]: "x \<notin> set xs \<Longrightarrow> chain (pg(x := v)) p xs \<longleftrightarrow> chain pg p xs"
  by (induction xs arbitrary: p) auto

lemma chain_same_next [simp]:
  "pg_next v = pg_next (pg x) \<Longrightarrow> chain (pg(x := v)) p xs \<longleftrightarrow> chain pg p xs"
  by (induction xs arbitrary: p) auto

lemma chain_snoc:
  assumes "chain pg p (ws @ [w])" and "distinct (ws @ [w])" and "x \<notin> set (ws @ [w])"
    and "pg_next (pg x) = None"
  shows "chain (pg(w := (pg w)\<lparr> pg_next := Some x \<rparr>)) p (ws @ [w, x])"
  using assms by (induction ws arbitrary: p) auto

definition page_content :: "pipe_page \<Rightarrow> u8 list" where
  "page_content pg = take (unat (pg_size pg)) (pg_payload pg)"

text \<open>
  The state is made of a read chain, a write chain and a free chain: disjoint, together exactly
  the pages handed out so far, each page holding at most its payload.
\<close>

definition pipe_rep :: "pipe_t \<Rightarrow> nat list \<Rightarrow> nat list \<Rightarrow> nat list \<Rightarrow> bool" where
  "pipe_rep s rs ws fs \<longleftrightarrow>
     page_pool s \<noteq> None \<and>
     chain (pages s) (read_buffer s) rs \<and> chain (pages s) (write_buffer_first s) ws \<and>
     chain (pages s) (free_buffer s) fs \<and>
     distinct (rs @ ws @ fs) \<and> set (rs @ ws @ fs) = {..<page_bump s} \<and>
     page_bump s \<le> page_capacity s \<and>
     write_buffer s = (if ws = [] then None else Some (last ws)) \<and>
     (\<forall>x. unat (pg_size (pages s x)) \<le> 4032 \<or> x \<notin> set (rs @ ws)) \<and>
     (\<forall>x<page_capacity s. length (pg_payload (pages s x)) = 4032) \<and>
     (rs \<noteq> [] \<longrightarrow> unat (read_ofs s) \<le> unat (pg_size (pages s (hd rs))))"

definition chain_bytes :: "pipe_t \<Rightarrow> nat list \<Rightarrow> u8 list" where
  "chain_bytes s xs = concat (map (\<lambda>x. page_content (pages s x)) xs)"

definition pipe_bytes :: "pipe_t \<Rightarrow> nat list \<Rightarrow> nat list \<Rightarrow> u8 list" where
  "pipe_bytes s rs ws = drop (unat (read_ofs s)) (chain_bytes s rs) @ chain_bytes s ws"

definition pipe_room :: "pipe_t \<Rightarrow> nat list \<Rightarrow> nat list \<Rightarrow> nat" where
  "pipe_room s ws fs = (length fs + (page_capacity s - page_bump s)) * 4032
     + (if ws = [] then 0 else 4032 - unat (pg_size (pages s (last ws))))"

lemma chain_bytes_simps [simp]:
  "chain_bytes s [] = []"
  "chain_bytes s (x # xs) = page_content (pages s x) @ chain_bytes s xs"
  "chain_bytes s (xs @ ys) = chain_bytes s xs @ chain_bytes s ys"
  by (simp_all add: chain_bytes_def)

lemma chain_bytes_cong:
  "(\<And>x. x \<in> set xs \<Longrightarrow> page_content (pages s x) = page_content (pages s' x)) \<Longrightarrow>
     chain_bytes s xs = chain_bytes s' xs"
  by (induction xs) (auto simp: chain_bytes_def)

lemma pipe_rep_disjoint:
  assumes "pipe_rep s rs ws fs"
  shows "set rs \<inter> set ws = {}" "set rs \<inter> set fs = {}" "set ws \<inter> set fs = {}"
  using assms by (auto simp: pipe_rep_def)

section \<open>Writing\<close>

text \<open>A fresh page \<open>p\<close>: empty, linked to nothing, and outside the three chains.\<close>

definition pipe_rep_fresh :: "pipe_t \<Rightarrow> nat list \<Rightarrow> nat list \<Rightarrow> nat list \<Rightarrow> nat \<Rightarrow> bool" where
  "pipe_rep_fresh s rs ws fs p \<longleftrightarrow>
     page_pool s \<noteq> None \<and>
     chain (pages s) (read_buffer s) rs \<and> chain (pages s) (write_buffer_first s) ws \<and>
     chain (pages s) (free_buffer s) fs \<and>
     distinct (p # rs @ ws @ fs) \<and> set (p # rs @ ws @ fs) = {..<page_bump s} \<and>
     page_bump s \<le> page_capacity s \<and>
     write_buffer s = (if ws = [] then None else Some (last ws)) \<and>
     (\<forall>x. unat (pg_size (pages s x)) \<le> 4032 \<or> x \<notin> set (rs @ ws)) \<and>
     (\<forall>x<page_capacity s. length (pg_payload (pages s x)) = 4032) \<and>
     (rs \<noteq> [] \<longrightarrow> unat (read_ofs s) \<le> unat (pg_size (pages s (hd rs)))) \<and>
     pg_size (pages s p) = 0 \<and> pg_next (pages s p) = None"

lemma allocate_page_rep:
  assumes rep: "pipe_rep s rs ws fs" and more: "fs \<noteq> [] \<or> page_bump s < page_capacity s"
  shows "\<exists>p s' fs'. allocate_page env s = (Some p, env, s') \<and> pipe_rep_fresh s' rs ws fs' p
    \<and> chain_bytes s' rs = chain_bytes s rs \<and> chain_bytes s' ws = chain_bytes s ws
    \<and> read_ofs s' = read_ofs s
    \<and> Suc (length fs' + (page_capacity s' - page_bump s')) = length fs + (page_capacity s - page_bump s)"
proof (cases fs)
  case (Cons p fs')
  let ?s = "s\<lparr> free_buffer := pg_next (pages s p),
             pages := (pages s)(p := (pages s p)\<lparr> pg_next := None, pg_size := 0 \<rparr>) \<rparr>"
  have "free_buffer s = Some p" using rep Cons by (simp add: pipe_rep_def)
  then have "allocate_page env s = (Some p, env, ?s)"
    using rep by (subst allocate_page.simps) (simp add: pipe_rep_def)
  moreover have "pipe_rep_fresh ?s rs ws fs' p"
    using rep Cons by (auto simp: pipe_rep_def pipe_rep_fresh_def)
  moreover have "chain_bytes ?s rs = chain_bytes s rs" "chain_bytes ?s ws = chain_bytes s ws"
    using pipe_rep_disjoint [OF rep] Cons by (auto intro!: chain_bytes_cong)
  ultimately show ?thesis using Cons by (intro exI [of _ p] exI [of _ ?s] exI [of _ fs']) simp
next
  case Nil
  let ?p = "page_bump s"
  let ?s = "s\<lparr> pages := (pages s)(?p := (pages s ?p)\<lparr> pg_next := None, pg_size := 0 \<rparr>),
               page_bump := ?p + 1 \<rparr>"
  have b: "?p < page_capacity s" using more Nil by simp
  have "free_buffer s = None" using rep Nil by (simp add: pipe_rep_def)
  then have "allocate_page env s = (Some ?p, env, ?s)"
    using rep b by (subst allocate_page.simps) (simp add: pipe_rep_def)
  note alloc = this
  have fresh: "?p \<notin> set rs" "?p \<notin> set ws" using rep by (auto simp: pipe_rep_def)
  moreover have "rs \<noteq> [] \<Longrightarrow> hd rs \<noteq> ?p" using fresh(1) by (metis hd_in_set)
  ultimately have "pipe_rep_fresh ?s rs ws [] ?p"
    using rep Nil b by (auto simp: pipe_rep_def pipe_rep_fresh_def lessThan_Suc)
  moreover have "chain_bytes ?s rs = chain_bytes s rs" "chain_bytes ?s ws = chain_bytes s ws"
    using fresh by (auto intro!: chain_bytes_cong)
  ultimately show ?thesis using alloc Nil b by (intro exI [of _ ?p] exI [of _ ?s] exI [of _ "[]"]) simp
qed

lemma link_write_page_rep:
  assumes "pipe_rep_fresh s rs ws fs p"
  shows "pipe_rep (link_write_page p s) rs (ws @ [p]) fs
    \<and> chain_bytes (link_write_page p s) rs = chain_bytes s rs
    \<and> chain_bytes (link_write_page p s) (ws @ [p]) = chain_bytes s ws
    \<and> pg_size (pages (link_write_page p s) p) = 0
    \<and> page_capacity (link_write_page p s) = page_capacity s
    \<and> page_bump (link_write_page p s) = page_bump s \<and> read_ofs (link_write_page p s) = read_ofs s"
proof (cases ws rule: rev_cases)
  case Nil
  then show ?thesis using assms
    by (auto simp: pipe_rep_fresh_def pipe_rep_def link_write_page_def page_content_def
        intro!: chain_bytes_cong)
next
  case (snoc ws' w)
  define s' where "s' = link_write_page p s"
  have w: "write_buffer s = Some w" using assms snoc by (simp add: pipe_rep_fresh_def)
  then have s': "pages s' = (pages s)(w := (pages s w)\<lparr> pg_next := Some p \<rparr>)"
      "write_buffer s' = Some p" "write_buffer_first s' = write_buffer_first s"
      "read_buffer s' = read_buffer s" "free_buffer s' = free_buffer s" "page_pool s' = page_pool s"
      "page_capacity s' = page_capacity s" "page_bump s' = page_bump s" "read_ofs s' = read_ofs s"
    by (simp_all add: s'_def link_write_page_def)
  have page: "pg_size (pages s' x) = pg_size (pages s x)" "pg_payload (pages s' x) = pg_payload (pages s x)" for x
    by (simp_all add: s'(1))
  then have bytes: "chain_bytes s' xs = chain_bytes s xs" for xs
    by (intro chain_bytes_cong) (simp add: page_content_def)
  have c: "chain (pages s') (write_buffer_first s) (ws' @ [w, p])"
    unfolding s'(1) using assms snoc by (intro chain_snoc) (auto simp: pipe_rep_fresh_def)
  have "chain (pages s') q xs = chain (pages s) q xs" if "w \<notin> set xs" for q xs
    using that by (simp add: s'(1))
  then have "pipe_rep s' rs (ws @ [p]) fs"
    using assms snoc c page unfolding pipe_rep_def s'(2-)
    by (auto simp: pipe_rep_fresh_def)
  then show ?thesis
    using assms bytes page s' by (simp add: pipe_rep_fresh_def page_content_def flip: s'_def)
qed

lemma acquire_write_buffer_rep:
  assumes rep: "pipe_rep s rs ws fs" and room: "0 < pipe_room s ws fs"
  shows "\<exists>w s' ws' fs'. acquire_write_buffer env s = (Some w, env, s')
    \<and> pipe_rep s' rs ws' fs' \<and> ws' \<noteq> [] \<and> last ws' = w
    \<and> pipe_bytes s' rs ws' = pipe_bytes s rs ws \<and> pipe_room s' ws' fs' = pipe_room s ws fs"
proof (cases "needs_page s")
  case True
  then have full: "ws \<noteq> [] \<Longrightarrow> unat (pg_size (pages s (last ws))) = 4032"
    using rep by (auto simp: needs_page_def pipe_rep_def pipe_payload_def)
  then have r: "pipe_room s ws fs = (length fs + (page_capacity s - page_bump s)) * 4032"
    by (simp add: pipe_room_def)
  then have "fs \<noteq> [] \<or> page_bump s < page_capacity s" using room by auto
  from allocate_page_rep [OF rep this, of env] obtain p s' fs' where
    a: "allocate_page env s = (Some p, env, s')" "pipe_rep_fresh s' rs ws fs' p"
      "chain_bytes s' rs = chain_bytes s rs" "chain_bytes s' ws = chain_bytes s ws" "read_ofs s' = read_ofs s"
      "Suc (length fs' + (page_capacity s' - page_bump s')) = length fs + (page_capacity s - page_bump s)"
    by blast
  have "pipe_room (link_write_page p s') (ws @ [p]) fs' = Suc (length fs' + (page_capacity s' - page_bump s')) * 4032"
    using link_write_page_rep [OF a(2)] by (simp add: pipe_room_def)
  then show ?thesis
    using link_write_page_rep [OF a(2)] a True r
    by (intro exI [of _ p] exI [of _ "link_write_page p s'"] exI [of _ "ws @ [p]"] exI [of _ fs'])
       (simp add: acquire_write_buffer_def pipe_bytes_def)
next
  case False
  then have "ws \<noteq> []" "write_buffer s = Some (last ws)"
    using rep by (auto simp: needs_page_def pipe_rep_def split: if_splits)
  then show ?thesis using rep False
    by (intro exI [of _ "last ws"] exI [of _ s] exI [of _ ws] exI [of _ fs])
       (simp add: acquire_write_buffer_def)
qed

lemma acquire_write_buffer_full:
  assumes rep: "pipe_rep s rs ws fs" and "pipe_room s ws fs = 0"
  shows "acquire_write_buffer [] s = (None, [], s)"
proof -
  have "fs = []" "\<not> page_bump s < page_capacity s"
    and "ws \<noteq> [] \<Longrightarrow> 4032 \<le> unat (pg_size (pages s (last ws)))"
    using assms(2) by (auto simp: pipe_room_def split: if_splits)
  moreover have "ws \<noteq> [] \<Longrightarrow> unat (pg_size (pages s (last ws))) \<le> 4032"
    using rep last_in_set [of ws] by (auto simp: pipe_rep_def simp del: last_in_set)
  ultimately have "ws \<noteq> [] \<Longrightarrow> unat (pg_size (pages s (last ws))) = 4032" by fastforce
  then have "needs_page s"
    using rep by (auto simp: needs_page_def pipe_rep_def pipe_payload_def word_unat_eq_iff split: option.split)
  moreover have "allocate_page [] s = (None, [], s)"
    using rep \<open>fs = []\<close> \<open>\<not> page_bump s < page_capacity s\<close>
    by (subst allocate_page.simps) (simp add: pipe_rep_def)
  ultimately show ?thesis by (simp add: acquire_write_buffer_def)
qed

lemma fill_page_rep:
  assumes rep: "pipe_rep s rs ws fs" and w: "ws \<noteq> []" "last ws = w"
    and len: "length chunk \<le> write_room w s"
  shows "pipe_rep (fill_page w chunk s) rs ws fs"
    and "pipe_bytes (fill_page w chunk s) rs ws = pipe_bytes s rs ws @ chunk"
    and "pipe_room (fill_page w chunk s) ws fs = pipe_room s ws fs - length chunk"
    and "length chunk \<le> pipe_room s ws fs"
    and "write_room w s \<le> pipe_room s ws fs"
proof -
  define s' where "s' = fill_page w chunk s"
  let ?n = "unat (pg_size (pages s w))"
  have mem: "w \<in> set ws" using w by auto
  have n: "?n \<le> 4032" "length (pg_payload (pages s w)) = 4032"
    using rep mem by (auto simp: pipe_rep_def)
  have room: "write_room w s = 4032 - ?n"
    using n by (simp add: write_room_def pipe_payload_def unat_sub word_le_nat_alt)
  have sz: "unat (pg_size (pages s w) + of_nat (length chunk)) = ?n + length chunk"
    using len room n by (subst unat_add_64) (simp_all add: unat_of_nat_64)
  have s': "pages s' = (pages s)(w := (pages s w)\<lparr> pg_size := pg_size (pages s w) + of_nat (length chunk),
      pg_payload := take ?n (pg_payload (pages s w)) @ chunk @ drop (?n + length chunk) (pg_payload (pages s w)) \<rparr>)"
      "write_buffer s' = write_buffer s" "write_buffer_first s' = write_buffer_first s"
      "read_buffer s' = read_buffer s" "free_buffer s' = free_buffer s" "page_pool s' = page_pool s"
      "page_capacity s' = page_capacity s" "page_bump s' = page_bump s" "read_ofs s' = read_ofs s"
    by (simp_all add: s'_def fill_page_def Let_def)
  have "chain (pages s') q xs = chain (pages s) q xs" for q xs by (simp add: s'(1))
  moreover have "w \<notin> set rs" using mem pipe_rep_disjoint [OF rep] by auto
  ultimately show "pipe_rep (fill_page w chunk s) rs ws fs"
    using rep w n len room sz unfolding s'_def [symmetric] pipe_rep_def s'(2-)
    by (auto simp: s'(1))
  have c: "page_content (pages s' w) = page_content (pages s w) @ chunk"
    using n len room sz by (simp add: page_content_def s'(1))
  obtain ws' where ws': "ws = ws' @ [w]" using w by (metis append_butlast_last_id)
  then have "w \<notin> set ws'" using rep by (simp add: pipe_rep_def)
  have "page_content (pages s' x) = page_content (pages s x)" if "x \<noteq> w" for x
    using that by (simp add: s'(1))
  then have "chain_bytes s' xs = chain_bytes s xs" if "w \<notin> set xs" for xs
    using that by (metis chain_bytes_cong)
  then have "chain_bytes s' rs = chain_bytes s rs" "chain_bytes s' ws' = chain_bytes s ws'"
    using \<open>w \<notin> set rs\<close> \<open>w \<notin> set ws'\<close> by auto
  then show "pipe_bytes (fill_page w chunk s) rs ws = pipe_bytes s rs ws @ chunk"
    using c s' by (simp add: pipe_bytes_def ws' flip: s'_def)
  show "pipe_room (fill_page w chunk s) ws fs = pipe_room s ws fs - length chunk"
    using w n len room sz by (simp add: pipe_room_def s' flip: s'_def)
  show "length chunk \<le> pipe_room s ws fs" "write_room w s \<le> pipe_room s ws fs"
    using w len room by (simp_all add: pipe_room_def)
qed

declare enqueue_loop.simps [simp del]

lemma enqueue_loop_rep:
  assumes "pipe_rep s rs ws fs"
  shows "\<exists>s' ws' fs'. enqueue_loop [] s data sent = (sent + min (length data) (pipe_room s ws fs), [], s')
    \<and> pipe_rep s' rs ws' fs'
    \<and> pipe_bytes s' rs ws' = pipe_bytes s rs ws @ take (pipe_room s ws fs) data
    \<and> pipe_room s' ws' fs' = pipe_room s ws fs - length data"
  using assms
proof (induction "length data" arbitrary: s ws fs data sent rule: less_induct)
  case less
  show ?case
  proof (cases "data = [] \<or> pipe_room s ws fs = 0")
    case True
    then show ?thesis using less.prems acquire_write_buffer_full [OF less.prems]
      by (intro exI [of _ s] exI [of _ ws] exI [of _ fs]) (auto simp: enqueue_loop.simps)
  next
    case False
    then obtain w s1 ws1 fs1 where a: "acquire_write_buffer [] s = (Some w, [], s1)"
        "pipe_rep s1 rs ws1 fs1" "ws1 \<noteq> []" "last ws1 = w"
        "pipe_bytes s1 rs ws1 = pipe_bytes s rs ws" "pipe_room s1 ws1 fs1 = pipe_room s ws fs"
      using acquire_write_buffer_rep [OF less.prems, of "[]"] by auto
    define k where "k = min (write_room w s1) (length data)"
    have k: "0 < k" "k \<le> length data" "k \<le> write_room w s1"
      using acquire_write_room [OF a(1)] False by (auto simp: k_def)
    note f = fill_page_rep [OF a(2,3,4), of "take k data"]
    have f: "pipe_rep (fill_page w (take k data) s1) rs ws1 fs1"
        "pipe_bytes (fill_page w (take k data) s1) rs ws1 = pipe_bytes s rs ws @ take k data"
        "pipe_room (fill_page w (take k data) s1) ws1 fs1 = pipe_room s ws fs - k"
        "k \<le> pipe_room s ws fs"
      using f k a by simp_all
    have lt: "length (drop k data) < length data" using k by simp
    obtain s' ws' fs' where "enqueue_loop [] (fill_page w (take k data) s1) (drop k data) (sent + k)
          = (sent + k + min (length data - k) (pipe_room s ws fs - k), [], s')"
        "pipe_rep s' rs ws' fs'"
        "pipe_bytes s' rs ws' = (pipe_bytes s rs ws @ take k data) @ take (pipe_room s ws fs - k) (drop k data)"
        "pipe_room s' ws' fs' = pipe_room s ws fs - k - (length data - k)"
      using less.hyps [OF lt f(1), of "sent + k"] k f by auto
    moreover have "take (pipe_room s ws fs) data = take k data @ take (pipe_room s ws fs - k) (drop k data)"
      using f(4) k by (metis le_add_diff_inverse take_add)
    ultimately show ?thesis using a False k f(4)
      by (intro exI [of _ s'] exI [of _ ws'] exI [of _ fs'])
         (simp add: enqueue_loop.simps [of "[]" s] Let_def flip: k_def)
  qed
qed

section \<open>Reading\<close>

lemma read_page_rep:
  assumes rep: "pipe_rep s (r # rs) ws fs"
  defines "avail \<equiv> drop (unat (read_ofs s)) (page_content (pages s r))"
  shows "n < length avail \<Longrightarrow> \<exists>s'. read_page r n s = (n, take n avail, s') \<and> pipe_rep s' (r # rs) ws fs
      \<and> pipe_bytes s' (r # rs) ws = drop n (pipe_bytes s (r # rs) ws)"
    and "length avail \<le> n \<Longrightarrow> \<exists>s'. read_page r n s = (length avail, avail, s') \<and> pipe_rep s' rs ws (r # fs)
      \<and> pipe_bytes s' rs ws = drop (length avail) (pipe_bytes s (r # rs) ws) \<and> read_ofs s' = 0"
proof -
  let ?pg = "pages s r"
  let ?n = "unat (pg_size ?pg)" and ?o = "unat (read_ofs s)"
  have "r < page_bump s" and b: "?n \<le> 4032" "?o \<le> ?n" and nin: "r \<notin> set (rs @ ws @ fs)"
    using rep by (auto simp: pipe_rep_def)
  then have l: "length (pg_payload ?pg) = 4032" using rep by (auto simp: pipe_rep_def)
  have av: "length avail = ?n - ?o" using l b by (simp add: avail_def page_content_def)
  have rem: "unat (pg_size ?pg - read_ofs s) = length avail"
    using b av by (simp add: unat_sub word_le_nat_alt)
  have chunk: "take k (drop ?o (pg_payload ?pg)) = take k avail" if "k \<le> length avail" for k
    using that b l av by (simp add: avail_def page_content_def drop_take min_def)
  have ofs: "unat (read_ofs s + of_nat k) = ?o + k" if "k \<le> length avail" for k
    using that av b by (subst unat_add_64) (simp_all add: unat_of_nat_64)
  show "\<exists>s'. read_page r n s = (n, take n avail, s') \<and> pipe_rep s' (r # rs) ws fs
      \<and> pipe_bytes s' (r # rs) ws = drop n (pipe_bytes s (r # rs) ws)" if n: "n < length avail"
  proof -
    let ?s = "s\<lparr> read_ofs := read_ofs s + of_nat n \<rparr>"
    have "unat (read_ofs s + of_nat n) < ?n" using n av ofs [of n] by simp
    then have "read_page r n s = (n, take n avail, ?s)"
      using n chunk [of n] rem by (auto simp: read_page_def Let_def min_def)
    moreover have "pipe_rep ?s (r # rs) ws fs"
      using rep ofs [of n] n av by (simp add: pipe_rep_def)
    moreover have "chain_bytes ?s xs = chain_bytes s xs" for xs by (intro chain_bytes_cong) simp
    then have "pipe_bytes ?s (r # rs) ws = drop n (pipe_bytes s (r # rs) ws)"
      using ofs [of n] n av b l by (simp add: pipe_bytes_def page_content_def add.commute)
    ultimately show ?thesis by blast
  qed
  show "\<exists>s'. read_page r n s = (length avail, avail, s') \<and> pipe_rep s' rs ws (r # fs)
      \<and> pipe_bytes s' rs ws = drop (length avail) (pipe_bytes s (r # rs) ws) \<and> read_ofs s' = 0"
    if n: "length avail \<le> n"
  proof -
    let ?s = "free_page r (s\<lparr> read_buffer := pg_next ?pg, read_ofs := 0 \<rparr>)"
    have "read_ofs s + of_nat (length avail) = pg_size ?pg"
      using ofs [of "length avail"] av b by (simp add: word_unat_eq_iff)
    then have "read_page r n s = (length avail, avail, ?s)"
      using n chunk [of "length avail"] rem by (simp add: read_page_def Let_def min_def)
    moreover have "pipe_rep ?s rs ws (r # fs)"
      using rep nin by (auto simp: pipe_rep_def free_page_def)
    moreover have "chain_bytes ?s xs = chain_bytes s xs" if "r \<notin> set xs" for xs
      using that by (intro chain_bytes_cong) (auto simp: free_page_def)
    then have "pipe_bytes ?s rs ws = drop (length avail) (pipe_bytes s (r # rs) ws)"
      using nin av b l by (simp add: pipe_bytes_def avail_def free_page_def page_content_def)
    ultimately show ?thesis by (auto simp: free_page_def)
  qed
qed

lemma dequeue_read_chain:
  assumes "pipe_rep s rs ws fs"
  shows "\<exists>k s' rs' fs'. k \<le> n \<and> k \<le> length (pipe_bytes s rs ws)
    \<and> dequeue_loop env s n acc = dequeue_loop env s' (n - k) (acc @ take k (pipe_bytes s rs ws))
    \<and> pipe_rep s' rs' ws fs' \<and> pipe_bytes s' rs' ws = drop k (pipe_bytes s rs ws)
    \<and> (k < n \<longrightarrow> rs' = [])"
  using assms
proof (induction rs arbitrary: s fs n acc)
  case Nil
  then show ?case by (intro exI [of _ 0] exI [of _ s] exI [of _ "[]"] exI [of _ fs]) simp
next
  case (Cons r rs)
  define avail where "avail = drop (unat (read_ofs s)) (page_content (pages s r))"
  have "r < page_bump s" using Cons.prems by (auto simp: pipe_rep_def)
  then have "length (pg_payload (pages s r)) = 4032" using Cons.prems by (simp add: pipe_rep_def)
  moreover have "read_buffer s = Some r" "unat (pg_size (pages s r)) \<le> 4032"
      "unat (read_ofs s) \<le> unat (pg_size (pages s r))"
    using Cons.prems by (auto simp: pipe_rep_def)
  ultimately have r: "read_buffer s = Some r" "unat (read_ofs s) \<le> length (page_content (pages s r))"
    by (auto simp: page_content_def)
  then have pre: "pipe_bytes s (r # rs) ws = avail @ chain_bytes s rs @ chain_bytes s ws"
    by (simp add: pipe_bytes_def avail_def)
  show ?case
  proof (cases "n = 0")
    case True
    then show ?thesis using Cons.prems
      by (intro exI [of _ 0] exI [of _ s] exI [of _ "r # rs"] exI [of _ fs]) simp
  next
    case False
    show ?thesis
    proof (cases "n < length avail")
      case True
      then obtain s' where "read_page r n s = (n, take n avail, s')" "pipe_rep s' (r # rs) ws fs"
          "pipe_bytes s' (r # rs) ws = drop n (pipe_bytes s (r # rs) ws)"
        using read_page_rep(1) [OF Cons.prems] by (auto simp: avail_def)
      then show ?thesis using True False r pre
        by (intro exI [of _ n] exI [of _ s'] exI [of _ "r # rs"] exI [of _ fs])
           (simp add: dequeue_loop.simps [of env s n])
    next
      case short: False
      then obtain s1 where s1: "read_page r n s = (length avail, avail, s1)"
          "pipe_rep s1 rs ws (r # fs)"
          "pipe_bytes s1 rs ws = drop (length avail) (pipe_bytes s (r # rs) ws)"
        using read_page_rep(2) [OF Cons.prems, of n] by (auto simp: avail_def)
      obtain k s' rs' fs' where k: "k \<le> n - length avail" "k \<le> length (pipe_bytes s1 rs ws)"
          "dequeue_loop env s1 (n - length avail) (acc @ avail)
             = dequeue_loop env s' (n - length avail - k) ((acc @ avail) @ take k (pipe_bytes s1 rs ws))"
          "pipe_rep s' rs' ws fs'" "pipe_bytes s' rs' ws = drop k (pipe_bytes s1 rs ws)"
          "k < n - length avail \<longrightarrow> rs' = []"
        using Cons.IH [OF s1(2)] by blast
      then show ?thesis using False short r s1 pre
        by (intro exI [of _ "length avail + k"] exI [of _ s'] exI [of _ rs'] exI [of _ fs'])
           (auto simp: dequeue_loop.simps [of env s n])
    qed
  qed
qed

lemma take_write_chain_rep:
  assumes "pipe_rep s [] ws fs"
  shows "pipe_rep (take_write_chain s) ws [] fs"
    and "pipe_bytes (take_write_chain s) ws [] = pipe_bytes s [] ws"
  using assms by (auto simp: pipe_rep_def take_write_chain_def pipe_bytes_def chain_bytes_def)

lemma dequeue_loop_rep:
  assumes "pipe_rep s rs ws fs"
  shows "\<exists>s' rs' ws' fs'. dequeue_loop [] s n acc = Some (acc @ take n (pipe_bytes s rs ws), [], s')
    \<and> pipe_rep s' rs' ws' fs' \<and> pipe_bytes s' rs' ws' = drop n (pipe_bytes s rs ws)
    \<and> (length (pipe_bytes s rs ws) < n \<longrightarrow> rs' = [] \<and> ws' = [])"
proof -
  have stop: "dequeue_loop env s 0 acc = Some (acc, env, s)" for env s acc
    by (simp add: dequeue_loop.simps)
  have fin: "\<exists>s' rs' fs'. dequeue_loop [] s n acc = Some (acc @ take n (pipe_bytes s rs []), [], s')
      \<and> pipe_rep s' rs' [] fs' \<and> pipe_bytes s' rs' [] = drop n (pipe_bytes s rs [])
      \<and> (length (pipe_bytes s rs []) < n \<longrightarrow> rs' = [])"
    if rep: "pipe_rep s rs [] fs" for s rs fs n acc
  proof -
    obtain k s' rs' fs' where k: "k \<le> n" "k \<le> length (pipe_bytes s rs [])"
        "dequeue_loop [] s n acc = dequeue_loop [] s' (n - k) (acc @ take k (pipe_bytes s rs []))"
        "pipe_rep s' rs' [] fs'" "pipe_bytes s' rs' [] = drop k (pipe_bytes s rs [])"
        "k < n \<longrightarrow> rs' = []"
      using dequeue_read_chain [OF rep, of n "[]" acc] by blast
    show ?thesis
    proof (cases "k = n")
      case True
      then show ?thesis using k stop by auto
    next
      case False
      then have "rs' = []" "read_buffer s' = None" "write_buffer s' = None"
        using k by (auto simp: pipe_rep_def)
      moreover from this have "length (pipe_bytes s rs []) \<le> k" using k by (simp add: pipe_bytes_def)
      ultimately show ?thesis using k False
        by (intro exI [of _ s'] exI [of _ "[]"] exI [of _ fs']) (simp add: dequeue_loop.simps [of "[]" s'])
    qed
  qed
  obtain k s1 rs1 fs1 where k: "k \<le> n" "k \<le> length (pipe_bytes s rs ws)"
      "dequeue_loop [] s n acc = dequeue_loop [] s1 (n - k) (acc @ take k (pipe_bytes s rs ws))"
      "pipe_rep s1 rs1 ws fs1" "pipe_bytes s1 rs1 ws = drop k (pipe_bytes s rs ws)" "k < n \<longrightarrow> rs1 = []"
    using dequeue_read_chain [OF assms, of n "[]" acc] by blast
  show ?thesis
  proof (cases "k = n")
    case True
    then show ?thesis using k stop by auto
  next
    case False
    then have rs1: "rs1 = []" "read_buffer s1 = None" using k by (auto simp: pipe_rep_def)
    show ?thesis
    proof (cases "ws = []")
      case True
      then obtain s' rs' fs' where "dequeue_loop [] s1 (n - k) (acc @ take k (pipe_bytes s rs ws))
            = Some ((acc @ take k (pipe_bytes s rs ws)) @ take (n - k) (pipe_bytes s1 rs1 ws), [], s')"
          "pipe_rep s' rs' [] fs'" "pipe_bytes s' rs' [] = drop (n - k) (pipe_bytes s1 rs1 ws)"
          "length (pipe_bytes s1 rs1 ws) < n - k \<longrightarrow> rs' = []"
        using fin [of s1 rs1 fs1 "n - k" "acc @ take k (pipe_bytes s rs ws)"] k by blast
      then show ?thesis using k
        by (intro exI [of _ s'] exI [of _ rs'] exI [of _ "[]"] exI [of _ fs'])
           (auto simp flip: take_add)
    next
      case w: False
      then have "write_buffer s1 \<noteq> None" using k by (auto simp: pipe_rep_def)
      then have "dequeue_loop [] s1 (n - k) (acc @ take k (pipe_bytes s rs ws))
          = dequeue_loop [] (take_write_chain s1) (n - k) (acc @ take k (pipe_bytes s rs ws))"
        using False k rs1 by (simp add: dequeue_loop.simps [of "[]" s1])
      moreover obtain s' rs' fs' where "dequeue_loop [] (take_write_chain s1) (n - k) (acc @ take k (pipe_bytes s rs ws))
            = Some ((acc @ take k (pipe_bytes s rs ws)) @ take (n - k) (pipe_bytes s1 rs1 ws), [], s')"
          "pipe_rep s' rs' [] fs'" "pipe_bytes s' rs' [] = drop (n - k) (pipe_bytes s1 rs1 ws)"
          "length (pipe_bytes s1 rs1 ws) < n - k \<longrightarrow> rs' = []"
        using fin [OF take_write_chain_rep(1), of s1 ws fs1 "n - k" "acc @ take k (pipe_bytes s rs ws)"]
          take_write_chain_rep(2) [of s1 ws fs1] k(4) unfolding rs1 by auto
      ultimately show ?thesis using k
        by (intro exI [of _ s'] exI [of _ rs'] exI [of _ "[]"] exI [of _ fs'])
           (auto simp flip: take_add)
    qed
  qed
qed

section \<open>The pipe as a byte queue\<close>

text \<open>
  The contract of a bounded byte queue: \<open>rep s xs room\<close> relates the state to the bytes it holds
  and the bytes it can still take.
\<close>

datatype fifo_op = Put "u8 list" | Get nat

fun fifo_run ::
    "(u8 list \<Rightarrow> 's \<Rightarrow> nat \<times> 's) \<Rightarrow> (nat \<Rightarrow> 's \<Rightarrow> (u8 list \<times> 's) option) \<Rightarrow>
     fifo_op list \<Rightarrow> 's \<Rightarrow> (u8 list \<times> u8 list \<times> 's) option" where
  "fifo_run put get [] s = Some ([], [], s)"
| "fifo_run put get (Put xs # ops) s =
    (let (n, s) = put xs s in
     do { (accepted, received, s) \<leftarrow> fifo_run put get ops s;
          Some (take n xs @ accepted, received, s) })"
| "fifo_run put get (Get n # ops) s =
    do { (xs, s) \<leftarrow> get n s;
         (accepted, received, s) \<leftarrow> fifo_run put get ops s;
         Some (accepted, xs @ received, s) }"

locale byte_fifo =
  fixes put :: "u8 list \<Rightarrow> 's \<Rightarrow> nat \<times> 's"
    and get :: "nat \<Rightarrow> 's \<Rightarrow> (u8 list \<times> 's) option"
    and rep :: "'s \<Rightarrow> u8 list \<Rightarrow> nat \<Rightarrow> bool"
  assumes put_rep: "rep s xs r \<Longrightarrow>
      \<exists>s'. put ys s = (min (length ys) r, s') \<and> rep s' (xs @ take r ys) (r - length ys)"
    and get_rep: "rep s xs r \<Longrightarrow> \<exists>s' r'. get n s = Some (take n xs, s') \<and> rep s' (drop n xs) r'"
begin

lemma run_stream:
  "rep s xs r \<Longrightarrow> \<exists>accepted received s' xs' r'. fifo_run put get ops s = Some (accepted, received, s')
     \<and> rep s' xs' r' \<and> xs @ accepted = received @ xs'"
proof (induction ops arbitrary: s xs r)
  case Nil
  then show ?case by auto
next
  case (Cons op ops)
  show ?case
  proof (cases op)
    case (Put ys)
    obtain s1 where s1: "put ys s = (min (length ys) r, s1)" "rep s1 (xs @ take r ys) (r - length ys)"
      using put_rep [OF Cons.prems] by blast
    have "take (min (length ys) r) ys = take r ys" by (simp add: min_def)
    then show ?thesis using Cons.IH [OF s1(2)] s1(1) Put by auto
  next
    case (Get n)
    obtain s1 r1 where s1: "get n s = Some (take n xs, s1)" "rep s1 (drop n xs) r1"
      using get_rep [OF Cons.prems] by blast
    obtain accepted received s' xs' r' where "fifo_run put get ops s1 = Some (accepted, received, s')"
        "rep s' xs' r'" "drop n xs @ accepted = received @ xs'"
      using Cons.IH [OF s1(2)] by blast
    moreover from this have "xs @ accepted = (take n xs @ received) @ xs'"
      by (metis append.assoc append_take_drop_id)
    ultimately show ?thesis using s1(1) Get by auto
  qed
qed

end

text \<open>The pipe operations that do not wait for another thread.\<close>

definition pipe_put :: "u8 list \<Rightarrow> pipe_t \<Rightarrow> nat \<times> pipe_t" where
  "pipe_put xs s = (case pipe_enqueue [] xs s of (n, env, s') \<Rightarrow> (n, s'))"

definition pipe_get :: "nat \<Rightarrow> pipe_t \<Rightarrow> (u8 list \<times> pipe_t) option" where
  "pipe_get n s = map_option (\<lambda>(xs, env, s'). (xs, s')) (pipe_dequeue [] n s)"

definition pipe_holds :: "pipe_t \<Rightarrow> u8 list \<Rightarrow> nat \<Rightarrow> bool" where
  "pipe_holds s xs room \<longleftrightarrow>
     (\<exists>rs ws fs. pipe_rep s rs ws fs \<and> xs = pipe_bytes s rs ws \<and> room = pipe_room s ws fs)"

interpretation pipe: byte_fifo pipe_put pipe_get pipe_holds
proof
  fix s xs r ys
  assume "pipe_holds s xs r"
  then obtain rs ws fs where rep: "pipe_rep s rs ws fs" "xs = pipe_bytes s rs ws" "r = pipe_room s ws fs"
    by (auto simp: pipe_holds_def)
  then obtain s' ws' fs' where "enqueue_loop [] s ys 0 = (min (length ys) r, [], s')"
      "pipe_rep s' rs ws' fs'" "xs @ take r ys = pipe_bytes s' rs ws'" "r - length ys = pipe_room s' ws' fs'"
    using enqueue_loop_rep [OF rep(1), of ys 0] by auto
  then show "\<exists>s'. pipe_put ys s = (min (length ys) r, s') \<and> pipe_holds s' (xs @ take r ys) (r - length ys)"
    by (intro exI [of _ s']) (auto simp: pipe_put_def pipe_enqueue_def pipe_holds_def)
next
  fix s xs r n
  assume "pipe_holds s xs r"
  then obtain rs ws fs where rep: "pipe_rep s rs ws fs" "xs = pipe_bytes s rs ws"
    by (auto simp: pipe_holds_def)
  then obtain s' rs' ws' fs' where "dequeue_loop [] s n [] = Some (take n xs, [], s')"
      "pipe_rep s' rs' ws' fs'" "drop n xs = pipe_bytes s' rs' ws'"
    using dequeue_loop_rep [OF rep(1), of n "[]"] by auto
  then show "\<exists>s' r'. pipe_get n s = Some (take n xs, s') \<and> pipe_holds s' (drop n xs) r'"
    by (intro exI [of _ s'] exI [of _ "pipe_room s' ws' fs'"])
       (auto simp: pipe_get_def pipe_dequeue_def pipe_holds_def)
qed

lemma pipe_reserve_holds:
  assumes "\<forall>x<npages. length (pg_payload (fresh x)) = 4032"
  shows "\<exists>s. pipe_reserve (Some a) fresh npages pipe_init = (True, s) \<and> page_capacity s = npages
    \<and> pipe_holds s [] (npages * 4032)"
proof -
  let ?s = "snd (pipe_reserve (Some a) fresh npages pipe_init)"
  have "pipe_rep ?s [] [] []" "pipe_bytes ?s [] [] = []" "pipe_room ?s [] [] = npages * 4032"
    using assms
    by (simp_all add: pipe_rep_def pipe_reserve_def cleanup_buffer_def pipe_init_def pipe_bytes_def pipe_room_def)
  then have "pipe_holds ?s [] (npages * 4032)" unfolding pipe_holds_def by metis
  then show ?thesis by (simp add: pipe_reserve_def cleanup_buffer_def pipe_init_def)
qed

text \<open>A dequeue that asks for more than the pipe holds leaves every page on the free chain.\<close>

lemma pipe_get_drains:
  assumes "pipe_holds s xs r" and "length xs < n"
  shows "\<exists>s'. pipe_get n s = Some (xs, s') \<and> pipe_holds s' [] (page_capacity s' * 4032)"
proof -
  obtain rs ws fs where rep: "pipe_rep s rs ws fs" "xs = pipe_bytes s rs ws"
    using assms(1) by (auto simp: pipe_holds_def)
  then obtain s' fs' where s': "dequeue_loop [] s n [] = Some (xs, [], s')" "pipe_rep s' [] [] fs'"
    using dequeue_loop_rep [OF rep(1), of n "[]"] assms(2) by auto
  have "length fs' = page_bump s'"
    using s'(2) by (metis append_Nil card_lessThan distinct_card pipe_rep_def)
  then have "pipe_room s' [] fs' = page_capacity s' * 4032"
    using s'(2) by (simp add: pipe_room_def pipe_rep_def)
  moreover have "pipe_bytes s' [] [] = []" by (simp add: pipe_bytes_def)
  ultimately have "pipe_holds s' [] (page_capacity s' * 4032)"
    using s'(2) unfolding pipe_holds_def by metis
  then show ?thesis using s'(1) by (simp add: pipe_get_def pipe_dequeue_def)
qed

lemma acquire_write_buffer_capacity:
  "acquire_write_buffer [] s = (w, env, s') \<Longrightarrow> page_capacity s' = page_capacity s \<and> env = []"
  by (auto simp: acquire_write_buffer_def link_write_page_def allocate_page.simps
      split: if_splits option.splits prod.splits)

lemma fill_page_capacity [simp]: "page_capacity (fill_page w chunk s) = page_capacity s"
  by (simp add: fill_page_def Let_def)

lemma enqueue_loop_capacity:
  "page_capacity (snd (snd (enqueue_loop [] s data sent))) = page_capacity s"
proof (induction "length data" arbitrary: s data sent rule: less_induct)
  case less
  obtain w env s1 where acq: "acquire_write_buffer [] s = (w, env, s1)" by (metis prod.exhaust)
  note c = acquire_write_buffer_capacity [OF acq]
  show ?case
  proof (cases "data = [] \<or> w = None")
    case True
    then show ?thesis using c by (auto simp: enqueue_loop.simps acq)
  next
    case False
    then obtain p where p: "w = Some p" by auto
    have "length (drop (min (write_room p s1) (length data)) data) < length data"
      using False acquire_write_room [of "[]" s p env s1] acq p by auto
    then show ?thesis using False c less.hyps by (simp add: enqueue_loop.simps [of "[]" s] acq p Let_def)
  qed
qed

lemma pipe_put_capacity: "pipe_put data s = (n, s') \<Longrightarrow> page_capacity s' = page_capacity s"
  using enqueue_loop_capacity [of s data 0]
  by (auto simp: pipe_put_def pipe_enqueue_def split: prod.splits)

lemma dequeue_loop_capacity:
  assumes "dequeue_loop env s n acc = Some y"
  shows "env = [] \<longrightarrow> page_capacity (snd (snd y)) = page_capacity s"
proof (rule dequeue_loop.raw_induct [OF _ assms])
  fix loop env s n received y
  assume ih: "\<And>env s n received y. loop env s n received = Some y \<Longrightarrow>
      env = [] \<longrightarrow> page_capacity (snd (snd y)) = page_capacity s"
    and "(if n = 0 then Some (received, env, s)
     else case read_buffer s of
       None \<Rightarrow>
         if write_buffer s \<noteq> None then loop env (take_write_chain s) n received
         else case env of
           [] \<Rightarrow> Some (received, [], s)
         | others # env' \<Rightarrow> loop env' (others s) n received
     | Some r \<Rightarrow>
         (case read_page r n s of (transferred, chunk, s') \<Rightarrow>
            loop env s' (n - transferred) (received @ chunk))) = Some y"
  then show "env = [] \<longrightarrow> page_capacity (snd (snd y)) = page_capacity s"
    by (auto simp: take_write_chain_def read_page_def free_page_def Let_def
        split: if_splits option.splits dest!: ih)
qed

lemma pipe_get_capacity: "pipe_get n s = Some (xs, s') \<Longrightarrow> page_capacity s' = page_capacity s"
  using dequeue_loop_capacity [of "[]" s n "[]"]
  by (auto simp: pipe_get_def pipe_dequeue_def)

text \<open>
  C2. A pipe is a byte stream: after \<open>reserve\<close>, for every sequence of enqueues and dequeues of
  any sizes, each call returns, and the bytes received so far followed by the bytes still held
  are exactly the bytes accepted so far, in order.
\<close>

theorem pipe_preserves_stream:
  assumes "\<forall>x<npages. length (pg_payload (fresh x)) = 4032"
    and "pipe_reserve (Some a) fresh npages pipe_init = (True, s)"
  shows "\<exists>accepted received s' held room. fifo_run pipe_put pipe_get ops s = Some (accepted, received, s')
    \<and> pipe_holds s' held room \<and> accepted = received @ held"
proof -
  have "pipe_holds s [] (npages * 4032)" using pipe_reserve_holds [OF assms(1), of a] assms(2) by auto
  from pipe.run_stream [OF this, of ops] show ?thesis by auto
qed

theorem pipe_preserves_stream_witness:
  "\<exists>s accepted received s' held room.
     pipe_reserve (Some 4096) (\<lambda>_. \<lparr> pg_next = None, pg_size = 7, pg_payload = replicate 4032 0 \<rparr>) 2 pipe_init = (True, s)
     \<and> fifo_run pipe_put pipe_get [Put (replicate 9000 1), Get 5000, Put [2, 3], Get 10000] s
         = Some (accepted, received, s')
     \<and> pipe_holds s' held room \<and> accepted = received @ held"
proof -
  let ?f = "\<lambda>_. \<lparr> pg_next = None, pg_size = 7, pg_payload = replicate 4032 0 \<rparr>"
  obtain s where "pipe_reserve (Some 4096) ?f 2 pipe_init = (True, s)"
    using pipe_reserve_holds [of 2 ?f 4096] by auto
  then show ?thesis
    using pipe_preserves_stream [of 2 ?f 4096 s "[Put (replicate 9000 1), Get 5000, Put [2, 3], Get 10000]"]
    by (simp del: fifo_run.simps)
qed

text \<open>
  A pipe of \<open>npages\<close> pages takes \<open>4032\<close> bytes per page before an enqueue comes up short, and
  no page is lost: after everything has been read it takes as much again.
\<close>

theorem pipe_capacity_reusable:
  assumes "\<forall>x<npages. length (pg_payload (fresh x)) = 4032"
    and "pipe_reserve (Some a) fresh npages pipe_init = (True, s)"
    and "length data < n"
  shows "\<exists>s1 s2. pipe_put data s = (min (length data) (npages * 4032), s1)
    \<and> pipe_get n s1 = Some (take (npages * 4032) data, s2)
    \<and> pipe_holds s2 [] (npages * 4032)"
proof -
  have s: "page_capacity s = npages" "pipe_holds s [] (npages * 4032)"
    using pipe_reserve_holds [OF assms(1), of a] assms(2) by auto
  obtain s1 where s1: "pipe_put data s = (min (length data) (npages * 4032), s1)"
      "pipe_holds s1 (take (npages * 4032) data) (npages * 4032 - length data)"
    using pipe.put_rep [OF s(2), of data] by auto
  have "length (take (npages * 4032) data) < n" using assms(3) by simp
  then obtain s2 where s2: "pipe_get n s1 = Some (take (npages * 4032) data, s2)"
      "pipe_holds s2 [] (page_capacity s2 * 4032)"
    using pipe_get_drains [OF s1(2), of n] by auto
  have "page_capacity s2 = npages"
    using s(1) pipe_put_capacity [OF s1(1)] pipe_get_capacity [OF s2(1)] by simp
  then show ?thesis using s1 s2 by auto
qed

theorem pipe_capacity_reusable_witness:
  "\<exists>s s1 s2.
     pipe_reserve (Some 4096) (\<lambda>_. \<lparr> pg_next = None, pg_size = 7, pg_payload = replicate 4032 0 \<rparr>) 2 pipe_init = (True, s)
     \<and> pipe_put (replicate 9000 1) s = (8064, s1)
     \<and> pipe_get 9001 s1 = Some (replicate 8064 1, s2) \<and> pipe_holds s2 [] 8064"
proof -
  let ?f = "\<lambda>_. \<lparr> pg_next = None, pg_size = 7, pg_payload = replicate 4032 0 \<rparr>"
  obtain s where "pipe_reserve (Some 4096) ?f 2 pipe_init = (True, s)"
    using pipe_reserve_holds [of 2 ?f 4096] by auto
  then show ?thesis using pipe_capacity_reusable [of 2 ?f 4096 s "replicate 9000 1" 9001] by simp
qed

end
