(* ===== verification/Phys_Alloc.thy ===== *)
theory Phys_Alloc
  imports Dgos_Prelude
begin

text \<open>
  The physical page allocator of \<^verbatim>\<open>kernel/arch/x86_64/cpu/phys_alloc.cc\<close> and \<^verbatim>\<open>phys_alloc.h\<close>.  One
  32-bit entry per page holds either the index of the next free page, or the used bit with a
  reference count, or all ones.  Operations run under the allocator lock.

  The free pages form a chain through the entries.  The theory follows that chain through every
  operation; the page batch that frees pages sixteen at a time is a client of the interface
  \<open>page_source\<close>.
\<close>

section \<open>Model\<close>

record phys_alloc_t =
  entries :: "nat \<Rightarrow> u32"
  pa_begin :: u64
  next_free :: u32
  free_page_count :: u32
  log2_pagesz :: nat
  highest_usable :: nat

definition used_mask :: u32 where
  "used_mask = push_bit 31 1"

definition size_from_highest_page :: "u64 \<Rightarrow> u64" where
  "size_from_highest_page page_index = page_index * 4"

definition phys_init :: "u64 \<Rightarrow> nat \<Rightarrow> nat \<Rightarrow> phys_alloc_t \<Rightarrow> phys_alloc_t" where
  "phys_init start highest log2sz s =
     s\<lparr> pa_begin := start, log2_pagesz := log2sz, highest_usable := highest,
        next_free := - 1,
        entries := (\<lambda>i. if i < highest then - 1 else entries s i) \<rparr>"

definition index_from_addr :: "phys_alloc_t \<Rightarrow> u64 \<Rightarrow> nat option" where
  "index_from_addr s addr = do {
     assert_that (addr \<ge> pa_begin s);
     Some (unat (drop_bit (log2_pagesz s) (addr - pa_begin s))) }"

definition addr_from_index :: "phys_alloc_t \<Rightarrow> nat \<Rightarrow> u64" where
  "addr_from_index s index = push_bit (log2_pagesz s) (of_nat index) + pa_begin s"

partial_function (option) add_free_loop :: "u32 \<Rightarrow> u64 \<Rightarrow> phys_alloc_t \<Rightarrow> phys_alloc_t option" where
  "add_free_loop index sz s =
    (if sz = 0 then Some s
     else if unat index < highest_usable s \<and> entries s (unat index) = - 1 then
       add_free_loop (index - 1) (sz - push_bit (log2_pagesz s) 1)
         (s\<lparr> entries := (entries s)(unat index := next_free s), next_free := index,
             free_page_count := free_page_count s + 1 \<rparr>)
     else None)"

definition add_free_space :: "u64 \<Rightarrow> u64 \<Rightarrow> phys_alloc_t \<Rightarrow> phys_alloc_t option" where
  "add_free_space base sz s = do {
     last \<leftarrow> index_from_addr s (base + sz);
     add_free_loop (of_nat last - 1) sz s }"

definition alloc_one :: "phys_alloc_t \<Rightarrow> (u64 \<times> phys_alloc_t) option" where
  "alloc_one s =
    (if next_free s = - 1 then Some (0, s)
     else do {
       let index = unat (next_free s);
       assert_that (index < highest_usable s);
       let new_next = entries s index;
       assert_that (new_next = - 1 \<or> new_next AND used_mask = 0);
       Some (addr_from_index s index,
             s\<lparr> entries := (entries s)(index := used_mask OR 1), next_free := new_next \<rparr>) })"

definition release_one_locked :: "u64 \<Rightarrow> phys_alloc_t \<Rightarrow> (bool \<times> phys_alloc_t) option" where
  "release_one_locked addr s = do {
     index \<leftarrow> index_from_addr s addr;
     assert_that (index < highest_usable s);
     assert_that (entries s index AND used_mask \<noteq> 0);
     if entries s index = (1 OR used_mask) then
       Some (True, s\<lparr> entries := (entries s)(index := next_free s), next_free := of_nat index,
                      free_page_count := free_page_count s + 1 \<rparr>)
     else Some (False, s\<lparr> entries := (entries s)(index := entries s index - 1) \<rparr>) }"

definition release_one :: "u64 \<Rightarrow> phys_alloc_t \<Rightarrow> phys_alloc_t option" where
  "release_one addr s = map_option snd (release_one_locked addr s)"

text \<open>Here the index is kept in a 32-bit \<^verbatim>\<open>entry_t\<close>.\<close>

definition addref :: "u64 \<Rightarrow> phys_alloc_t \<Rightarrow> phys_alloc_t option" where
  "addref addr s = do {
     index \<leftarrow> index_from_addr s addr;
     let index = unat (of_nat index :: u32);
     assert_that (index < highest_usable s);
     assert_that (entries s index AND used_mask \<noteq> 0);
     Some (s\<lparr> entries := (entries s)(index := entries s index + 1) \<rparr>) }"

partial_function (option) validate_loop :: "phys_alloc_t \<Rightarrow> u32 \<Rightarrow> nat \<Rightarrow> nat option" where
  "validate_loop s ent free_count =
    (if ent = - 1 then Some free_count
     else validate_loop s (entries s (unat ent)) (free_count + 1))"

definition phys_validate :: "phys_alloc_t \<Rightarrow> unit option" where
  "phys_validate s = do {
     free_count \<leftarrow> validate_loop s (next_free s) 0;
     assert_that (unat (free_page_count s) = free_count) }"

text \<open>
  \<open>alloc_multiple\<close>: the first loop walks the chain, the second gives each page to the callback,
  which says whether it needs the page.  The callback has a state of its own.
\<close>

fun walk_free :: "phys_alloc_t \<Rightarrow> nat \<Rightarrow> u32 \<Rightarrow> (nat \<times> u32) option" where
  "walk_free s 0 new_next = Some (0, new_next)"
| "walk_free s (Suc count) new_next =
    (if new_next = - 1 then Some (0, new_next)
     else do {
       assert_that (unat new_next < highest_usable s);
       let new_next = entries s (unat new_next);
       assert_that (new_next = - 1 \<or> new_next AND used_mask = 0);
       (i, new_next) \<leftarrow> walk_free s count new_next;
       Some (Suc i, new_next) })"

type_synonym 'c page_callback = "nat \<Rightarrow> nat \<Rightarrow> u64 \<Rightarrow> 'c \<Rightarrow> bool \<times> 'c"

fun provide_pages ::
    "'c page_callback \<Rightarrow> nat \<Rightarrow> nat \<Rightarrow> nat \<Rightarrow> u32 \<Rightarrow> nat \<Rightarrow> phys_alloc_t \<Rightarrow> 'c
       \<Rightarrow> (u32 \<times> nat \<times> phys_alloc_t \<times> 'c) option" where
  "provide_pages callback count 0 i first used_count s c = Some (first, used_count, s, c)"
| "provide_pages callback count (Suc k) i first used_count s c =
    (if used_count < count then do {
       let next = entries s (unat first);
       assert_that (next AND used_mask = 0);
       let paddr = addr_from_index s (unat first);
       let (wanted, c) = callback i (log2_pagesz s) paddr c;
       if wanted then
         provide_pages callback count k (Suc i) next (Suc used_count)
           (s\<lparr> entries := (entries s)(unat first := 1 OR used_mask) \<rparr>) c
       else provide_pages callback count k (Suc i) first used_count s c }
     else Some (first, used_count, s, c))"

definition alloc_multiple ::
    "u64 \<Rightarrow> 'c page_callback \<Rightarrow> phys_alloc_t \<Rightarrow> 'c \<Rightarrow> (bool \<times> phys_alloc_t \<times> 'c) option" where
  "alloc_multiple sz callback s c = do {
     assert_that (sz AND (push_bit (log2_pagesz s) 1 - 1) = 0);
     let count = unat (drop_bit (log2_pagesz s) sz);
     if count = 0 then Some (True, s, c)
     else do {
       let first = next_free s;
       assert_that (first AND used_mask = 0);
       (i, new_next) \<leftarrow> walk_free s count first;
       if i = count then do {
         let s = s\<lparr> next_free := new_next, free_page_count := free_page_count s - of_nat count \<rparr>;
         (first, used_count, s, c) \<leftarrow> provide_pages callback count count 0 first 0 s c;
         let s = (if used_count \<noteq> count then
                    s\<lparr> free_page_count := free_page_count s + of_nat (count - used_count),
                       next_free := first \<rparr>
                  else s);
         Some (True, s, c) }
       else Some (False, s, c) } }"

subsection \<open>Batches of pages to free\<close>

definition pte_addr :: u64 where
  "pte_addr = 0x000FFFFFFFFFF000"

definition release_all :: "u64 list \<Rightarrow> phys_alloc_t \<Rightarrow> phys_alloc_t option" where
  "release_all pages s = fold_call release_one pages s"

definition batch_flush :: "u64 list \<Rightarrow> phys_alloc_t \<Rightarrow> (u64 list \<times> phys_alloc_t) option" where
  "batch_flush pages s = do {
     s \<leftarrow> (if length pages < 2 \<or> pages ! 0 > pages ! 1 then release_all pages s
           else release_all (rev pages) s);
     Some ([], s) }"

definition batch_free :: "u64 \<Rightarrow> u64 list \<Rightarrow> phys_alloc_t \<Rightarrow> (u64 list \<times> phys_alloc_t) option" where
  "batch_free addr pages s =
    (if addr = 0 \<or> addr = pte_addr then Some (pages, s)
     else do {
       assert_that (addr \<ge> 0x100000);
       assert_that (addr < 0x0010000000000000);
       (pages, s) \<leftarrow> (if length pages = 16 then batch_flush pages s else Some (pages, s));
       Some (pages @ [addr], s) })"

definition batch_pop :: "u64 list \<Rightarrow> u64 \<times> u64 list" where
  "batch_pop pages = (last pages, butlast pages)"

definition batch_destroy :: "u64 list \<Rightarrow> phys_alloc_t \<Rightarrow> (u64 list \<times> phys_alloc_t) option" where
  "batch_destroy pages s = (if pages \<noteq> [] then batch_flush pages s else Some (pages, s))"

section \<open>Entries and addresses\<close>

lemma used_mask_iff: "w AND used_mask = 0 \<longleftrightarrow> \<not> bit w 31"
  by (simp only: used_mask_def bit_iff_and_push_bit_not_eq_0) simp

lemma small_index:
  assumes "x < 2147483648"
  shows "unat (of_nat x :: u32) = x" "(of_nat x :: u32) \<noteq> - 1" "(of_nat x :: u32) AND used_mask = 0"
proof -
  show u: "unat (of_nat x :: u32) = x" using assms by (intro unat_of_nat_32) simp
  show "(of_nat x :: u32) \<noteq> - 1"
    using assms u by (auto simp: unsigned_minus_1_eq_mask mask_eq_exp_minus_1)
  have "\<not> 2 ^ 31 \<le> unat (of_nat x :: u32)" using u assms by simp
  then show "(of_nat x :: u32) AND used_mask = 0"
    by (simp only: ge_power_iff_bit used_mask_iff) auto
qed

lemma minus_1_used: "(- 1 :: u32) AND used_mask \<noteq> 0"
  by (simp only: used_mask_iff) simp

text \<open>The pages of the pool lie within the address space.\<close>

definition phys_geometry :: "phys_alloc_t \<Rightarrow> bool" where
  "phys_geometry s \<longleftrightarrow> highest_usable s \<le> 2147483648 \<and> log2_pagesz s < 64
     \<and> unat (pa_begin s) + highest_usable s * 2 ^ log2_pagesz s < 18446744073709551616"

lemma unat_addr_from_index:
  assumes "phys_geometry s" and "i \<le> highest_usable s"
  shows "unat (addr_from_index s i) = i * 2 ^ log2_pagesz s + unat (pa_begin s)"
    and "unat (push_bit (log2_pagesz s) (of_nat i) :: u64) = i * 2 ^ log2_pagesz s"
proof -
  let ?k = "2 ^ log2_pagesz s :: nat"
  have "i * ?k \<le> highest_usable s * ?k" using assms(2) by (intro mult_le_mono1) simp
  moreover have "unat (pa_begin s) + highest_usable s * ?k < 18446744073709551616"
    using assms(1) by (simp add: phys_geometry_def)
  ultimately have lim: "i * ?k + unat (pa_begin s) < 18446744073709551616" by linarith
  have "(push_bit (log2_pagesz s) (of_nat i) :: u64) = of_nat (i * ?k)"
    by (simp add: push_bit_eq_mult)
  then show p: "unat (push_bit (log2_pagesz s) (of_nat i) :: u64) = i * ?k"
    using lim by (simp only: unat_of_nat_64)
  show "unat (addr_from_index s i) = i * ?k + unat (pa_begin s)"
    unfolding addr_from_index_def using lim by (subst unat_add_64) (simp_all only: p)
qed

lemma index_from_addr_from_index:
  assumes "phys_geometry s" and "i \<le> highest_usable s"
  shows "index_from_addr s (addr_from_index s i) = Some i"
proof -
  have "pa_begin s \<le> addr_from_index s i"
    using unat_addr_from_index [OF assms] by (simp add: word_le_nat_alt)
  moreover have "addr_from_index s i - pa_begin s = push_bit (log2_pagesz s) (of_nat i)"
    by (simp add: addr_from_index_def)
  moreover have "unat (drop_bit (log2_pagesz s) (push_bit (log2_pagesz s) (of_nat i) :: u64)) = i"
    using unat_addr_from_index(2) [OF assms] by (simp add: unat_drop_bit)
  ultimately show ?thesis by (simp add: index_from_addr_def)
qed

section \<open>The free chain\<close>

fun fchain :: "(nat \<Rightarrow> u32) \<Rightarrow> u32 \<Rightarrow> nat list \<Rightarrow> bool" where
  "fchain e p [] \<longleftrightarrow> p = - 1"
| "fchain e p (x # xs) \<longleftrightarrow> p = of_nat x \<and> fchain e (e x) xs"

lemma fchain_outside [simp]: "x \<notin> set xs \<Longrightarrow> fchain (e(x := v)) p xs \<longleftrightarrow> fchain e p xs"
  by (induction xs arbitrary: p) auto

definition phys_ok :: "phys_alloc_t \<Rightarrow> nat list \<Rightarrow> bool" where
  "phys_ok s free \<longleftrightarrow> phys_geometry s \<and> fchain (entries s) (next_free s) free
     \<and> distinct free \<and> set free \<subseteq> {..<highest_usable s}"

lemma phys_ok_small: "phys_ok s free \<Longrightarrow> x \<in> set free \<Longrightarrow> x < 2147483648"
  by (auto simp: phys_ok_def phys_geometry_def)

lemma fchain_head:
  assumes "fchain e p xs" and "set xs \<subseteq> {..<2147483648}"
  shows "p = - 1 \<longleftrightarrow> xs = []" and "xs = [] \<or> p AND used_mask = 0"
  using assms small_index by (cases xs; auto)+

lemma phys_ok_Cons:
  assumes "phys_ok s (x # free)"
  shows "unat (next_free s) = x" "next_free s = of_nat x" "next_free s \<noteq> - 1" "x < highest_usable s"
    "entries s x = - 1 \<or> entries s x AND used_mask = 0" "next_free s AND used_mask = 0"
    "fchain (entries s) (entries s x) free"
proof -
  have "x < 2147483648" using phys_ok_small [OF assms, of x] by simp
  then show "unat (next_free s) = x" "next_free s = of_nat x" "next_free s \<noteq> - 1"
    "next_free s AND used_mask = 0" and x: "x < highest_usable s"
    and c: "fchain (entries s) (entries s x) free"
    using assms small_index [of x] by (auto simp: phys_ok_def)
  have "set free \<subseteq> {..<2147483648}" using phys_ok_small [OF assms] by auto
  then show "entries s x = - 1 \<or> entries s x AND used_mask = 0" using fchain_head [OF c] by auto
qed

lemma alloc_one_Nil: "phys_ok s [] \<Longrightarrow> alloc_one s = Some (0, s)"
  by (simp add: phys_ok_def alloc_one_def)

lemma alloc_one_Cons:
  assumes "phys_ok s (x # free)"
  shows "alloc_one s = Some (addr_from_index s x,
      s\<lparr> entries := (entries s)(x := used_mask OR 1), next_free := entries s x \<rparr>)"
    and "phys_ok (s\<lparr> entries := (entries s)(x := used_mask OR 1), next_free := entries s x \<rparr>) free"
proof -
  note x = phys_ok_Cons [OF assms]
  show "alloc_one s = Some (addr_from_index s x,
      s\<lparr> entries := (entries s)(x := used_mask OR 1), next_free := entries s x \<rparr>)"
    using x by (simp add: alloc_one_def Let_def del: word_of_nat_eq_iff)
  show "phys_ok (s\<lparr> entries := (entries s)(x := used_mask OR 1), next_free := entries s x \<rparr>) free"
    using assms x(7) by (auto simp: phys_ok_def phys_geometry_def)
qed

section \<open>The interface: a chain of free pages and reference counts\<close>

locale page_source =
  fixes alloc :: "'s \<Rightarrow> (u64 \<times> 's) option"
    and release :: "u64 \<Rightarrow> 's \<Rightarrow> 's option"
    and ref :: "u64 \<Rightarrow> 's \<Rightarrow> 's option"
    and free :: "'s \<Rightarrow> u64 list \<Rightarrow> bool"
    and refs :: "'s \<Rightarrow> u64 \<Rightarrow> nat \<Rightarrow> bool"
    and max_refs :: nat
  assumes alloc_head: "free s (a # as) \<Longrightarrow>
      \<exists>s'. alloc s = Some (a, s') \<and> free s' as \<and> refs s' a 1 \<and> (\<forall>b n. refs s b n \<longrightarrow> refs s' b n)"
    and release_last: "free s as \<Longrightarrow> refs s a 1 \<Longrightarrow>
      \<exists>s'. release a s = Some s' \<and> free s' (a # as) \<and> (\<forall>b n. b \<noteq> a \<longrightarrow> refs s b n \<longrightarrow> refs s' b n)"
    and release_shared: "free s as \<Longrightarrow> refs s a (Suc (Suc n)) \<Longrightarrow>
      \<exists>s'. release a s = Some s' \<and> free s' as \<and> refs s' a (Suc n)"
    and ref_more: "free s as \<Longrightarrow> refs s a n \<Longrightarrow> n < max_refs \<Longrightarrow>
      \<exists>s'. ref a s = Some s' \<and> free s' as \<and> refs s' a (Suc n)"
begin

lemma release_list:
  assumes "free s as" and "distinct ps" and "\<forall>p\<in>set ps. refs s p 1"
  shows "\<exists>s'. fold_call release ps s = Some s' \<and> free s' (rev ps @ as)"
  using assms
proof (induction ps arbitrary: s as)
  case Nil
  then show ?case by simp
next
  case (Cons p ps)
  have "refs s p 1" using Cons.prems(3) by simp
  from release_last [OF Cons.prems(1) this] obtain s1 where
    s1: "release p s = Some s1" "free s1 (p # as)" "\<forall>b n. b \<noteq> p \<longrightarrow> refs s b n \<longrightarrow> refs s1 b n"
    by blast
  have "\<forall>q\<in>set ps. refs s1 q 1" using Cons.prems s1(3) by auto
  from Cons.IH [OF s1(2) _ this] obtain s' where
    "fold_call release ps s1 = Some s'" "free s' (rev ps @ p # as)"
    using Cons.prems by auto
  then show ?case using s1 by simp
qed

lemma ref_many:
  assumes "free s as" and "refs s a 1" and "n < max_refs"
  shows "\<exists>s'. fold_call (\<lambda>_. ref a) (replicate n ()) s = Some s' \<and> free s' as \<and> refs s' a (Suc n)"
proof -
  have "\<exists>s'. fold_call (\<lambda>_. ref a) (replicate n ()) s = Some s' \<and> free s' as \<and> refs s' a (k + n)"
    if "free s as" "refs s a k" "k + n \<le> max_refs" for s k
    using that
  proof (induction n arbitrary: s k)
    case 0
    then show ?case by simp
  next
    case (Suc n)
    obtain s1 where s1: "ref a s = Some s1" "free s1 as" "refs s1 a (Suc k)"
      using ref_more [OF Suc.prems(1,2)] Suc.prems(3) by auto
    then show ?case using Suc.IH [OF s1(2,3)] Suc.prems(3) by auto
  qed
  then show ?thesis using assms by fastforce
qed

lemma release_many:
  "free s as \<Longrightarrow> refs s a (Suc n) \<Longrightarrow>
     \<exists>s'. fold_call (\<lambda>_. release a) (replicate n ()) s = Some s' \<and> free s' as \<and> refs s' a 1"
proof (induction n arbitrary: s)
  case 0
  then show ?case by simp
next
  case (Suc n)
  obtain s1 where s1: "release a s = Some s1" "free s1 as" "refs s1 a (Suc n)"
    using release_shared [OF Suc.prems] by blast
  then show ?case using Suc.IH by auto
qed

lemma lifecycle:
  assumes "free s (a # as)" and "n < max_refs"
  shows "\<exists>s1 s2 s3 s4. alloc s = Some (a, s1)
    \<and> fold_call (\<lambda>_. ref a) (replicate n ()) s1 = Some s2 \<and> refs s2 a (Suc n)
    \<and> fold_call (\<lambda>_. release a) (replicate n ()) s2 = Some s3 \<and> free s3 as
    \<and> release a s3 = Some s4 \<and> free s4 (a # as)"
proof -
  obtain s1 where s1: "alloc s = Some (a, s1)" "free s1 as" "refs s1 a 1"
    using alloc_head [OF assms(1)] by blast
  obtain s2 where s2: "fold_call (\<lambda>_. ref a) (replicate n ()) s1 = Some s2" "free s2 as" "refs s2 a (Suc n)"
    using ref_many [OF s1(2,3) assms(2)] by blast
  obtain s3 where s3: "fold_call (\<lambda>_. release a) (replicate n ()) s2 = Some s3" "free s3 as" "refs s3 a 1"
    using release_many [OF s2(2,3)] by blast
  obtain s4 where "release a s3 = Some s4" "free s4 (a # as)"
    using release_last [OF s3(2,3)] by blast
  then show ?thesis using s1 s2 s3 by blast
qed

end

section \<open>The allocator implements the interface\<close>

definition entry_refs :: "nat \<Rightarrow> u32" where
  "entry_refs n = 2147483648 + of_nat n"

definition page_refs :: "phys_alloc_t \<Rightarrow> u64 \<Rightarrow> nat \<Rightarrow> bool" where
  "page_refs s a n \<longleftrightarrow> 0 < n \<and> n \<le> 2147483646
     \<and> (\<exists>i<highest_usable s. a = addr_from_index s i \<and> entries s i = entry_refs n)"

definition free_pages :: "phys_alloc_t \<Rightarrow> u64 list \<Rightarrow> bool" where
  "free_pages s as \<longleftrightarrow> (\<exists>xs. phys_ok s xs \<and> as = map (addr_from_index s) xs)"

lemma entry_refs_unat: "n \<le> 2147483646 \<Longrightarrow> unat (entry_refs n) = 2147483648 + n"
  by (simp add: entry_refs_def unat_word_ariths unat_of_nat_32)

lemma entry_refs_used:
  assumes "n \<le> 2147483646"
  shows "entry_refs n AND used_mask \<noteq> 0" "entry_refs n \<noteq> - 1"
proof -
  have "2 ^ 31 \<le> unat (entry_refs n)" using entry_refs_unat [OF assms] by simp
  then obtain j where "31 \<le> j" "bit (entry_refs n) j" unfolding ge_power_iff_bit by blast
  moreover have "j < 32" using bit_imp_le_length [OF \<open>bit (entry_refs n) j\<close>] by simp
  ultimately have "bit (entry_refs n) 31" by (cases "j = 31") auto
  then show "entry_refs n AND used_mask \<noteq> 0" by (simp only: used_mask_iff) simp
  have "unat (- 1 :: u32) = 4294967295" by (simp add: unsigned_minus_1_eq_mask mask_eq_exp_minus_1)
  then show "entry_refs n \<noteq> - 1" using entry_refs_unat [OF assms] assms by auto
qed

lemma entry_refs_1: "1 OR used_mask = entry_refs 1" "used_mask OR 1 = entry_refs 1"
  by (simp_all add: entry_refs_def used_mask_def)

lemma entry_refs_inj:
  "m \<le> 2147483646 \<Longrightarrow> n \<le> 2147483646 \<Longrightarrow> entry_refs m = entry_refs n \<longleftrightarrow> m = n"
  using entry_refs_unat by (metis add_left_cancel)

lemma entry_refs_Suc: "entry_refs n + 1 = entry_refs (Suc n)" "entry_refs (Suc n) - 1 = entry_refs n"
  by (simp_all add: entry_refs_def)

text \<open>A page in use is not on the free chain, since the entries of the chain are links.\<close>

lemma free_entry:
  "fchain e p xs \<Longrightarrow> set xs \<subseteq> {..<2147483648} \<Longrightarrow> x \<in> set xs \<Longrightarrow> e x = - 1 \<or> e x AND used_mask = 0"
proof (induction xs arbitrary: p)
  case (Cons y ys)
  then show ?case using fchain_head [of e "e y" ys] by auto
qed simp

lemma used_not_free:
  assumes "phys_ok s xs" and "entries s i = entry_refs n" and "n \<le> 2147483646"
  shows "i \<notin> set xs"
proof
  assume "i \<in> set xs"
  moreover have "set xs \<subseteq> {..<2147483648}" using phys_ok_small [OF assms(1)] by auto
  ultimately have "entries s i = - 1 \<or> entries s i AND used_mask = 0"
    using assms(1) free_entry [of "entries s" "next_free s" xs i] by (simp add: phys_ok_def)
  then show False using assms entry_refs_used [of n] by simp
qed

lemma addr_from_index_inj:
  assumes "phys_geometry s" "i < highest_usable s" "j < highest_usable s"
  shows "addr_from_index s i = addr_from_index s j \<longleftrightarrow> i = j"
proof
  assume "addr_from_index s i = addr_from_index s j"
  then have "index_from_addr s (addr_from_index s i) = index_from_addr s (addr_from_index s j)"
    by (rule arg_cong)
  then show "i = j" by (simp only: index_from_addr_from_index less_imp_le assms option.inject)
qed simp

lemma addr_from_index_update [simp]:
  "addr_from_index (s\<lparr> entries := e \<rparr>) = addr_from_index s"
  "addr_from_index (s\<lparr> next_free := p \<rparr>) = addr_from_index s"
  "addr_from_index (s\<lparr> free_page_count := c \<rparr>) = addr_from_index s"
  by (rule ext, simp add: addr_from_index_def)+

lemma page_refs_I:
  "i < highest_usable s \<Longrightarrow> entries s i = entry_refs n \<Longrightarrow> 0 < n \<Longrightarrow> n \<le> 2147483646 \<Longrightarrow>
     page_refs s (addr_from_index s i) n"
  by (auto simp: page_refs_def)

lemma page_refs_E:
  assumes "page_refs s a n"
  obtains i where "i < highest_usable s" "a = addr_from_index s i" "entries s i = entry_refs n"
    "0 < n" "n \<le> 2147483646"
  using assms by (auto simp: page_refs_def)

lemma page_refs_keep:
  assumes "page_refs s b n"
    and "addr_from_index s' = addr_from_index s" "highest_usable s' = highest_usable s"
    and "\<And>i. b = addr_from_index s i \<Longrightarrow> entries s i = entry_refs n \<Longrightarrow> entries s' i = entries s i"
  shows "page_refs s' b n"
  using assms by (auto simp: page_refs_def)

lemma release_one_entry:
  assumes "phys_ok s xs" and "i < highest_usable s" and "entries s i = entry_refs n"
    and "0 < n" and "n \<le> 2147483646"
  shows "release_one (addr_from_index s i) s = Some
    (if n = 1 then s\<lparr> entries := (entries s)(i := next_free s), next_free := of_nat i,
                      free_page_count := free_page_count s + 1 \<rparr>
     else s\<lparr> entries := (entries s)(i := entry_refs (n - 1)) \<rparr>)"
proof -
  have g: "phys_geometry s" using assms(1) by (simp add: phys_ok_def)
  have "entry_refs n - 1 = entry_refs (n - 1)" using entry_refs_Suc(2) [of "n - 1"] assms(4) by simp
  then show ?thesis
    using assms index_from_addr_from_index [OF g less_imp_le [OF assms(2)]] entry_refs_used(1) [OF assms(5)]
      entry_refs_inj [of n 1]
    by (cases "n = 1") (auto simp: release_one_def release_one_locked_def entry_refs_1)
qed

lemma phys_ok_push:
  assumes "phys_ok s xs" and "i < highest_usable s" and "i \<notin> set xs"
  shows "phys_ok (s\<lparr> entries := (entries s)(i := next_free s), next_free := of_nat i,
      free_page_count := c \<rparr>) (i # xs)"
  using assms by (auto simp: phys_ok_def phys_geometry_def)

interpretation phys: page_source alloc_one release_one addref free_pages page_refs 2147483646
proof
  fix s a as
  assume "free_pages s (a # as)"
  then obtain x xs where xs: "phys_ok s (x # xs)" "a = addr_from_index s x" "as = map (addr_from_index s) xs"
    by (auto simp: free_pages_def)
  let ?s = "s\<lparr> entries := (entries s)(x := used_mask OR 1), next_free := entries s x \<rparr>"
  have "alloc_one s = Some (a, ?s)" "free_pages ?s as"
    using alloc_one_Cons [OF xs(1)] xs by (auto simp: free_pages_def)
  moreover have "page_refs ?s a 1"
    using xs(2) phys_ok_Cons(4) [OF xs(1)] page_refs_I [of x ?s 1] by (simp add: entry_refs_1)
  moreover have "page_refs ?s b n" if "page_refs s b n" for b n
  proof (rule page_refs_keep [OF that])
    fix i assume "b = addr_from_index s i" "entries s i = entry_refs n"
    then have "i \<noteq> x" using that used_not_free [OF xs(1), of i n] by (auto simp: page_refs_def)
    then show "entries ?s i = entries s i" by simp
  qed simp_all
  ultimately show "\<exists>s'. alloc_one s = Some (a, s') \<and> free_pages s' as \<and> page_refs s' a 1
      \<and> (\<forall>b n. page_refs s b n \<longrightarrow> page_refs s' b n)" by blast
next
  fix s a as
  assume "free_pages s as" "page_refs s a 1"
  then obtain xs i where xs: "phys_ok s xs" "as = map (addr_from_index s) xs" "i < highest_usable s"
      "a = addr_from_index s i" "entries s i = entry_refs 1"
    by (auto simp: free_pages_def page_refs_def)
  let ?s = "s\<lparr> entries := (entries s)(i := next_free s), next_free := of_nat i,
      free_page_count := free_page_count s + 1 \<rparr>"
  have "release_one a s = Some ?s" using release_one_entry [OF xs(1,3,5)] xs(4) by simp
  moreover have "i \<notin> set xs" using used_not_free [OF xs(1,5)] by simp
  then have "phys_ok ?s (i # xs)" using phys_ok_push [OF xs(1,3)] by blast
  then have "free_pages ?s (a # as)"
    unfolding free_pages_def by (intro exI [of _ "i # xs"]) (simp add: xs)
  moreover have "page_refs ?s b n" if "b \<noteq> a" "page_refs s b n" for b n
    using that xs(4) by (intro page_refs_keep [OF that(2)]) auto
  ultimately show "\<exists>s'. release_one a s = Some s' \<and> free_pages s' (a # as)
      \<and> (\<forall>b n. b \<noteq> a \<longrightarrow> page_refs s b n \<longrightarrow> page_refs s' b n)" by blast
next
  fix s a as n
  assume "free_pages s as" "page_refs s a (Suc (Suc n))"
  then obtain xs i where xs: "phys_ok s xs" "as = map (addr_from_index s) xs" "i < highest_usable s"
      "a = addr_from_index s i" "entries s i = entry_refs (Suc (Suc n))" "Suc (Suc n) \<le> 2147483646"
    by (auto simp: free_pages_def page_refs_def)
  let ?s = "s\<lparr> entries := (entries s)(i := entry_refs (Suc n)) \<rparr>"
  have "release_one a s = Some ?s" using release_one_entry [OF xs(1,3,5) _ xs(6)] xs(4) by simp
  moreover have "phys_ok ?s xs"
    using xs(1) used_not_free [OF xs(1,5,6)] by (simp add: phys_ok_def phys_geometry_def)
  then have "free_pages ?s as" by (auto simp: free_pages_def xs)
  moreover have "page_refs ?s a (Suc n)" using xs page_refs_I [of i ?s "Suc n"] by simp
  ultimately show "\<exists>s'. release_one a s = Some s' \<and> free_pages s' as \<and> page_refs s' a (Suc n)" by blast
next
  fix s a as n
  assume "free_pages s as" "page_refs s a n" and n: "n < 2147483646"
  then obtain xs i where xs: "phys_ok s xs" "as = map (addr_from_index s) xs" "i < highest_usable s"
      "a = addr_from_index s i" "entries s i = entry_refs n"
    by (auto simp: free_pages_def page_refs_def)
  have g: "phys_geometry s" using xs(1) by (simp add: phys_ok_def)
  let ?s = "s\<lparr> entries := (entries s)(i := entry_refs (Suc n)) \<rparr>"
  have "i < 2147483648" using g xs(3) by (simp add: phys_geometry_def)
  then have "addref a s = Some ?s"
    using xs small_index(1) [of i] index_from_addr_from_index [OF g less_imp_le [OF xs(3)]] entry_refs_used(1) [of n] n entry_refs_Suc(1) [of n]
    by (simp add: addref_def)
  moreover have "phys_ok ?s xs"
    using xs(1) used_not_free [OF xs(1,5)] n by (simp add: phys_ok_def phys_geometry_def)
  then have "free_pages ?s as" by (auto simp: free_pages_def xs)
  moreover have "page_refs ?s a (Suc n)" using xs n page_refs_I [of i ?s "Suc n"] by simp
  ultimately show "\<exists>s'. addref a s = Some s' \<and> free_pages s' as \<and> page_refs s' a (Suc n)" by blast
qed

section \<open>Properties\<close>

subsection \<open>Single pages\<close>

text \<open>A pool of four pages at 1 MiB whose free chain is page 2, then page 0.\<close>

definition demo_phys :: phys_alloc_t where
  "demo_phys = \<lparr> entries = (\<lambda>_. - 1)(2 := 0, 1 := 2147483649, 3 := 2147483649), pa_begin = 0x100000, next_free = 2,
     free_page_count = 2, log2_pagesz = 12, highest_usable = 4 \<rparr>"

lemma demo_phys_ok: "phys_ok demo_phys [2, 0]"
  by (simp add: demo_phys_def phys_ok_def phys_geometry_def)

lemma demo_phys_free: "free_pages demo_phys [0x102000, 0x100000]"
  unfolding free_pages_def using demo_phys_ok
  by (intro exI [of _ "[2, 0]"]) (simp add: addr_from_index_def demo_phys_def)

text \<open>
  C4. A page lives by its reference count: \<open>alloc_one\<close> takes the head of the free chain with count
  1; after \<open>n\<close> \<open>addref\<close>s it takes \<open>n\<close> releases that leave it in use and one more that puts
  it back at the head of the chain.
\<close>

theorem phys_page_lifecycle:
  assumes "free_pages s (a # as)" and "n < 2147483646"
  shows "\<exists>s1 s2 s3 s4. alloc_one s = Some (a, s1)
    \<and> fold_call (\<lambda>_. addref a) (replicate n ()) s1 = Some s2 \<and> page_refs s2 a (Suc n)
    \<and> fold_call (\<lambda>_. release_one a) (replicate n ()) s2 = Some s3 \<and> free_pages s3 as
    \<and> release_one a s3 = Some s4 \<and> free_pages s4 (a # as)"
  by (rule phys.lifecycle [OF assms])

theorem phys_page_lifecycle_witness:
  "\<exists>s1 s2 s3 s4. alloc_one demo_phys = Some (0x102000, s1)
    \<and> fold_call (\<lambda>_. addref 0x102000) (replicate 7 ()) s1 = Some s2 \<and> page_refs s2 0x102000 8
    \<and> fold_call (\<lambda>_. release_one 0x102000) (replicate 7 ()) s2 = Some s3 \<and> free_pages s3 [0x100000]
    \<and> release_one 0x102000 s3 = Some s4 \<and> free_pages s4 [0x102000, 0x100000]"
  using phys_page_lifecycle [OF demo_phys_free, of 7] by simp

subsection \<open>The free page count\<close>

lemma validate_loop_chain:
  "fchain (entries s) p xs \<Longrightarrow> set xs \<subseteq> {..<2147483648} \<Longrightarrow> validate_loop s p n = Some (n + length xs)"
proof (induction xs arbitrary: p n)
  case Nil
  then show ?case by (simp add: validate_loop.simps)
next
  case (Cons x xs)
  have "unat (of_nat x :: u32) = x" "(of_nat x :: u32) \<noteq> - 1" using small_index [of x] Cons.prems by auto
  then show ?case using Cons by (subst validate_loop.simps) (simp del: word_of_nat_eq_iff)
qed

lemma phys_validate_eq:
  assumes "phys_ok s xs"
  shows "phys_validate s = assert_that (unat (free_page_count s) = length xs)"
proof -
  have "set xs \<subseteq> {..<2147483648}" using phys_ok_small [OF assms] by auto
  then show ?thesis using assms validate_loop_chain [of s "next_free s" xs 0]
    by (simp add: phys_validate_def phys_ok_def)
qed

text \<open>
  \<open>alloc_one\<close> does not decrement the free page count, although \<open>release_one\<close> increments it:
  from any consistent state with a free page, \<open>validate\<close> passes before and fails its assertion after
  a single \<open>alloc_one\<close>, and after giving the page back the count is one too high.
\<close>

theorem alloc_one_breaks_free_count:
  assumes "phys_ok s (x # xs)" and "phys_validate s = Some ()"
  shows "\<exists>a s1 s2. alloc_one s = Some (a, s1) \<and> phys_validate s1 = None
    \<and> release_one a s1 = Some s2 \<and> phys_ok s2 (x # xs)
    \<and> free_page_count s2 = free_page_count s + 1 \<and> phys_validate s2 = None"
proof -
  let ?s1 = "s\<lparr> entries := (entries s)(x := used_mask OR 1), next_free := entries s x \<rparr>"
  let ?s2 = "?s1\<lparr> entries := (entries ?s1)(x := next_free ?s1), next_free := of_nat x,
      free_page_count := free_page_count ?s1 + 1 \<rparr>"
  have c: "unat (free_page_count s) = Suc (length xs)"
    using assms phys_validate_eq [OF assms(1)] by simp
  note a = alloc_one_Cons [OF assms(1)]
  have x: "x < highest_usable s" "x \<notin> set xs" "x < 2147483648"
    using assms(1) phys_ok_small [OF assms(1), of x] by (auto simp: phys_ok_def)
  have "release_one (addr_from_index s x) ?s1 = Some ?s2"
    using release_one_entry [OF a(2), of x 1] x by (simp add: entry_refs_1)
  moreover have ok2: "phys_ok ?s2 (x # xs)" using phys_ok_push [OF a(2), of x "free_page_count s + 1"] x by simp
  moreover have "phys_validate ?s1 = None" using phys_validate_eq [OF a(2)] c by simp
  moreover have "length (x # xs) \<le> 2147483648"
    using assms(1) card_mono [of "{..<highest_usable s}" "set (x # xs)"]
    by (simp add: phys_ok_def phys_geometry_def distinct_card del: set_simps)
  then have "unat (free_page_count s + 1) = Suc (unat (free_page_count s))"
    using c by (subst unat_word_ariths) simp
  then have "phys_validate ?s2 = None" using phys_validate_eq [OF ok2] c by simp
  ultimately show ?thesis using a(1) by auto
qed

theorem alloc_one_breaks_free_count_witness:
  "\<exists>a s1 s2. alloc_one demo_phys = Some (a, s1) \<and> phys_validate s1 = None
    \<and> release_one a s1 = Some s2 \<and> free_page_count s2 = 3 \<and> phys_validate s2 = None"
proof -
  have "phys_validate demo_phys = Some ()"
    using phys_validate_eq [OF demo_phys_ok] by (simp add: demo_phys_def)
  then show ?thesis using alloc_one_breaks_free_count [OF demo_phys_ok] by (auto simp: demo_phys_def)
qed

subsection \<open>Adding free space\<close>

lemma add_free_loop_pages:
  assumes "phys_ok s xs" and "i + n \<le> highest_usable s"
    and "\<forall>j\<in>{i..<i + n}. entries s j = - 1 \<and> j \<notin> set xs"
    and "n * 2 ^ log2_pagesz s < 18446744073709551616"
  shows "\<exists>s'. add_free_loop (of_nat (i + n) - 1) (of_nat (n * 2 ^ log2_pagesz s)) s = Some s'
    \<and> phys_ok s' ([i..<i + n] @ xs) \<and> free_page_count s' = free_page_count s + of_nat n"
  using assms
proof (induction n arbitrary: s xs)
  case 0
  then show ?case by (simp add: add_free_loop.simps)
next
  case (Suc n)
  let ?k = "2 ^ log2_pagesz s :: nat" and ?i = "i + n"
  let ?s = "s\<lparr> entries := (entries s)(?i := next_free s), next_free := of_nat ?i,
      free_page_count := free_page_count s + 1 \<rparr>"
  have i: "?i < highest_usable s" "?i \<notin> set xs" "entries s ?i = - 1" using Suc.prems by auto
  have ok: "phys_ok ?s (?i # xs)" using phys_ok_push [OF Suc.prems(1) i(1,2)] by blast
  have u: "unat (of_nat ?i :: u32) = ?i"
    using i(1) Suc.prems(1) small_index(1) [of ?i] by (simp add: phys_ok_def phys_geometry_def)
  have "unat (of_nat (Suc n * ?k) :: u64) = Suc n * ?k" using Suc.prems(4) by (intro unat_of_nat_64) simp
  then have nz: "(of_nat (Suc n * ?k) :: u64) \<noteq> 0" by (auto simp del: of_nat_mult mult_Suc)
  have idx: "of_nat (i + Suc n) - 1 = (of_nat ?i :: u32)" by simp
  have sz: "of_nat (Suc n * ?k) - push_bit (log2_pagesz s) 1 = (of_nat (n * ?k) :: u64)"
    by (simp add: push_bit_eq_mult)
  have "add_free_loop (of_nat (i + Suc n) - 1) (of_nat (Suc n * ?k)) s
      = add_free_loop (of_nat ?i - 1) (of_nat (n * ?k)) ?s"
    using nz u i unfolding idx by (subst add_free_loop.simps) (simp only: sz if_False if_True simp_thms)
  moreover have "\<exists>s'. add_free_loop (of_nat ?i - 1) (of_nat (n * ?k)) ?s = Some s'
      \<and> phys_ok s' ([i..<?i] @ ?i # xs) \<and> free_page_count s' = free_page_count ?s + of_nat n"
    using Suc.IH [OF ok] Suc.prems by auto
  ultimately show ?case by (auto simp: algebra_simps)
qed

text \<open>
  \<open>add_free_space\<close> of a page-aligned range of pages not known to the pool returns, puts
  exactly those pages at the front of the free chain in ascending order, and counts them.
\<close>

theorem add_free_space_pages:
  assumes "phys_ok s xs" and "i + n \<le> highest_usable s"
    and "\<forall>j\<in>{i..<i + n}. entries s j = - 1 \<and> j \<notin> set xs"
  shows "\<exists>s'. add_free_space (addr_from_index s i) (of_nat (n * 2 ^ log2_pagesz s)) s = Some s'
    \<and> phys_ok s' ([i..<i + n] @ xs) \<and> free_page_count s' = free_page_count s + of_nat n"
proof -
  have g: "phys_geometry s" using assms(1) by (simp add: phys_ok_def)
  have "n * 2 ^ log2_pagesz s \<le> highest_usable s * 2 ^ log2_pagesz s" using assms(2) by simp
  moreover have "highest_usable s * 2 ^ log2_pagesz s < 18446744073709551616"
    using g by (simp add: phys_geometry_def)
  ultimately have lim: "n * 2 ^ log2_pagesz s < 18446744073709551616" by (rule le_less_trans)
  have "addr_from_index s i + of_nat (n * 2 ^ log2_pagesz s) = addr_from_index s (i + n)"
    by (simp add: addr_from_index_def push_bit_eq_mult algebra_simps)
  then have "index_from_addr s (addr_from_index s i + of_nat (n * 2 ^ log2_pagesz s)) = Some (i + n)"
    using index_from_addr_from_index [OF g assms(2)] by simp
  then show ?thesis
    unfolding add_free_space_def using add_free_loop_pages [OF assms lim] by simp
qed

theorem add_free_space_pages_witness:
  "\<exists>s'. add_free_space 0x103000 0x5000 (phys_init 0x100000 16 12 demo_phys) = Some s'
    \<and> phys_ok s' [3, 4, 5, 6, 7]"
proof -
  let ?s = "phys_init 0x100000 16 12 demo_phys"
  have "phys_ok ?s []" "highest_usable ?s = 16" "log2_pagesz ?s = 12" "addr_from_index ?s 3 = 0x103000"
    and "\<forall>j\<in>{3..<3 + 5}. entries ?s j = - 1"
    by (simp_all add: phys_init_def phys_ok_def phys_geometry_def addr_from_index_def)
  moreover have "[3..<3 + 5] = [3, 4, 5, 6, 7 :: nat]" by (simp add: upt_rec)
  ultimately show ?thesis using add_free_space_pages [of ?s "[]" 3 5] by fastforce
qed

subsection \<open>Batches\<close>

lemma sort_strict: "sorted_wrt (<) ps \<Longrightarrow> set qs = set ps \<Longrightarrow> distinct qs \<Longrightarrow> sort qs = (ps :: u64 list)"
  by (rule sorted_distinct_set_unique) (auto simp: strict_sorted_iff)

lemma flush_order:
  fixes ps :: "u64 list"
  assumes "sorted_wrt (<) ps \<or> sorted_wrt (>) ps"
  shows "distinct ps" and "length ps < 2 \<or> ps ! 0 > ps ! 1 \<Longrightarrow> sort ps = rev ps"
    and "\<not> (length ps < 2 \<or> ps ! 0 > ps ! 1) \<Longrightarrow> sort ps = ps"
proof -
  have rev: "sorted_wrt (>) ps \<longleftrightarrow> sorted_wrt (<) (rev ps)" by (simp add: sorted_wrt_rev)
  show d: "distinct ps" using assms rev strict_sorted_iff [of ps] strict_sorted_iff [of "rev ps"] by auto
  show "sort ps = rev ps" if c: "length ps < 2 \<or> ps ! 0 > ps ! 1"
  proof (rule sort_strict)
    show "sorted_wrt (<) (rev ps)"
    proof (cases "length ps < 2")
      case True
      then show ?thesis by (cases ps rule: list.exhaust; cases "tl ps") auto
    next
      case False
      then have "\<not> sorted_wrt (<) ps" using c sorted_wrt_nth_less [of "(<)" ps 0 1] by auto
      then show ?thesis using assms rev by simp
    qed
  qed (use d in auto)
  show "sort ps = ps" if c: "\<not> (length ps < 2 \<or> ps ! 0 > ps ! 1)"
  proof (rule sort_strict)
    have "\<not> sorted_wrt (>) ps" using c sorted_wrt_nth_less [of "(>)" ps 0 1] by auto
    then show "sorted_wrt (<) ps" using assms by simp
  qed (use d in auto)
qed

text \<open>
  Flushing a batch of distinct pages whose addresses ascend or descend frees every page of it,
  and the order in which it releases them leaves the free chain ascending: the next
  allocations return the pages of the batch from the lowest address up.
\<close>

theorem batch_flush_ascending:
  assumes "free_pages s as" and "sorted_wrt (<) ps \<or> sorted_wrt (>) ps"
    and "\<forall>p\<in>set ps. page_refs s p 1"
  shows "\<exists>s'. batch_flush ps s = Some ([], s') \<and> free_pages s' (sort ps @ as)"
proof -
  note o = flush_order [OF assms(2)]
  have down: "\<exists>s'. release_all ps s = Some s' \<and> free_pages s' (rev ps @ as)"
    using phys.release_list [OF assms(1) o(1) assms(3)] by (simp add: release_all_def)
  have up: "\<exists>s'. release_all (rev ps) s = Some s' \<and> free_pages s' (ps @ as)"
    using phys.release_list [OF assms(1), of "rev ps"] o(1) assms(3) by (simp add: release_all_def)
  show ?thesis
  proof (cases "length ps < 2 \<or> ps ! 0 > ps ! 1")
    case True
    then show ?thesis using down o(2) [OF True] by (auto simp: batch_flush_def)
  next
    case False
    then show ?thesis using up o(3) [OF False] by (auto simp: batch_flush_def)
  qed
qed

theorem batch_flush_ascending_witness:
  "\<exists>s'. batch_flush [0x103000, 0x101000] demo_phys = Some ([], s')
    \<and> free_pages s' [0x101000, 0x103000, 0x102000, 0x100000]"
proof -
  have "page_refs demo_phys 0x103000 1" "page_refs demo_phys 0x101000 1"
    using page_refs_I [of 3 demo_phys 1] page_refs_I [of 1 demo_phys 1]
    by (simp_all add: demo_phys_def entry_refs_def addr_from_index_def)
  then show ?thesis using batch_flush_ascending [OF demo_phys_free, of "[0x103000, 0x101000]"] by simp
qed

subsection \<open>Several pages at once\<close>

lemma walk_free_chain:
  assumes "fchain (entries s) p xs" and "set xs \<subseteq> {..<highest_usable s}" and "highest_usable s \<le> 2147483648"
  shows "\<exists>q. walk_free s k p = Some (min k (length xs), q) \<and> fchain (entries s) q (drop k xs)"
  using assms(1,2)
proof (induction k arbitrary: p xs)
  case 0
  then show ?case by simp
next
  case (Suc k)
  show ?case
  proof (cases xs)
    case Nil
    then show ?thesis using Suc.prems by simp
  next
    case (Cons x ys)
    have "x < 2147483648" "set ys \<subseteq> {..<2147483648}" using Suc.prems assms(3) Cons by auto
    then have x: "unat p = x" "p \<noteq> - 1" and c: "fchain (entries s) (entries s x) ys"
      and n: "entries s x = - 1 \<or> entries s x AND used_mask = 0"
      using small_index [of x] Suc.prems(1) Cons fchain_head [of "entries s" "entries s x" ys] by auto
    obtain q where "walk_free s k (entries s x) = Some (min k (length ys), q)"
        "fchain (entries s) q (drop k ys)"
      using Suc.IH [OF c] Suc.prems(2) Cons by auto
    then show ?thesis using x n Suc.prems(2) Cons by (auto simp: Let_def)
  qed
qed

definition mark_used :: "nat list \<Rightarrow> (nat \<Rightarrow> u32) \<Rightarrow> nat \<Rightarrow> u32" where
  "mark_used ys e = (\<lambda>i. if i \<in> set ys then entry_refs 1 else e i)"

lemma mark_used_Cons: "mark_used ys (e(y := entry_refs 1)) = mark_used (y # ys) e"
  by (auto simp: mark_used_def fun_eq_iff)

text \<open>Offering pages to the callback \<open>k\<close> times: a page that is declined is offered again.  The result is the
  number of pages taken.\<close>

fun offer_pages :: "'c page_callback \<Rightarrow> nat \<Rightarrow> nat \<Rightarrow> nat \<Rightarrow> u64 list \<Rightarrow> 'c \<Rightarrow> nat \<times> 'c" where
  "offer_pages callback lg 0 i as c = (0, c)"
| "offer_pages callback lg (Suc k) i [] c = (0, c)"
| "offer_pages callback lg (Suc k) i (a # as) c =
    (case callback i lg a c of (wanted, c) \<Rightarrow>
       if wanted then (case offer_pages callback lg k (Suc i) as c of (u, c) \<Rightarrow> (Suc u, c))
       else offer_pages callback lg k (Suc i) (a # as) c)"

lemma offer_pages_le: "fst (offer_pages callback lg k i as c) \<le> k"
  by (induction callback lg k i as c rule: offer_pages.induct) (auto split: prod.splits simp: le_SucI)

lemma offer_pages_full:
  "fst (offer_pages callback lg (Suc k) i as c) = Suc k \<Longrightarrow> fst (offer_pages callback lg k i as c) = k"
proof (induction k arbitrary: i as c)
  case (Suc k)
  obtain a bs where as: "as = a # bs" using Suc.prems by (cases as) auto
  obtain w c' where cb: "callback i lg a c = (w, c')" by fastforce
  have w: "w" using Suc.prems as cb offer_pages_le [of callback lg "Suc k" "Suc i" as c'] by (cases w) (auto split: prod.splits)
  then show ?case using Suc.IH [of "Suc i" bs c'] Suc.prems as cb by (auto split: prod.splits)
qed simp

definition provided :: "'c page_callback \<Rightarrow> nat \<Rightarrow> nat \<Rightarrow> nat list \<Rightarrow> nat \<Rightarrow> phys_alloc_t \<Rightarrow> 'c
    \<Rightarrow> (u32 \<times> nat \<times> phys_alloc_t \<times> 'c) option" where
  "provided callback k i xs used_count s c =
    (case offer_pages callback (log2_pagesz s) k i (map (addr_from_index s) xs) c of
       (u, c) \<Rightarrow> Some (of_nat (xs ! u), used_count + u, s\<lparr> entries := mark_used (take u xs) (entries s) \<rparr>, c))"

lemma provided_Suc:
  "provided callback (Suc k) i (x # ys) used_count s c =
    (case callback i (log2_pagesz s) (addr_from_index s x) c of (wanted, c) \<Rightarrow>
       if wanted then provided callback k (Suc i) ys (Suc used_count) (s\<lparr> entries := (entries s)(x := entry_refs 1) \<rparr>) c
       else provided callback k (Suc i) (x # ys) used_count s c)"
  by (auto simp: provided_def mark_used_Cons simp del: One_nat_def split: prod.splits)

text \<open>One page of a chain that goes on after it.\<close>

lemma provide_pages_step:
  assumes "fchain (entries s) p (x # ys)" and "distinct (x # ys)" and "set (x # ys) \<subseteq> {..<2147483648}" and "used_count < count"
  shows "ys = [] \<Longrightarrow> provide_pages callback count (Suc k) i p used_count s c = None"
    and "ys \<noteq> [] \<Longrightarrow> provide_pages callback count (Suc k) i p used_count s c =
      (case callback i (log2_pagesz s) (addr_from_index s x) c of (wanted, c) \<Rightarrow>
         if wanted then provide_pages callback count k (Suc i) (entries s x) (Suc used_count)
           (s\<lparr> entries := (entries s)(x := entry_refs 1) \<rparr>) c
         else provide_pages callback count k (Suc i) p used_count s c)"
    and "fchain ((entries s)(x := v)) (entries s x) ys"
proof -
  have x: "unat p = x" and ch: "fchain (entries s) (entries s x) ys" using assms(1,3) small_index [of x] by auto
  show "fchain ((entries s)(x := v)) (entries s x) ys" using ch assms(2) by simp
  show "provide_pages callback count (Suc k) i p used_count s c = None" if "ys = []"
    using that x ch assms(4) minus_1_used by (simp add: Let_def)
  show "provide_pages callback count (Suc k) i p used_count s c =
      (case callback i (log2_pagesz s) (addr_from_index s x) c of (wanted, c) \<Rightarrow>
         if wanted then provide_pages callback count k (Suc i) (entries s x) (Suc used_count)
           (s\<lparr> entries := (entries s)(x := entry_refs 1) \<rparr>) c
         else provide_pages callback count k (Suc i) p used_count s c)" if "ys \<noteq> []"
  proof -
    have "entries s x AND used_mask = 0" using that fchain_head(2) [OF ch] assms(3) by auto
    then show ?thesis using x assms(4) by (simp add: Let_def entry_refs_1 split: prod.splits)
  qed
qed

lemma provide_pages_short:
  assumes "fchain (entries s) p xs" and "distinct xs" and "set xs \<subseteq> {..<2147483648}"
    and "used_count + k \<le> count" and "k < length xs"
  shows "provide_pages callback count k i p used_count s c = provided callback k i xs used_count s c"
  using assms
proof (induction k arbitrary: s p xs i used_count c)
  case 0
  then show ?case by (cases xs) (auto simp: provided_def mark_used_def)
next
  case (Suc k)
  obtain x ys where xs1: "xs = x # ys" using Suc.prems(5) by (cases xs) auto
  then have xs: "xs = x # ys" "ys \<noteq> []" using Suc.prems(5) by auto
  note st = provide_pages_step [OF Suc.prems(1-3) [unfolded xs(1)], of used_count count]
  obtain w c' where cb: "callback i (log2_pagesz s) (addr_from_index s x) c = (w, c')" by fastforce
  have taken: "provide_pages callback count k (Suc i) (entries s x) (Suc used_count) (s\<lparr> entries := (entries s)(x := entry_refs 1) \<rparr>) c'
      = provided callback k (Suc i) ys (Suc used_count) (s\<lparr> entries := (entries s)(x := entry_refs 1) \<rparr>) c'"
    using Suc.prems st(3) by (intro Suc.IH) (auto simp: xs(1) simp del: fun_upd_apply)
  have declined: "provide_pages callback count k (Suc i) p used_count s c' = provided callback k (Suc i) xs used_count s c'"
    using Suc.prems by (intro Suc.IH) auto
  have lt: "used_count < count" using Suc.prems(4) by simp
  show ?case unfolding st(2) [OF lt xs(2)] xs(1) provided_Suc cb prod.case using taken declined xs(1) by simp
qed

text \<open>When the chain has no page beyond the requested ones, the offer of its last page fails the assertion.\<close>

lemma provide_pages_all:
  assumes "fchain (entries s) p xs" and "distinct xs" and "set xs \<subseteq> {..<2147483648}"
    and "used_count + length xs \<le> count" and "xs \<noteq> []"
  shows "provide_pages callback count (length xs) i p used_count s c =
    (if fst (offer_pages callback (log2_pagesz s) (length xs - 1) i (map (addr_from_index s) xs) c) = length xs - 1 then None
     else provided callback (length xs) i xs used_count s c)"
  using assms
proof (induction xs arbitrary: s p i used_count c)
  case (Cons x ys)
  have lt: "used_count < count" using Cons.prems(4) by simp
  note st = provide_pages_step [OF Cons.prems(1-3) lt]
  show ?case
  proof (cases ys)
    case Nil
    then show ?thesis using st(1) by (simp del: provide_pages.simps)
  next
    case (Cons y zs)
    obtain w c' where cb: "callback i (log2_pagesz s) (addr_from_index s x) c = (w, c')" by fastforce
    let ?s = "s\<lparr> entries := (entries s)(x := entry_refs 1) \<rparr>"
    show ?thesis
    proof (cases w)
      case True
      have "provide_pages callback count (length ys) (Suc i) (entries s x) (Suc used_count) ?s c' =
        (if fst (offer_pages callback (log2_pagesz ?s) (length ys - 1) (Suc i) (map (addr_from_index ?s) ys) c') = length ys - 1 then None
         else provided callback (length ys) (Suc i) ys (Suc used_count) ?s c')"
        using Cons.prems st(3) Cons by (intro Cons.IH) (auto simp del: fun_upd_apply)
      then show ?thesis
        using st(2) [of callback "length ys" i c] Cons cb True provided_Suc [of callback "length ys" i x ys used_count s c]
        by (simp del: provide_pages.simps split: prod.splits)
    next
      case False
      have "provide_pages callback count (length ys) (Suc i) p used_count s c' = provided callback (length ys) (Suc i) (x # ys) used_count s c'"
        using Cons.prems by (intro provide_pages_short) auto
      moreover have "fst (offer_pages callback (log2_pagesz s) (length zs) (Suc i) (map (addr_from_index s) (x # ys)) c') \<le> length zs"
        by (rule offer_pages_le)
      ultimately show ?thesis
        using st(2) [of callback "length ys" i c] Cons cb False provided_Suc [of callback "length ys" i x ys used_count s c]
        by (simp del: provide_pages.simps)
    qed
  qed
qed simp

lemma page_multiple:
  assumes "k < 64" and "n * 2 ^ k < 18446744073709551616"
  shows "(of_nat (n * 2 ^ k) :: u64) AND (push_bit k 1 - 1) = 0"
    and "unat (drop_bit k (of_nat (n * 2 ^ k) :: u64)) = n"
proof -
  have "push_bit k 1 - 1 = (mask k :: u64)" by (simp add: mask_eq_exp_minus_1)
  moreover have u: "unat (of_nat (n * 2 ^ k) :: u64) = n * 2 ^ k" using assms(2) by (rule unat_of_nat_64)
  have "unat ((of_nat (n * 2 ^ k) :: u64) AND mask k) = 0" by (simp only: unat_and_mask u) simp
  ultimately show "(of_nat (n * 2 ^ k) :: u64) AND (push_bit k 1 - 1) = 0" by (simp only: unat_eq_0)
  show "unat (drop_bit k (of_nat (n * 2 ^ k) :: u64)) = n" by (simp only: unat_drop_bit u) simp
qed

text \<open>
  C19. What \<open>alloc_multiple\<close> does for \<open>n > 0\<close> pages and any callback, by the length of the free chain.  The
  callback is called \<open>n\<close> times and is offered a page it declined again.  With at least \<open>n\<close> free pages, the
  \<open>u\<close> pages it takes are the first \<open>u\<close> of the chain; they are marked used once, the chain goes on at the page
  after them, and the count of free pages drops by \<open>u\<close>.  With fewer pages, but at least one, the result is false
  and nothing changes.  With no page, or with exactly \<open>n\<close> pages of which the first \<open>n - 1\<close> are taken at once, an
  assertion fails, although the comment promises false on failure: the end marker of the chain has the used bit set.
\<close>

theorem alloc_multiple_outcomes:
  assumes "phys_ok s xs" and "0 < n" and "n * 2 ^ log2_pagesz s < 18446744073709551616"
  defines "as \<equiv> map (addr_from_index s) xs"
  shows "alloc_multiple (of_nat (n * 2 ^ log2_pagesz s)) callback s c =
    (if xs = [] then None
     else if length xs < n then Some (False, s, c)
     else if length xs = n \<and> fst (offer_pages callback (log2_pagesz s) (n - 1) 0 as c) = n - 1 then None
     else case offer_pages callback (log2_pagesz s) n 0 as c of
       (u, c) \<Rightarrow> Some (True, s\<lparr> entries := mark_used (take u xs) (entries s), next_free := of_nat (xs ! u),
                               free_page_count := free_page_count s - of_nat u \<rparr>, c))"
proof -
  have g: "fchain (entries s) (next_free s) xs" "distinct xs" "set xs \<subseteq> {..<highest_usable s}"
    "highest_usable s \<le> 2147483648" "log2_pagesz s < 64"
    using assms(1) by (auto simp: phys_ok_def phys_geometry_def)
  then have small: "set xs \<subseteq> {..<2147483648}" by auto
  note sz = page_multiple [OF g(5) assms(3)]
  obtain q where q: "walk_free s n (next_free s) = Some (min n (length xs), q)"
      "fchain (entries s) q (drop n xs)"
    using walk_free_chain [OF g(1,3,4)] by blast
  show ?thesis
  proof (cases "xs = []")
    case True
    then show ?thesis using g(1) sz assms(2) minus_1_used by (simp add: alloc_multiple_def)
  next
    case False
    then have f: "next_free s AND used_mask = 0" using fchain_head(2) [OF g(1) small] by simp
    let ?s = "s\<lparr> next_free := q, free_page_count := free_page_count s - of_nat n \<rparr>"
    have ch: "fchain (entries ?s) (next_free s) xs" using g(1) by simp
    have same: "map (addr_from_index ?s) xs = as" "log2_pagesz ?s = log2_pagesz s" by (simp_all add: as_def addr_from_index_def)
    obtain u c' where u: "offer_pages callback (log2_pagesz s) n 0 as c = (u, c')" by fastforce
    have le: "u \<le> n" using offer_pages_le [of callback "log2_pagesz s" n 0 as c] u by simp
    have served: "alloc_multiple (of_nat (n * 2 ^ log2_pagesz s)) callback s c =
        Some (True, s\<lparr> entries := mark_used (take u xs) (entries s), next_free := of_nat (xs ! u),
          free_page_count := free_page_count s - of_nat u \<rparr>, c')"
      if p: "provide_pages callback n n 0 (next_free s) 0 ?s c = provided callback n 0 xs 0 ?s c" and l: "n \<le> length xs"
        and tail: "u = n \<Longrightarrow> q = of_nat (xs ! n)"
    proof (cases "u = n")
      case True
      then show ?thesis using sz f q l assms(2) p tail u [unfolded as_def] by (simp add: alloc_multiple_def Let_def provided_def)
    next
      case False
      then show ?thesis using sz f q l assms(2) p u [unfolded as_def] le by (simp add: alloc_multiple_def Let_def provided_def of_nat_diff)
    qed
    consider "n < length xs" | "n = length xs" | "length xs < n" by linarith
    then show ?thesis
    proof cases
      case 1
      have "q = of_nat (xs ! n)" using q(2) 1 by (simp add: Cons_nth_drop_Suc [symmetric])
      then show ?thesis using served [OF provide_pages_short [OF ch g(2) small]] 1 u False by simp
    next
      case 2
      note p = provide_pages_all [OF ch g(2) small, of 0 n callback 0 c, unfolded same]
      show ?thesis
      proof (cases "fst (offer_pages callback (log2_pagesz s) (n - 1) 0 as c) = n - 1")
        case True
        then show ?thesis using p sz f q 2 assms(2) False by (simp add: alloc_multiple_def Let_def)
      next
        case decl: False
        have "u \<noteq> n" using offer_pages_full [of callback "log2_pagesz s" "n - 1" 0 as c] decl u assms(2) by auto
        then show ?thesis using served p decl 2 False u by simp
      qed
    next
      case 3
      then show ?thesis using sz f q False assms(2) by (simp add: alloc_multiple_def Let_def)
    qed
  qed
qed

theorem alloc_multiple_outcomes_witness:
  "alloc_multiple 0x1000 (\<lambda>i lg a c. (True, c @ [a])) demo_phys [] =
     Some (True, demo_phys\<lparr> entries := mark_used [2] (entries demo_phys), next_free := 0,
       free_page_count := 1 \<rparr>, [0x102000])
   \<and> alloc_multiple 0x2000 (\<lambda>i lg a c. (True, c @ [a])) demo_phys [] = None
   \<and> alloc_multiple 0x2000 (\<lambda>i lg a c. (c \<noteq> [], c @ [a])) demo_phys [] =
     Some (True, demo_phys\<lparr> entries := mark_used [2] (entries demo_phys), next_free := 0,
       free_page_count := 1 \<rparr>, [0x102000, 0x102000])
   \<and> alloc_multiple 0x3000 (\<lambda>i lg a c. (True, c @ [a])) demo_phys [] = Some (False, demo_phys, [])"
proof -
  let ?cb = "\<lambda>i lg a c. (True, c @ [a])" and ?s = demo_phys
  have f: "log2_pagesz ?s = 12" "free_page_count ?s = 2" by (simp_all add: demo_phys_def)
  have a: "map (addr_from_index ?s) [2, 0] = [0x102000, 0x100000]" by (simp add: addr_from_index_def demo_phys_def)
  have o: "offer_pages ?cb 12 1 0 [0x102000, 0x100000] [] = (1, [0x102000])"
    "offer_pages (\<lambda>i lg a c. (c \<noteq> [], c @ [a])) 12 1 0 [0x102000, 0x100000] [] = (0, [0x102000])"
    "offer_pages (\<lambda>i lg a c. (c \<noteq> [], c @ [a])) 12 2 0 [0x102000, 0x100000] [] = (1, [0x102000, 0x102000])"
    by (simp_all add: numeral_2_eq_2)
  show ?thesis
    using alloc_multiple_outcomes [OF demo_phys_ok, of 1 ?cb "[]", unfolded f a o]
      alloc_multiple_outcomes [OF demo_phys_ok, of 2 ?cb "[]", unfolded f a]
      alloc_multiple_outcomes [OF demo_phys_ok, of 2 "\<lambda>i lg a c. (c \<noteq> [], c @ [a])" "[]", unfolded f a o]
      alloc_multiple_outcomes [OF demo_phys_ok, of 3 ?cb "[]", unfolded f a]
    by (simp add: o [simplified])
qed

end
