(* ===== verification/Utf.thy ===== *)
theory Utf
  imports Cstring
begin

text \<open>
  The Unicode conversions of \<^verbatim>\<open>user/libutf/utf.cc\<close>, which the kernel, the boot loader and the user
  library share.  UTF-8 text is read from the byte memory, UTF-16 text from a memory of 16-bit
  units; an encoder returns the units it writes, terminator included, with its result.  A
  pointer passed by reference is an extra argument and result.
\<close>

section \<open>Model\<close>

type_synonym mem16 = "u64 \<Rightarrow> u16"

text \<open>The lead byte marker: \<^verbatim>\<open>(signed char)0x80 >> shift\<close>, an arithmetic shift.\<close>

definition lead_mark :: "nat \<Rightarrow> u8" where
  "lead_mark shift = ucast (drop_bit shift (0xFF80 :: u16))"

fun utf8_tail :: "nat \<Rightarrow> u32 \<Rightarrow> u8 list" where
  "utf8_tail 0 ch = []"
| "utf8_tail (Suc shift) ch = ucast (0x80 OR (drop_bit (6 * shift) ch AND 0x3F)) # utf8_tail shift ch"

text \<open>The result and what is written to a non-null \<open>out\<close>.\<close>

definition ucs4_to_utf8 :: "u32 \<Rightarrow> nat \<times> u8 list" where
  "ucs4_to_utf8 ch =
    (if ch < 0x80 then (1, [ucast ch, 0])
     else if ch \<ge> 0x110000 then (0, [0])
     else let len = (if ch < 0x800 then 2 else if ch < 0x10000 then 3 else 4); shift = len - 1
          in (len, ucast (ucast (lead_mark shift) OR drop_bit (6 * shift) ch) # utf8_tail shift ch @ [0]))"

definition ucs4_to_utf16 :: "u32 \<Rightarrow> nat \<times> u16 list" where
  "ucs4_to_utf16 ch =
    (if (0 < ch \<and> ch < 0xD800) \<or> (0xDFFF < ch \<and> ch < 0x10000) then (1, [ucast ch, 0])
     else if 0xFFFF < ch \<and> ch < 0x110000 then
       let ch = ch - 0x10000
       in (2, [ucast (0xD800 + (drop_bit 10 ch AND 0x3FF)), ucast (0xDC00 + (ch AND 0x3FF)), 0])
     else (0, [0]))"

text \<open>
  One continuation byte of \<open>utf8_to_ucs4_upd\<close>: a byte that is not a continuation, and a
  terminator, turn the result into -1; a terminator is not passed.
\<close>

definition utf8_cont :: "mem \<Rightarrow> nat \<Rightarrow> u32 \<times> ptr \<Rightarrow> u32 \<times> ptr" where
  "utf8_cont m shift = (\<lambda>(n, p).
     let n = (if m p AND 0xC0 \<noteq> 0x80 then n OR - 1 else n)
     in if m p \<noteq> 0 then (n OR push_bit shift (ucast (m p AND 0x3F)), p + 1) else (n OR - 1, p))"

definition utf8_to_ucs4_upd :: "mem \<Rightarrow> ptr \<Rightarrow> u32 \<times> ptr" where
  "utf8_to_ucs4_upd m p =
    (if m p AND 0x80 = 0 then (ucast (m p AND 0x7F), p + 1)
     else if m p AND 0xE0 = 0xC0 then
       utf8_cont m 0 (push_bit 6 (ucast (m p AND 0x1F)), p + 1)
     else if m p AND 0xF0 = 0xE0 then
       utf8_cont m 0 (utf8_cont m 6 (push_bit 12 (ucast (m p AND 0x0F)), p + 1))
     else if m p AND 0xF8 = 0xF0 then
       utf8_cont m 0 (utf8_cont m 6 (utf8_cont m 12 (push_bit 18 (ucast (m p AND 0x07)), p + 1)))
     else (- 1, p + 1))"

definition utf8_to_ucs4 :: "mem \<Rightarrow> ptr \<Rightarrow> u32 \<times> ptr" where
  "utf8_to_ucs4 m p = utf8_to_ucs4_upd m p"

text \<open>The second component is the new \<open>ret_end\<close>, or \<open>None\<close> when it is left alone.\<close>

definition utf16_to_ucs4 :: "mem16 \<Rightarrow> ptr \<Rightarrow> u32 \<times> ptr option" where
  "utf16_to_ucs4 m p =
    (if m p < 0xD800 \<or> m p > 0xDFFF then (ucast (m p), Some (p + (if m p \<noteq> 0 then 1 else 0)))
     else if m p \<ge> 0xD800 \<and> m p \<le> 0xDBFF \<and> m (p + 1) \<ge> 0xDC00 \<and> m (p + 1) \<le> 0xDFFF then
       (push_bit 10 (ucast (m p - 0xD800)) OR (ucast (m (p + 1) - 0xDC00) AND 0x3FF), Some (p + 2))
     else (0, None))"

definition utf16_to_ucs4_upd :: "mem16 \<Rightarrow> ptr \<Rightarrow> u32 \<times> ptr" where
  "utf16_to_ucs4_upd m p =
    (case utf16_to_ucs4 m p of (ch, e) \<Rightarrow> (ch, case e of None \<Rightarrow> p | Some p \<Rightarrow> p))"

definition ntohs :: "u16 \<Rightarrow> u16" where
  "ntohs w = push_bit 8 w OR drop_bit 8 w"

definition utf16be_to_ucs4 :: "mem16 \<Rightarrow> ptr \<Rightarrow> u32 \<times> ptr option" where
  "utf16be_to_ucs4 m p =
    (let in0 = ntohs (m p) in
     if in0 < 0xD800 \<or> in0 > 0xDFFF then (ucast in0, Some (p + (if in0 \<noteq> 0 then 1 else 0)))
     else let in1 = ntohs (m (p + 1)) in
       if in0 \<ge> 0xD800 \<and> in0 \<le> 0xDBFF \<and> in1 \<ge> 0xDC00 \<and> in1 \<le> 0xDFFF then
         (push_bit 10 (ucast (in0 - 0xD800)) OR (ucast (in1 - 0xDC00) AND 0x3FF), Some (p + 2))
       else (0, None))"

text \<open>The continuation bytes of \<open>utf8_to_utf16\<close>; \<open>None\<close> for an invalid one.\<close>

fun utf8_continue :: "mem \<Rightarrow> nat \<Rightarrow> u32 \<Rightarrow> ptr \<Rightarrow> (u32 \<times> ptr) option" where
  "utf8_continue m 0 ch p = Some (ch, p)"
| "utf8_continue m (Suc len) ch p =
    (if m p AND 0xC0 = 0x80 then utf8_continue m len (push_bit 6 ch OR ucast (m p AND 0x3F)) (p + 1)
     else None)"

definition utf8_lead :: "u8 \<Rightarrow> (u32 \<times> nat) option" where
  "utf8_lead c =
    (if c AND 0xF8 = 0xF0 then Some (ucast (c AND 0x03), 4)
     else if c AND 0xF0 = 0xE0 then Some (ucast (c AND 0x07), 3)
     else if c AND 0xE0 = 0xC0 then Some (ucast (c AND 0x0F), 2)
     else None)"

text \<open>
  The loop of \<open>utf8_to_utf16\<close>: \<open>out\<close> holds the units written so far, \<open>room\<close> is the size of the
  output.  The result 0 is failure; text without a terminator is read forever.
\<close>

partial_function (option) utf8_to_utf16_loop ::
    "mem \<Rightarrow> nat \<Rightarrow> ptr \<Rightarrow> u16 list \<Rightarrow> (nat \<times> u16 list) option" where
  "utf8_to_utf16_loop m room p out =
    (if m p = 0 then
       (if length out \<ge> room then Some (0, out) else Some (length out, out @ [0]))
     else case utf8_lead (m p) of
       None \<Rightarrow>
         if m p AND 0x80 \<noteq> 0 then Some (0, out)
         else if length out < room then utf8_to_utf16_loop m room (p + 1) (out @ [ucast (m p)])
         else Some (0, out)
     | Some (ch, len) \<Rightarrow>
         (case utf8_continue m (len - 1) ch (p + 1) of
            None \<Rightarrow> Some (0, out)
          | Some (ch, p) \<Rightarrow>
              if 0xD800 \<le> ch \<and> ch < 0xE000 then Some (0, out)
              else if ch = 0 then Some (0, out)
              else if length out \<ge> room then Some (0, out)
              else if ch < 0x10000 then utf8_to_utf16_loop m room p (out @ [ucast ch])
              else if length out + 1 \<ge> room then Some (0, out)
              else let ch = ch - 0x10000
                   in utf8_to_utf16_loop m room p
                        (out @ [ucast (0xD800 + (drop_bit 10 ch AND 0x3FF)), ucast (0xDC00 + (ch AND 0x3FF))])))"

definition utf8_to_utf16 :: "mem \<Rightarrow> nat \<Rightarrow> ptr \<Rightarrow> (nat \<times> u16 list) option" where
  "utf8_to_utf16 m out_size_words p = utf8_to_utf16_loop m out_size_words p []"

partial_function (option) utf8_count_loop :: "mem \<Rightarrow> ptr \<Rightarrow> nat \<Rightarrow> nat option" where
  "utf8_count_loop m p count =
    (if m p = 0 then Some count else utf8_count_loop m (snd (utf8_to_ucs4_upd m p)) (count + 1))"

definition utf8_count :: "mem \<Rightarrow> ptr \<Rightarrow> nat option" where
  "utf8_count m p = utf8_count_loop m p 0"

partial_function (option) utf16_count_loop :: "mem16 \<Rightarrow> ptr \<Rightarrow> nat \<Rightarrow> nat option" where
  "utf16_count_loop m p count =
    (if m p = 0 then Some count else utf16_count_loop m (snd (utf16_to_ucs4_upd m p)) (count + 1))"

definition utf16_count :: "mem16 \<Rightarrow> ptr \<Rightarrow> nat option" where
  "utf16_count m p = utf16_count_loop m p 0"

text \<open>
  \<open>utf16_to_utf8\<close>: the bytes written are kept without the terminator that the next character
  overwrites; the last terminator stays.
\<close>

fun utf16_to_utf8_loop :: "mem16 \<Rightarrow> nat \<Rightarrow> nat \<Rightarrow> ptr \<Rightarrow> u8 list \<Rightarrow> u8 list \<times> ptr" where
  "utf16_to_utf8_loop m output_sz 0 p out = (out, p)"
| "utf16_to_utf8_loop m output_sz (Suc k) p out =
    (let (codepoint, p) = utf16_to_ucs4_upd m p;
         (need, bytes) = ucs4_to_utf8 codepoint
     in if length out + need > output_sz then (out, p)
        else utf16_to_utf8_loop m output_sz k p (out @ take need bytes))"

definition utf16_to_utf8 :: "mem16 \<Rightarrow> nat \<Rightarrow> ptr \<Rightarrow> nat \<Rightarrow> u8 list \<times> nat \<times> u64" where
  "utf16_to_utf8 m output_sz p input_sz =
    (let (out, p') = utf16_to_utf8_loop m output_sz input_sz p []
     in (out, length out, p' - p))"

text \<open>
  The overloads of \<open>tchar_to_utf8\<close>, \<open>tchar_to_utf16\<close> and \<open>tchar_strcmp_utf8\<close>.  Stepping
  back from position 0 wraps the unsigned size around, which ends the loop.
\<close>

fun back_to_boundary :: "mem \<Rightarrow> ptr \<Rightarrow> nat \<Rightarrow> nat \<Rightarrow> nat" where
  "back_to_boundary m p input_sz 0 =
    (if input_sz > 0 \<and> m p AND 0xC0 = 0x80 then 2 ^ 64 - 1 else 0)"
| "back_to_boundary m p input_sz (Suc sz) =
    (if input_sz > Suc sz \<and> m (p + of_nat (Suc sz)) AND 0xC0 = 0x80
     then back_to_boundary m p input_sz sz else Suc sz)"

definition tchar_to_utf8_char :: "mem \<Rightarrow> ptr \<Rightarrow> nat \<Rightarrow> ptr \<Rightarrow> nat \<Rightarrow> mem \<times> nat" where
  "tchar_to_utf8_char m output output_sz input input_sz =
    (let sz = back_to_boundary m input input_sz (if input_sz < output_sz then input_sz else output_sz)
     in (fst (strncpy m output input (of_nat sz)), sz))"

partial_function (option) tchar_to_utf16_loop :: "mem \<Rightarrow> ptr \<Rightarrow> u16 list \<Rightarrow> (u16 list \<times> ptr) option" where
  "tchar_to_utf16_loop m p out =
    (case utf8_to_ucs4_upd m p of (codepoint, p) \<Rightarrow>
     case ucs4_to_utf16 codepoint of (n, units) \<Rightarrow>
       if codepoint = 0 then Some (out @ take n units, p)
       else tchar_to_utf16_loop m p (out @ take n units))"

definition tchar_to_utf16_char :: "mem \<Rightarrow> ptr \<Rightarrow> (nat \<times> u64) option" where
  "tchar_to_utf16_char m p =
     map_option (\<lambda>(out, p'). (length out, p' - p)) (tchar_to_utf16_loop m p [])"

fun copy16_loop :: "mem16 \<Rightarrow> ptr \<Rightarrow> ptr \<Rightarrow> nat \<Rightarrow> u64 \<Rightarrow> mem16 \<times> u64" where
  "copy16_loop m output input 0 i = (m, i)"
| "copy16_loop m output input (Suc k) i =
    (let m' = m(output + i := m (input + i))
     in if m (input + i) = 0 then (m', i) else copy16_loop m' output input k (i + 1))"

definition tchar_to_utf16_char16 :: "mem16 \<Rightarrow> ptr \<Rightarrow> u64 \<Rightarrow> ptr \<Rightarrow> u64 \<Rightarrow> mem16 \<times> u64" where
  "tchar_to_utf16_char16 m output output_sz input input_sz =
    (let (m, i) = copy16_loop m output input (min (unat output_sz) (unat input_sz)) 0;
         i = (if i = output_sz then i - 1 else i)
     in (m(output + i := 0), i))"

definition tchar_to_utf8_char16 :: "mem16 \<Rightarrow> nat \<Rightarrow> ptr \<Rightarrow> nat \<Rightarrow> u8 list \<times> nat \<times> u64" where
  "tchar_to_utf8_char16 m output_sz p input_sz = utf16_to_utf8 m output_sz p input_sz"

partial_function (option) tchar_strcmp_utf8_loop :: "mem16 \<Rightarrow> ptr \<Rightarrow> mem \<Rightarrow> ptr \<Rightarrow> u32 option" where
  "tchar_strcmp_utf8_loop ml lhs mr rhs =
    (case utf16_to_ucs4_upd ml lhs of (lhs_codepoint, lhs) \<Rightarrow>
     case utf8_to_ucs4_upd mr rhs of (rhs_codepoint, rhs) \<Rightarrow>
       let diff = lhs_codepoint - rhs_codepoint
       in if diff = 0 \<and> lhs_codepoint \<noteq> 0 \<and> rhs_codepoint \<noteq> 0
          then tchar_strcmp_utf8_loop ml lhs mr rhs else Some diff)"

section \<open>Lemmas\<close>

subsection \<open>Bytes of a character\<close>

lemma lead_mark_values: "lead_mark (Suc 0) = 0xC0" "lead_mark 2 = 0xE0" "lead_mark 3 = 0xF0"
  by (simp_all add: lead_mark_def)

lemma no_high_bits:
  fixes ch :: u32
  assumes "unat ch < 2 ^ k" and "k \<le> n"
  shows "\<not> bit ch n"
  using assms ge_power_iff_bit [of k ch] by auto

lemma bit_below: "unat (ch :: u32) < 2 ^ k \<Longrightarrow> bit ch n \<Longrightarrow> n < k"
  using no_high_bits [of ch k n] by (cases "k \<le> n") auto

lemma less_8_cases: "n < 8 \<Longrightarrow> n = 0 \<or> n = 1 \<or> n = 2 \<or> n = 3 \<or> n = 4 \<or> n = 5 \<or> n = 6 \<or> n = (7 :: nat)"
  by linarith

lemma cont_byte:
  fixes ch :: u32 and k :: nat
  defines "b \<equiv> ucast (0x80 OR (drop_bit k ch AND 0x3F)) :: u8"
  shows "b AND 0xC0 = 0x80" "b \<noteq> 0" "b AND 0x3F = ucast (drop_bit k ch) AND 0x3F"
proof -
  show c: "b AND 0xC0 = 0x80"
    by (rule bit_word_eqI) (auto simp: b_def bit_simps dest!: less_8_cases)
  then show "b \<noteq> 0" by auto
  show "b AND 0x3F = ucast (drop_bit k ch) AND 0x3F"
    by (rule bit_word_eqI) (auto simp: b_def bit_simps dest!: less_8_cases)
qed

lemma and_128: "(b :: u8) AND 0x80 = 0 \<longleftrightarrow> \<not> bit b 7"
  using bit_iff_and_push_bit_not_eq_0 [of b 7] by simp

lemma lead_byte_2:
  assumes "unat ch < 2 ^ 11"
  defines "b \<equiv> ucast (ucast (lead_mark (Suc 0)) OR drop_bit 6 (ch :: u32)) :: u8"
  shows "bit b 7" "b AND 0xE0 = 0xC0" "b AND 0x1F = ucast (drop_bit 6 ch)"
proof -
  show "b AND 0xE0 = 0xC0" "b AND 0x1F = ucast (drop_bit 6 ch)"
    by (rule bit_word_eqI,
        auto simp: b_def lead_mark_values bit_simps no_high_bits [OF assms(1)] dest!: less_8_cases)+
  show "bit b 7" by (simp add: b_def lead_mark_values bit_simps)
qed

lemma lead_byte_3:
  assumes "unat ch < 2 ^ 16"
  defines "b \<equiv> ucast (ucast (lead_mark 2) OR drop_bit 12 (ch :: u32)) :: u8"
  shows "bit b 7" "b AND 0xE0 = 0xE0" "b AND 0xF0 = 0xE0" "b AND 0x0F = ucast (drop_bit 12 ch)"
proof -
  show "b AND 0xE0 = 0xE0" "b AND 0xF0 = 0xE0" "b AND 0x0F = ucast (drop_bit 12 ch)"
    by (rule bit_word_eqI,
        auto simp: b_def lead_mark_values bit_simps no_high_bits [OF assms(1)] dest!: less_8_cases)+
  show "bit b 7" by (simp add: b_def lead_mark_values bit_simps)
qed

lemma lead_byte_4:
  assumes "unat ch < 2 ^ 21"
  defines "b \<equiv> ucast (ucast (lead_mark 3) OR drop_bit 18 (ch :: u32)) :: u8"
  shows "bit b 7" "b AND 0xE0 = 0xE0" "b AND 0xF0 = 0xF0" "b AND 0xF8 = 0xF0" "b AND 0x07 = ucast (drop_bit 18 ch)"
proof -
  show "b AND 0xE0 = 0xE0" "b AND 0xF0 = 0xF0" "b AND 0xF8 = 0xF0" "b AND 0x07 = ucast (drop_bit 18 ch)"
    by (rule bit_word_eqI,
        auto simp: b_def lead_mark_values bit_simps no_high_bits [OF assms(1)] dest!: less_8_cases)+
  show "bit b 7" by (simp add: b_def lead_mark_values bit_simps)
qed

text \<open>The six-bit groups of a character put together again.\<close>

abbreviation group6 :: "nat \<Rightarrow> u32 \<Rightarrow> u32" where
  "group6 k ch \<equiv> push_bit k (ucast (ucast (drop_bit k ch) AND (0x3F :: u8)))"

lemma and_63: "(w :: u8) AND 0x3F = take_bit 6 w"
  by (simp add: take_bit_eq_mask mask_numeral)

lemma bit_group6: "bit (group6 k ch) n \<longleftrightarrow> k \<le> n \<and> n < k + 6 \<and> bit ch n"
  unfolding and_63 using bit_imp_le_length [of ch n] by (auto simp: bit_simps)

lemma bit_lead_group:
  fixes ch :: u32
  shows "bit (push_bit k (ucast (ucast (drop_bit k ch) :: u8)) :: u32) n \<longleftrightarrow> k \<le> n \<and> n < k + 8 \<and> bit ch n"
  using bit_imp_le_length [of ch n] by (auto simp: bit_simps)

lemma join_groups_2:
  assumes "unat ch < 2 ^ 11"
  shows "push_bit 6 (ucast (ucast (drop_bit 6 ch) :: u8)) OR group6 0 ch = ch"
proof (rule bit_word_eqI)
  fix n
  have "bit ch n \<Longrightarrow> n < 11" by (rule bit_below [OF assms])
  then show "bit (push_bit 6 (ucast (ucast (drop_bit 6 ch) :: u8)) OR group6 0 ch) n = bit ch n"
    by (simp only: bit_or_iff bit_group6 bit_lead_group) linarith
qed

lemma join_groups_3:
  assumes "unat ch < 2 ^ 16"
  shows "push_bit 12 (ucast (ucast (drop_bit 12 ch) :: u8)) OR group6 6 ch OR group6 0 ch = ch"
proof (rule bit_word_eqI)
  fix n
  have "bit ch n \<Longrightarrow> n < 16" by (rule bit_below [OF assms])
  then show "bit (push_bit 12 (ucast (ucast (drop_bit 12 ch) :: u8)) OR group6 6 ch OR group6 0 ch) n = bit ch n"
    by (simp only: bit_or_iff bit_group6 bit_lead_group) linarith
qed

lemma join_groups_4:
  assumes "unat ch < 2 ^ 21"
  shows "push_bit 18 (ucast (ucast (drop_bit 18 ch) :: u8)) OR group6 12 ch OR group6 6 ch OR group6 0 ch = ch"
proof (rule bit_word_eqI)
  fix n
  have "bit ch n \<Longrightarrow> n < 21" by (rule bit_below [OF assms])
  then show "bit (push_bit 18 (ucast (ucast (drop_bit 18 ch) :: u8)) OR group6 12 ch OR group6 6 ch OR group6 0 ch) n
      = bit ch n"
    by (simp only: bit_or_iff bit_group6 bit_lead_group) linarith
qed

subsection \<open>UTF-8 round trip\<close>

lemma utf8_cont_step:
  assumes "m q = ucast (0x80 OR (drop_bit k ch AND (0x3F :: u32)))"
  shows "utf8_cont m k (n, q) = (n OR group6 k ch, q + 1)"
  using cont_byte [of k ch] by (simp add: utf8_cont_def assms Let_def)

lemma decode_1:
  assumes "unat (ch :: u32) < 2 ^ 7" and "m p = ucast ch"
  shows "utf8_to_ucs4_upd m p = (ch, p + 1)"
proof -
  have "\<not> bit (ucast ch :: u8) 7" using no_high_bits [OF assms(1), of 7] by (simp add: bit_simps)
  moreover have "(ucast (ucast ch AND (0x7F :: u8)) :: u32) = ch"
  proof (rule bit_word_eqI)
    fix n
    have "(ucast ch AND (0x7F :: u8)) = take_bit 7 (ucast ch)" by (simp add: take_bit_eq_mask mask_numeral)
    then show "bit (ucast (ucast ch AND (0x7F :: u8)) :: u32) n = bit ch n"
      using bit_below [OF assms(1), of n] by (auto simp: bit_simps)
  qed
  ultimately show ?thesis by (simp add: utf8_to_ucs4_upd_def assms(2) and_128)
qed

lemma decode_2:
  assumes "unat ch < 2 ^ 11" and "m p = ucast (ucast (lead_mark (Suc 0)) OR drop_bit 6 ch)"
    and "m (p + 1) = ucast (0x80 OR (drop_bit 0 ch AND (0x3F :: u32)))"
  shows "utf8_to_ucs4_upd m p = (ch, p + 2)"
  using lead_byte_2 [OF assms(1)] join_groups_2 [OF assms(1)] utf8_cont_step [of m "p + 1" 0 ch, OF assms(3)]
  by (simp add: utf8_to_ucs4_upd_def assms(2) and_128 add.assoc)

lemma decode_3:
  assumes "unat ch < 2 ^ 16" and "m p = ucast (ucast (lead_mark 2) OR drop_bit 12 ch)"
    and "m (p + 1) = ucast (0x80 OR (drop_bit 6 ch AND (0x3F :: u32)))"
    and "m (p + 1 + 1) = ucast (0x80 OR (drop_bit 0 ch AND (0x3F :: u32)))"
  shows "utf8_to_ucs4_upd m p = (ch, p + 3)"
  using lead_byte_3 [OF assms(1)] join_groups_3 [OF assms(1)]
    utf8_cont_step [of m "p + 1" 6 ch, OF assms(3)] utf8_cont_step [of m "p + 1 + 1" 0 ch, OF assms(4)]
  by (simp add: utf8_to_ucs4_upd_def assms(2) and_128 add.assoc or.assoc)

lemma decode_4:
  assumes "unat ch < 2 ^ 21" and "m p = ucast (ucast (lead_mark 3) OR drop_bit 18 ch)"
    and "m (p + 1) = ucast (0x80 OR (drop_bit 12 ch AND (0x3F :: u32)))"
    and "m (p + 1 + 1) = ucast (0x80 OR (drop_bit 6 ch AND (0x3F :: u32)))"
    and "m (p + 1 + 1 + 1) = ucast (0x80 OR (drop_bit 0 ch AND (0x3F :: u32)))"
  shows "utf8_to_ucs4_upd m p = (ch, p + 4)"
  using lead_byte_4 [OF assms(1)] join_groups_4 [OF assms(1)]
    utf8_cont_step [of m "p + 1" 12 ch, OF assms(3)] utf8_cont_step [of m "p + 1 + 1" 6 ch, OF assms(4)]
    utf8_cont_step [of m "p + 1 + 1 + 1" 0 ch, OF assms(5)]
  by (simp add: utf8_to_ucs4_upd_def assms(2) and_128 add.assoc or.assoc)

lemmas utf8_tail_numeral [simp] =
  utf8_tail.simps(2) [of "pred_numeral k" for k, folded numeral_eq_Suc]

lemma utf8_encode:
  "ch < 0x80 \<Longrightarrow> ucs4_to_utf8 ch = (1, [ucast ch, 0])"
  "\<not> ch < 0x80 \<Longrightarrow> ch < 0x800 \<Longrightarrow> ucs4_to_utf8 ch =
     (2, [ucast (ucast (lead_mark (Suc 0)) OR drop_bit 6 ch), ucast (0x80 OR (drop_bit 0 ch AND 0x3F)), 0])"
  "\<not> ch < 0x800 \<Longrightarrow> ch < 0x10000 \<Longrightarrow> ucs4_to_utf8 ch =
     (3, [ucast (ucast (lead_mark 2) OR drop_bit 12 ch), ucast (0x80 OR (drop_bit 6 ch AND 0x3F)),
          ucast (0x80 OR (drop_bit 0 ch AND 0x3F)), 0])"
  "\<not> ch < 0x10000 \<Longrightarrow> ch < 0x110000 \<Longrightarrow> ucs4_to_utf8 ch =
     (4, [ucast (ucast (lead_mark 3) OR drop_bit 18 ch), ucast (0x80 OR (drop_bit 12 ch AND 0x3F)),
          ucast (0x80 OR (drop_bit 6 ch AND 0x3F)), ucast (0x80 OR (drop_bit 0 ch AND 0x3F)), 0])"
  by (auto simp: ucs4_to_utf8_def Let_def word_less_nat_alt word_le_nat_alt)



subsection \<open>UTF-16\<close>

lemma unat_ucast_32_16: "unat (w :: u32) < 65536 \<Longrightarrow> unat (ucast w :: u16) = unat w"
  by (simp add: unsigned_ucast_eq take_bit_nat_eq_self)

lemma and_1023: "(w :: u32) AND 0x3FF = take_bit 10 w"
  by (simp add: take_bit_eq_mask mask_numeral)

lemma unat_and_1023: "unat ((w :: u32) AND 0x3FF) < 1024"
  using unat_and_mask [of w 10] by (simp add: mask_numeral)

lemma surrogate_unit:
  assumes "unat v < 1024" and "base = 0xD800 \<or> base = 0xDC00"
  defines "s \<equiv> ucast (ucast base + v :: u32) :: u16"
  shows "unat s = unat base + unat v" "ucast (s - base) = v"
proof -
  have u: "unat (ucast base + v :: u32) = unat base + unat v"
    using assms(1,2) by (auto simp: unat_word_ariths)
  then show s: "unat s = unat base + unat v"
    unfolding s_def using assms(1,2) by (subst unat_ucast_32_16) auto
  have "base \<le> s" using s by (simp add: word_le_nat_alt)
  then have d: "unat (s - base) = unat v" using s by (simp add: unat_sub)
  have "unat (ucast (s - base) :: u32) = unat (s - base)"
    using d assms(1) by (simp add: unsigned_ucast_eq take_bit_nat_eq_self)
  then show "ucast (s - base) = v" using d by (simp add: word_unat_eq_iff)
qed

lemma join_surrogates:
  assumes "unat x < 2 ^ 20"
  shows "push_bit 10 (drop_bit 10 x AND 0x3FF) OR ((x AND 0x3FF) AND 0x3FF) = (x :: u32)"
proof (rule bit_word_eqI)
  fix n
  have "bit x n \<Longrightarrow> n < 20" by (rule bit_below [OF assms])
  then show "bit (push_bit 10 (drop_bit 10 x AND 0x3FF) OR ((x AND 0x3FF) AND 0x3FF)) n = bit x n"
    using bit_imp_le_length [of x n] unfolding and_1023 by (auto simp: bit_simps)
qed

lemma utf16_decode_bmp:
  assumes "(0 < ch \<and> ch < 0xD800) \<or> (0xDFFF < ch \<and> ch < (0x10000 :: u32))" and "m p = ucast ch"
  shows "utf16_to_ucs4_upd m p = (ch, p + 1)"
proof -
  have b: "unat ch < 65536" "unat ch < 0xD800 \<or> unat ch > 0xDFFF" "0 < unat ch"
    using assms(1) by (auto simp: word_less_nat_alt)
  then have u: "unat (m p) = unat ch" using assms(2) by (simp add: unat_ucast_32_16)
  then have "m p < 0xD800 \<or> m p > 0xDFFF" "m p \<noteq> 0" using b by (auto simp: word_less_nat_alt)
  moreover have "(ucast (m p) :: u32) = ch"
    using u by (simp add: word_unat_eq_iff unsigned_ucast_eq take_bit_nat_eq_self)
  ultimately show ?thesis by (auto simp: utf16_to_ucs4_upd_def utf16_to_ucs4_def)
qed

lemma utf16_decode_pair:
  assumes "unat x < 2 ^ 20" and "m p = ucast (0xD800 + (drop_bit 10 x AND (0x3FF :: u32)))"
    and "m (p + 1) = ucast (0xDC00 + (x AND (0x3FF :: u32)))"
  shows "utf16_to_ucs4_upd m p = (x, p + 2)"
proof -
  have hi: "unat (m p) = 0xD800 + unat (drop_bit 10 x AND 0x3FF)" "ucast (m p - 0xD800) = drop_bit 10 x AND 0x3FF"
    using surrogate_unit [OF unat_and_1023 disjI1 [OF refl], of "drop_bit 10 x"] assms(2) by simp_all
  have lo: "unat (m (p + 1)) = 0xDC00 + unat (x AND 0x3FF)" "ucast (m (p + 1) - 0xDC00) = x AND 0x3FF"
    using surrogate_unit [OF unat_and_1023 disjI2 [OF refl], of x] assms(3) by simp_all
  have "\<not> (m p < 0xD800 \<or> m p > 0xDFFF)" "m p \<ge> 0xD800" "m p \<le> 0xDBFF" "m (p + 1) \<ge> 0xDC00" "m (p + 1) \<le> 0xDFFF"
    using hi(1) lo(1) unat_and_1023 [of "drop_bit 10 x"] unat_and_1023 [of x]
    by (auto simp: word_less_nat_alt word_le_nat_alt simp del: unat_and_1023)
  then show ?thesis
    using hi(2) lo(2) join_surrogates [OF assms(1)] by (simp add: utf16_to_ucs4_upd_def utf16_to_ucs4_def)
qed

text \<open>
  C35. UTF-16: a character of the basic plane decodes to itself, but a surrogate pair decodes to the
  character less 0x10000, because \<open>utf16_to_ucs4\<close> does not add the offset that \<open>ucs4_to_utf16\<close>
  subtracts.  In both cases the pointer advances by the number of units written.
\<close>

theorem utf16_roundtrip_by_plane:
  assumes "ucs4_to_utf16 ch = (n, units)" and "n \<noteq> 0" and "\<forall>i<n. m (p + of_nat i) = units ! i"
  shows "utf16_to_ucs4_upd m p = (if ch < 0x10000 then ch else ch - 0x10000, p + of_nat n)"
proof (cases "(0 < ch \<and> ch < 0xD800) \<or> (0xDFFF < ch \<and> ch < 0x10000)")
  case True
  then have "ch < 0x10000" by (auto simp: word_less_nat_alt)
  moreover have "n = 1" "m p = ucast ch" using assms True by (auto simp: ucs4_to_utf16_def)
  ultimately show ?thesis using utf16_decode_bmp [OF True] by simp
next
  case False
  then have c: "0xFFFF < ch \<and> ch < 0x110000" using assms(1,2) by (auto simp: ucs4_to_utf16_def split: if_splits)
  then have nlt: "\<not> ch < 0x10000" by (simp add: word_less_nat_alt)
  then have "unat (ch - 0x10000) = unat ch - 0x10000" by (simp add: unat_sub not_less)
  then have x: "unat (ch - 0x10000) < 2 ^ 20" using c by (auto simp: word_less_nat_alt)
  have n: "n = 2" "units = [ucast (0xD800 + (drop_bit 10 (ch - 0x10000) AND 0x3FF)), ucast (0xDC00 + ((ch - 0x10000) AND 0x3FF)), 0]"
    using assms(1) False c by (auto simp: ucs4_to_utf16_def Let_def)
  have "m p = units ! 0" "m (p + 1) = units ! 1"
    using assms(3) [rule_format, of 0] assms(3) [rule_format, of 1] n(1) by simp_all
  then show ?thesis using utf16_decode_pair [OF x, of m p] n nlt by simp
qed

theorem utf16_roundtrip_by_plane_witness:
  "utf16_to_ucs4_upd ((\<lambda>_. 0)(8 := 0xD83D, 9 := 0xDE00)) 8 = (0xF600, 10)"
  using utf16_roundtrip_by_plane [of "0x1F600" 2 "[0xD83D, 0xDE00, 0]" "(\<lambda>_. 0)(8 := 0xD83D, 9 := 0xDE00)" 8]
  by (simp add: ucs4_to_utf16_def less_2_cases_iff all_conj_distrib imp_conjR)

subsection \<open>UTF-8 to UTF-16\<close>

lemma lead_2_utf16:
  assumes "unat ch < 2 ^ 11" and "\<not> ch < 0x80"
  defines "b \<equiv> ucast (ucast (lead_mark (Suc 0)) OR drop_bit 6 (ch :: u32)) :: u8"
  shows "utf8_lead b = Some (ucast (b AND 0x0F), 2)" "b \<noteq> 0"
    "push_bit 6 (ucast (b AND 0x0F)) OR ucast (ucast (drop_bit 0 ch) AND (0x3F :: u8)) = ch AND 0x3FF"
proof -
  have e: "b AND 0xE0 = 0xC0" using lead_byte_2(2) [OF assms(1)] by (simp add: b_def)
  have n5: "\<not> bit b 5" using no_high_bits [OF assms(1), of 11] by (simp add: b_def lead_mark_values bit_simps)
  have "b AND 0xF8 \<noteq> 0xF0"
  proof
    assume "b AND 0xF8 = 0xF0"
    then have "bit (b AND 0xF8) 5" by simp
    then show False using n5 by (simp add: bit_and_iff)
  qed
  moreover have "b AND 0xF0 \<noteq> 0xE0"
  proof
    assume "b AND 0xF0 = 0xE0"
    then have "bit (b AND 0xF0) 5" by simp
    then show False using n5 by (simp add: bit_and_iff)
  qed
  ultimately show "utf8_lead b = Some (ucast (b AND 0x0F), 2)" using e by (simp add: utf8_lead_def)
  show "b \<noteq> 0" using e by auto
  have "b AND 0x0F = (b AND 0x1F) AND 0x0F" by (simp add: and.assoc)
  also have "\<dots> = take_bit 4 (ucast (drop_bit 6 ch))"
    using lead_byte_2(3) [OF assms(1)] by (simp add: b_def take_bit_eq_mask mask_numeral)
  finally show "push_bit 6 (ucast (b AND 0x0F)) OR ucast (ucast (drop_bit 0 ch) AND (0x3F :: u8)) = ch AND 0x3FF"
    unfolding and_63 and_1023 by (intro bit_word_eqI) (auto simp: bit_simps)
qed

text \<open>
  \<open>utf8_to_utf16\<close> masks the lead byte of a two-byte character with 0x0F, one bit short: the
  well-formed UTF-8 of a character below 0x800 comes out as the character without its bit 10.  It
  is right below 0x400, and every character from 0x401 to 0x7FF becomes the character 0x400 lower.
\<close>

theorem utf8_to_utf16_drops_bit_10:
  assumes "\<not> ch < 0x80" and "ch < 0x800" and "ch AND 0x3FF \<noteq> 0"
    and "bytes_at m p 3 = snd (ucs4_to_utf8 ch)" and "2 \<le> room"
  shows "utf8_to_utf16 m room p = Some (1, [ucast (ch AND 0x3FF), 0])"
proof -
  have u: "unat ch < 2 ^ 11" using assms(2) by (simp add: word_less_nat_alt)
  have m: "m p = ucast (ucast (lead_mark (Suc 0)) OR drop_bit 6 ch)"
      "m (p + 1) = ucast (0x80 OR (drop_bit 0 ch AND 0x3F))" "m (p + 1 + 1) = 0"
    using assms(4) utf8_encode(2) [OF assms(1,2)] by (simp_all add: add.assoc)
  note l = lead_2_utf16 [OF u assms(1)]
  have "utf8_continue m 1 (ucast (m p AND 0x0F)) (p + 1) = Some (ch AND 0x3FF, p + 1 + 1)"
    using cont_byte [of 0 ch] l(3) m by simp
  moreover have "\<not> (0xD800 \<le> ch AND 0x3FF \<and> ch AND 0x3FF < 0xE000)" "ch AND 0x3FF < 0x10000"
    using unat_and_1023 [of ch] by (auto simp: word_le_nat_alt word_less_nat_alt)
  ultimately have "utf8_to_utf16 m room p = utf8_to_utf16_loop m room (p + 1 + 1) [ucast (ch AND 0x3FF)]"
    using l(1,2) assms(3,5) unfolding utf8_to_utf16_def
    by (subst utf8_to_utf16_loop.simps) (auto simp: m(1) [symmetric])
  then show ?thesis using m(3) assms(5) by (simp add: utf8_to_utf16_loop.simps)
qed

theorem utf8_to_utf16_drops_bit_10_witness:
  "utf8_to_utf16 (store_bytes (\<lambda>_. 0xFF) 16 [0xD0, 0x96, 0]) 4 16 = Some (1, [0x16, 0])"
  using utf8_to_utf16_drops_bit_10 [where ch = "0x416" and m = "store_bytes (\<lambda>_. 0xFF) 16 [0xD0, 0x96, 0]"
      and p = 16 and room = 4]
  by (simp add: ucs4_to_utf8_def lead_mark_values)

subsection \<open>Counting characters\<close>

lemma cstr_step: "cstr m q ys \<Longrightarrow> m q \<noteq> 0 \<Longrightarrow> \<exists>z zs. ys = z # zs \<and> cstr m (q + 1) zs"
  by (cases ys) auto

text \<open>The decoder never passes the terminator: it stops at a suffix of the string.\<close>

definition at_suffix :: "mem \<Rightarrow> u8 list \<Rightarrow> ptr \<Rightarrow> bool" where
  "at_suffix m ys q \<longleftrightarrow> (\<exists>k\<le>length ys. cstr m q (drop k ys))"

lemma utf8_cont_suffix: "at_suffix m ys q \<Longrightarrow> at_suffix m ys (snd (utf8_cont m s (n, q)))"
proof -
  assume "at_suffix m ys q"
  then obtain k where k: "k \<le> length ys" "cstr m q (drop k ys)" by (auto simp: at_suffix_def)
  show ?thesis
  proof (cases "m q = 0")
    case True
    then show ?thesis using k by (auto simp: utf8_cont_def Let_def at_suffix_def)
  next
    case False
    then obtain z zs where z: "drop k ys = z # zs" "cstr m (q + 1) zs" using cstr_step k by blast
    then have "zs = drop (Suc k) ys" "Suc k \<le> length ys"
      by (metis drop_Suc list.sel(3) tl_drop, metis Suc_leI drop_eq_Nil linorder_not_le list.distinct(1))
    then show ?thesis using z False by (auto simp: utf8_cont_def Let_def at_suffix_def)
  qed
qed

lemma utf8_upd_suffix:
  assumes "cstr m p (x # xs)"
  shows "at_suffix m xs (snd (utf8_to_ucs4_upd m p))"
proof -
  have start: "at_suffix m xs (p + 1)" using assms by (auto simp: at_suffix_def intro: exI [of _ 0])
  have cont: "at_suffix m xs (snd (utf8_cont m s y))" if "at_suffix m xs (snd y)" for s y
    using utf8_cont_suffix [of m xs "snd y" s "fst y"] that by simp
  show ?thesis unfolding utf8_to_ucs4_upd_def using start
    by (auto intro!: cont)
qed

text \<open>
  \<open>utf8_count\<close> returns on every terminated string, valid UTF-8 or not, and the count is at most
  the number of bytes: the decoder always advances and never passes the terminator.
\<close>

theorem utf8_count_returns:
  assumes "cstr m p xs"
  shows "\<exists>n. utf8_count m p = Some n \<and> n \<le> length xs \<and> (xs \<noteq> [] \<longrightarrow> 0 < n)"
proof -
  have "\<exists>n. utf8_count_loop m p c = Some n \<and> c \<le> n \<and> n \<le> c + length xs \<and> (xs \<noteq> [] \<longrightarrow> c < n)"
    if "cstr m p xs" for p c
    using that
  proof (induction "length xs" arbitrary: p c xs rule: less_induct)
    case less
    show ?case
    proof (cases xs)
      case Nil
      then show ?thesis using less.prems by (simp add: utf8_count_loop.simps)
    next
      case (Cons y ys)
      then obtain k where k: "k \<le> length ys" "cstr m (snd (utf8_to_ucs4_upd m p)) (drop k ys)"
        using utf8_upd_suffix [of m p y ys] less.prems by (auto simp: at_suffix_def)
      have "m p \<noteq> 0" using less.prems Cons by auto
      moreover obtain n where "utf8_count_loop m (snd (utf8_to_ucs4_upd m p)) (c + 1) = Some n"
          "c + 1 \<le> n" "n \<le> c + 1 + length (drop k ys)"
        using less.hyps [of "drop k ys", OF _ k(2), of "c + 1"] Cons by (auto simp: less_Suc_eq_le)
      ultimately show ?thesis using Cons by (simp add: utf8_count_loop.simps [of m p])
    qed
  qed
  from this [OF assms, of 0] show ?thesis by (auto simp: utf8_count_def)
qed

theorem utf8_count_returns_witness:
  "\<exists>n. utf8_count ((\<lambda>_. 0)(8 := 0xE2, 9 := 0x41)) 8 = Some n
    \<and> n \<le> length [0xE2, 0x41 :: u8] \<and> 0 < n"
  using utf8_count_returns [of "(\<lambda>_. 0)(8 := 0xE2, 9 := 0x41)" 8 "[0xE2, 0x41]"] by simp

text \<open>
  \<open>utf16_count\<close> never returns once it meets an unpaired surrogate: \<open>utf16_to_ucs4\<close> leaves the
  pointer where it is on the error path.
\<close>

theorem utf16_count_hangs:
  assumes "0xD800 \<le> m p" and "m p \<le> 0xDFFF"
    and "\<not> (m p \<le> 0xDBFF \<and> 0xDC00 \<le> m (p + 1) \<and> m (p + 1) \<le> 0xDFFF)"
  shows "utf16_count m p = None"
proof -
  have stay: "snd (utf16_to_ucs4_upd m p) = p" and nz: "m p \<noteq> 0"
    using assms by (auto simp: utf16_to_ucs4_upd_def utf16_to_ucs4_def not_less [symmetric])
  have "m = m \<longrightarrow> q \<noteq> p" if "utf16_count_loop m q c = Some y" for q c y
    by (rule utf16_count_loop.raw_induct [where P = "\<lambda>m' q c y. m' = m \<longrightarrow> q \<noteq> p", OF _ that])
       (auto simp: stay nz, blast)
  then show ?thesis by (cases "utf16_count_loop m p 0") (auto simp: utf16_count_def)
qed

theorem utf16_count_hangs_witness:
  "utf16_count ((\<lambda>_. 0)(8 := 0xD83D, 9 := 0x41)) 8 = None"
  using utf16_count_hangs [of "(\<lambda>_. 0)(8 := 0xD83D, 9 := 0x41)" 8] by simp

end
