(* ===== verification/Hash_Table.thy ===== *)
theory Hash_Table
  imports Cstring
begin

text \<open>
  The open addressing hash table of \<^verbatim>\<open>kernel/lib/hash_table.h\<close> for plain pointers
  (\<^verbatim>\<open>hashtbl_t\<close>) and the hash functions of \<^verbatim>\<open>kernel/lib/hash.h\<close>.  A slot holds a pointer, null for
  a free slot and 1 for a hole left by a deletion.  The keys are read from the byte memory: the
  template arguments \<^verbatim>\<open>key_member\<close> and \<^verbatim>\<open>key_sz\<close> are the record \<open>tbl_type\<close>.  Whether
  \<^verbatim>\<open>vector::resize\<close> finds memory is the argument \<open>resize\<close>.

  The table is shown to refine a finite map from keys to items, and its probe sequences never
  to lose an item, also across holes, growing and rehashing.
\<close>

section \<open>Model\<close>

definition hash_32_step :: "u32 \<Rightarrow> u8 \<Rightarrow> u32" where
  "hash_32_step hash b =
    (let hash = hash + ucast b; hash = hash + push_bit 10 hash in hash XOR drop_bit 6 hash)"

definition hash_32 :: "mem \<Rightarrow> ptr \<Rightarrow> u64 \<Rightarrow> u32" where
  "hash_32 m k len =
    (let hash = foldl hash_32_step 0 (bytes_at m k (unat len));
         hash = hash + push_bit 3 hash;
         hash = hash XOR drop_bit 11 hash
     in hash + push_bit 15 hash)"

partial_function (option) hash_bernstein_loop :: "mem \<Rightarrow> ptr \<Rightarrow> u32 \<Rightarrow> u32 option" where
  "hash_bernstein_loop m s hash =
    (if m s = 0 then Some hash else hash_bernstein_loop m (s + 1) (33 * hash + scast (m s)))"

definition hash_bernstein :: "mem \<Rightarrow> ptr \<Rightarrow> u32 option" where
  "hash_bernstein m s = hash_bernstein_loop m s 1"

record tbl_type =
  key_member :: u64
  key_sz :: u64

record hashtbl =
  tbl_items :: "ptr list"
  used :: u32
  holes :: u32
  log2_capacity :: nat

definition hashtbl_init :: hashtbl where
  "hashtbl_init = \<lparr> tbl_items = [], used = 0, holes = 0, log2_capacity = 0 \<rparr>"

definition hash_of_item :: "tbl_type \<Rightarrow> mem \<Rightarrow> ptr \<Rightarrow> u32" where
  "hash_of_item ty m item = hash_32 m (item + key_member ty) (key_sz ty)"

definition slot_mask :: "nat \<Rightarrow> u32" where
  "slot_mask lg = NOT (push_bit lg (- 1))"

fun rehash_probe :: "u32 \<Rightarrow> ptr \<Rightarrow> nat \<Rightarrow> u32 \<Rightarrow> ptr list \<times> u32 \<Rightarrow> ptr list \<times> u32" where
  "rehash_probe new_mask item 0 hash st = st"
| "rehash_probe new_mask item (Suc k) hash st =
    (if fst st ! unat hash = 0 then ((fst st)[unat hash := item], snd st + 1)
     else rehash_probe new_mask item k ((hash + 1) AND new_mask) st)"

definition rehash_item :: "tbl_type \<Rightarrow> mem \<Rightarrow> nat \<Rightarrow> u32 \<Rightarrow> ptr \<Rightarrow> ptr list \<times> u32 \<Rightarrow> ptr list \<times> u32" where
  "rehash_item ty m e new_mask item st =
    (if item \<le> 1 then st
     else rehash_probe new_mask item e (hash_of_item ty m item AND new_mask) st)"

definition hashtbl_rehash ::
    "(nat \<Rightarrow> bool) \<Rightarrow> tbl_type \<Rightarrow> mem \<Rightarrow> nat \<Rightarrow> hashtbl \<Rightarrow> bool \<times> hashtbl" where
  "hashtbl_rehash resize ty m new_log2 t =
    (let new_capacity = 2 ^ new_log2
     in if \<not> resize new_capacity then (False, t)
        else let (new_tbl, new_used) =
                   (if used t \<noteq> 0 then
                      fold (rehash_item ty m (2 ^ log2_capacity t) (slot_mask new_log2))
                        (take (2 ^ log2_capacity t) (tbl_items t)) (replicate new_capacity 0, 0)
                    else (replicate new_capacity 0, 0))
             in (True, \<lparr> tbl_items = new_tbl, used = new_used, holes = 0, log2_capacity = new_log2 \<rparr>))"

definition hashtbl_grow :: "(nat \<Rightarrow> bool) \<Rightarrow> tbl_type \<Rightarrow> mem \<Rightarrow> hashtbl \<Rightarrow> bool \<times> hashtbl" where
  "hashtbl_grow resize ty m t =
    hashtbl_rehash resize ty m (if log2_capacity t \<noteq> 0 then log2_capacity t + 1 else 4) t"

fun insert_probe :: "u32 \<Rightarrow> ptr \<Rightarrow> nat \<Rightarrow> u32 \<Rightarrow> hashtbl \<Rightarrow> hashtbl option" where
  "insert_probe mask' item 0 hash t = None"
| "insert_probe mask' item (Suc k) hash t =
    (let candidate = tbl_items t ! unat hash
     in if candidate \<le> 1 then
          Some (t\<lparr> holes := holes t - (if candidate = 1 then 1 else 0),
                   tbl_items := (tbl_items t)[unat hash := item], used := used t + 1 \<rparr>)
        else insert_probe mask' item k ((hash + 1) AND mask') t)"

text \<open>Running off the end of the probe sequence fails an assertion.\<close>

definition hashtbl_insert ::
    "(nat \<Rightarrow> bool) \<Rightarrow> tbl_type \<Rightarrow> mem \<Rightarrow> ptr \<Rightarrow> hashtbl \<Rightarrow> (bool \<times> hashtbl) option" where
  "hashtbl_insert resize ty m item t =
    (let (ok, t) = (if tbl_items t = [] \<or> unat (used t) \<ge> 2 ^ log2_capacity t div 2
                    then hashtbl_grow resize ty m t else (True, t))
     in if \<not> ok then Some (False, t)
        else map_option (Pair True)
               (insert_probe (slot_mask (log2_capacity t)) item (2 ^ log2_capacity t)
                  (hash_of_item ty m item AND slot_mask (log2_capacity t)) t))"

fun lookup_probe :: "tbl_type \<Rightarrow> mem \<Rightarrow> ptr \<Rightarrow> u32 \<Rightarrow> nat \<Rightarrow> u32 \<Rightarrow> hashtbl \<Rightarrow> ptr" where
  "lookup_probe ty m key mask' 0 hash t = 0"
| "lookup_probe ty m key mask' (Suc k) hash t =
    (let item = tbl_items t ! unat hash
     in if item > 1 \<and> memcmp m (item + key_member ty) key (key_sz ty) = 0 then item
        else if item = 0 then 0
        else lookup_probe ty m key mask' k ((hash + 1) AND mask') t)"

definition hashtbl_lookup :: "tbl_type \<Rightarrow> mem \<Rightarrow> ptr \<Rightarrow> hashtbl \<Rightarrow> ptr" where
  "hashtbl_lookup ty m key t =
    (if used t \<noteq> 0 then
       lookup_probe ty m key (slot_mask (log2_capacity t)) (2 ^ log2_capacity t)
         (hash_32 m key (key_sz ty) AND slot_mask (log2_capacity t)) t
     else 0)"

definition del_slot :: "(nat \<Rightarrow> bool) \<Rightarrow> tbl_type \<Rightarrow> mem \<Rightarrow> u32 \<Rightarrow> u32 \<Rightarrow> hashtbl \<Rightarrow> hashtbl" where
  "del_slot resize ty m mask' hash t =
    (let t = (if tbl_items t ! unat ((hash + 1) AND mask') \<noteq> 0
              then t\<lparr> tbl_items := (tbl_items t)[unat hash := 1], holes := holes t + 1 \<rparr>
              else t\<lparr> tbl_items := (tbl_items t)[unat hash := 0] \<rparr>);
         t = t\<lparr> used := used t - 1 \<rparr>
     in if unat (holes t) > 64 \<and> unat (holes t) > length (tbl_items t) div 2
        then snd (hashtbl_rehash resize ty m (log2_capacity t) t) else t)"

fun del_probe ::
    "(nat \<Rightarrow> bool) \<Rightarrow> tbl_type \<Rightarrow> mem \<Rightarrow> ptr \<Rightarrow> u32 \<Rightarrow> nat \<Rightarrow> u32 \<Rightarrow> hashtbl \<Rightarrow> bool \<times> hashtbl" where
  "del_probe resize ty m key mask' 0 hash t = (False, t)"
| "del_probe resize ty m key mask' (Suc k) hash t =
    (let candidate = tbl_items t ! unat hash
     in if candidate > 1 \<and> memcmp m (candidate + key_member ty) key (key_sz ty) = 0
        then (True, del_slot resize ty m mask' hash t)
        else if candidate = 0 then (False, t)
        else del_probe resize ty m key mask' k ((hash + 1) AND mask') t)"

definition hashtbl_del :: "(nat \<Rightarrow> bool) \<Rightarrow> tbl_type \<Rightarrow> mem \<Rightarrow> ptr \<Rightarrow> hashtbl \<Rightarrow> bool \<times> hashtbl" where
  "hashtbl_del resize ty m key t =
    (if used t \<noteq> 0 then
       del_probe resize ty m key (slot_mask (log2_capacity t)) (2 ^ log2_capacity t)
         (hash_32 m key (key_sz ty) AND slot_mask (log2_capacity t)) t
     else (False, t))"

definition hashtbl_clear :: "hashtbl \<Rightarrow> hashtbl" where
  "hashtbl_clear t = t\<lparr> tbl_items := [], used := 0, holes := 0, log2_capacity := 0 \<rparr>"

section \<open>Invariant and abstraction\<close>

definition key_bytes :: "tbl_type \<Rightarrow> mem \<Rightarrow> ptr \<Rightarrow> u8 list" where
  "key_bytes ty m item = bytes_at m (item + key_member ty) (unat (key_sz ty))"

definition stored :: "ptr list \<Rightarrow> ptr list" where
  "stored xs = filter (\<lambda>p. 1 < p) xs"

text \<open>The slot at distance \<open>d\<close> from \<open>h\<close> on the probe sequence.\<close>

definition cyc :: "nat \<Rightarrow> nat \<Rightarrow> nat \<Rightarrow> nat" where
  "cyc N h d = (h + d) mod N"

definition home :: "tbl_type \<Rightarrow> mem \<Rightarrow> nat \<Rightarrow> ptr \<Rightarrow> nat" where
  "home ty m lg p = unat (hash_of_item ty m p AND slot_mask lg)"

text \<open>Every stored item is reached from its home slot before any free slot.\<close>

definition reachable_from :: "(ptr \<Rightarrow> nat) \<Rightarrow> ptr list \<Rightarrow> bool" where
  "reachable_from hm xs \<longleftrightarrow> (\<forall>i<length xs. 1 < xs ! i \<longrightarrow>
     (\<exists>d<length xs. i = cyc (length xs) (hm (xs ! i)) d
        \<and> (\<forall>j<d. xs ! cyc (length xs) (hm (xs ! i)) j \<noteq> 0)))"

definition tbl_ok :: "tbl_type \<Rightarrow> mem \<Rightarrow> nat \<Rightarrow> ptr list \<Rightarrow> bool" where
  "tbl_ok ty m lg xs \<longleftrightarrow> lg < 32 \<and> length xs = 2 ^ lg \<and> reachable_from (home ty m lg) xs
     \<and> distinct (map (key_bytes ty m) (stored xs))"

definition hashtbl_ok :: "tbl_type \<Rightarrow> mem \<Rightarrow> hashtbl \<Rightarrow> bool" where
  "hashtbl_ok ty m t \<longleftrightarrow>
     (if tbl_items t = [] then used t = 0 \<and> holes t = 0 \<and> log2_capacity t = 0
      else tbl_ok ty m (log2_capacity t) (tbl_items t) \<and> 0 < log2_capacity t
        \<and> unat (used t) = length (stored (tbl_items t))
        \<and> unat (holes t) = length (filter (\<lambda>p. p = 1) (tbl_items t)))"

definition hashtbl_map :: "tbl_type \<Rightarrow> mem \<Rightarrow> hashtbl \<Rightarrow> u8 list \<Rightarrow> ptr option" where
  "hashtbl_map ty m t k = List.find (\<lambda>p. key_bytes ty m p = k) (stored (tbl_items t))"

section \<open>Probe sequences\<close>

lemma slot_mask_mask: "slot_mask lg = mask lg"
  by (rule bit_word_eqI) (auto simp: slot_mask_def bit_simps)

lemma unat_slot [simp]: "unat (h AND slot_mask lg) = unat h mod 2 ^ lg"
  by (simp only: slot_mask_mask unat_and_mask)

lemma unat_next_slot: "lg < 32 \<Longrightarrow> unat ((h + 1) AND slot_mask lg) = (unat h + 1) mod 2 ^ lg"
proof -
  assume "lg < 32"
  then have "2 ^ lg dvd (2 ^ 32 :: nat)" by (intro le_imp_power_dvd) simp
  moreover have "unat (h + 1) = (unat h + 1) mod 2 ^ 32" by (simp add: unat_word_ariths)
  ultimately show ?thesis by (simp add: mod_mod_cancel)
qed

lemma cyc_next: "cyc N ((h + 1) mod N) d = cyc N h (Suc d)"
  by (simp add: cyc_def mod_add_left_eq)

lemma cyc_next_slot:
  "lg < 32 \<Longrightarrow> cyc (2 ^ lg) (unat ((h + 1) AND slot_mask lg)) d = cyc (2 ^ lg) (unat h) (Suc d)"
  by (simp only: unat_next_slot cyc_next)

lemma next_slot_less: "unat (h AND slot_mask lg) < 2 ^ lg"
  by simp

lemma cyc_0 [simp]: "h < N \<Longrightarrow> cyc N h 0 = h"
  by (simp add: cyc_def)

lemma cyc_less [simp]: "0 < N \<Longrightarrow> cyc N h d < N"
  by (simp add: cyc_def)

lemma cyc_inj:
  assumes "i < N" and "j < N" and "cyc N h i = cyc N h j"
  shows "i = j"
proof -
  have "i mod N = j mod N"
    using assms(3) unfolding cyc_def by (simp add: nat_mod_eq_iff)
  then show ?thesis using assms by simp
qed

lemma find_upt_Suc:
  "List.find P [0..<Suc n] = (if P 0 then Some 0 else map_option Suc (List.find (\<lambda>d. P (Suc d)) [0..<n]))"
  by (simp add: upt_conv_Cons find_map o_def del: upt_Suc flip: map_Suc_upt)

lemma insert_probe_find:
  assumes "lg < 32" and "unat hash < 2 ^ lg"
  shows "insert_probe (slot_mask lg) item n hash t =
    map_option (\<lambda>d. let i = cyc (2 ^ lg) (unat hash) d; candidate = tbl_items t ! i
       in t\<lparr> holes := holes t - (if candidate = 1 then 1 else 0),
             tbl_items := (tbl_items t)[i := item], used := used t + 1 \<rparr>)
      (List.find (\<lambda>d. tbl_items t ! cyc (2 ^ lg) (unat hash) d \<le> 1) [0..<n])"
  using assms(2)
proof (induction n arbitrary: hash)
  case 0
  then show ?case by simp
next
  case (Suc n)
  note step = Suc.IH [of "(hash + 1) AND slot_mask lg"]
  show ?case
    using step Suc.prems
    by (simp add: find_upt_Suc cyc_next_slot [OF assms(1)] next_slot_less option.map_comp o_def Let_def
        del: upt_Suc unat_slot)
qed

lemma rehash_probe_find:
  assumes "lg < 32" and "unat hash < 2 ^ lg"
  shows "rehash_probe (slot_mask lg) item n hash st =
    (case List.find (\<lambda>d. fst st ! cyc (2 ^ lg) (unat hash) d = 0) [0..<n] of
       None \<Rightarrow> st
     | Some d \<Rightarrow> ((fst st)[cyc (2 ^ lg) (unat hash) d := item], snd st + 1))"
  using assms(2)
proof (induction n arbitrary: hash)
  case 0
  then show ?case by simp
next
  case (Suc n)
  note step = Suc.IH [of "(hash + 1) AND slot_mask lg"]
  show ?case
    using step Suc.prems
    by (simp add: find_upt_Suc cyc_next_slot [OF assms(1)] next_slot_less
        split: option.split del: upt_Suc unat_slot)
qed

text \<open>Lookup and deletion stop at the first slot that is free or holds the key.\<close>

definition stops :: "tbl_type \<Rightarrow> mem \<Rightarrow> ptr \<Rightarrow> ptr \<Rightarrow> bool" where
  "stops ty m key p \<longleftrightarrow> p = 0 \<or> 1 < p \<and> key_bytes ty m p = bytes_at m key (unat (key_sz ty))"

lemma memcmp_key:
  "memcmp m (item + key_member ty) key (key_sz ty) = 0
     \<longleftrightarrow> key_bytes ty m item = bytes_at m key (unat (key_sz ty))"
  by (simp add: memcmp_def repe_cmpsb_bytes key_bytes_def)

lemma lookup_probe_find:
  assumes "lg < 32" and "unat hash < 2 ^ lg"
  shows "lookup_probe ty m key (slot_mask lg) n hash t =
    (case List.find (\<lambda>d. stops ty m key (tbl_items t ! cyc (2 ^ lg) (unat hash) d)) [0..<n] of
       None \<Rightarrow> 0 | Some d \<Rightarrow> tbl_items t ! cyc (2 ^ lg) (unat hash) d)"
  using assms(2)
proof (induction n arbitrary: hash)
  case 0
  then show ?case by simp
next
  case (Suc n)
  note step = Suc.IH [of "(hash + 1) AND slot_mask lg"]
  show ?case
    using step Suc.prems
    by (simp add: find_upt_Suc cyc_next_slot [OF assms(1)] next_slot_less stops_def memcmp_key Let_def
        split: option.split del: upt_Suc unat_slot)
qed

lemma del_probe_find:
  assumes "lg < 32" and "unat hash < 2 ^ lg"
  shows "del_probe resize ty m key (slot_mask lg) n hash t =
    (case List.find (\<lambda>d. stops ty m key (tbl_items t ! cyc (2 ^ lg) (unat hash) d)) [0..<n] of
       None \<Rightarrow> (False, t)
     | Some d \<Rightarrow> if tbl_items t ! cyc (2 ^ lg) (unat hash) d = 0 then (False, t)
         else (True, del_slot resize ty m (slot_mask lg) (of_nat (cyc (2 ^ lg) (unat hash) d)) t))"
  using assms(2)
proof (induction n arbitrary: hash)
  case 0
  then show ?case by simp
next
  case (Suc n)
  note step = Suc.IH [of "(hash + 1) AND slot_mask lg"]
  show ?case
    using step Suc.prems
    by (simp add: find_upt_Suc cyc_next_slot [OF assms(1)] next_slot_less stops_def memcmp_key Let_def
        split: option.split del: upt_Suc unat_slot)
qed

section \<open>Changing one slot\<close>

lemma stored_put:
  assumes "i < length xs" and "xs ! i \<le> 1" and "1 < y"
  shows "\<exists>as bs. stored xs = as @ bs \<and> stored (xs[i := y]) = as @ y # bs"
proof -
  have "stored (take i xs @ xs ! i # drop (Suc i) xs) = stored (take i xs) @ stored (drop (Suc i) xs)"
    using assms(2) by (simp add: stored_def not_less)
  then have "stored xs = stored (take i xs) @ stored (drop (Suc i) xs)"
    by (simp only: id_take_nth_drop [OF assms(1), symmetric])
  moreover have "stored (xs[i := y]) = stored (take i xs) @ y # stored (drop (Suc i) xs)"
    using assms(3) by (simp add: upd_conv_take_nth_drop [OF assms(1)] stored_def)
  ultimately show ?thesis by blast
qed

lemma stored_remove:
  assumes "i < length xs" and "1 < xs ! i" and "y \<le> 1"
  shows "\<exists>as bs. stored xs = as @ xs ! i # bs \<and> stored (xs[i := y]) = as @ bs"
  using stored_put [of i "xs[i := y]" "xs ! i"] assms by auto

lemma filter_update_count:
  assumes "i < length xs"
  shows "length (filter P (xs[i := y])) + (if P (xs ! i) then 1 else 0)
    = length (filter P xs) + (if P y then 1 else 0)"
proof -
  have "length (filter P xs) = length (filter P (take i xs @ xs ! i # drop (Suc i) xs))"
    by (simp only: id_take_nth_drop [OF assms, symmetric])
  then show ?thesis by (simp add: upd_conv_take_nth_drop [OF assms])
qed

lemma reachable_update:
  assumes "reachable_from hm xs" and "y \<noteq> 0"
    and "1 < y \<Longrightarrow> \<exists>d<length xs. i = cyc (length xs) (hm y) d \<and> (\<forall>j<d. xs ! cyc (length xs) (hm y) j \<noteq> 0)"
  shows "reachable_from hm (xs[i := y])"
  unfolding reachable_from_def
proof (intro allI impI)
  fix k assume k: "k < length (xs[i := y])" "1 < xs[i := y] ! k"
  let ?p = "xs[i := y] ! k"
  have "\<exists>d<length xs. k = cyc (length xs) (hm ?p) d \<and> (\<forall>j<d. xs ! cyc (length xs) (hm ?p) j \<noteq> 0)"
    using assms(1,3) k unfolding reachable_from_def by (cases "k = i") auto
  then obtain d where d: "d < length xs" "k = cyc (length xs) (hm ?p) d"
      "\<forall>j<d. xs ! cyc (length xs) (hm ?p) j \<noteq> 0" by blast
  have c: "cyc (length xs) h j < length xs" for h j using k(1) by (intro cyc_less) auto
  have "xs[i := y] ! cyc (length xs) (hm ?p) j \<noteq> 0" if "j < d" for j
    using d(3) that assms(2) c [of "hm ?p" j] by (cases "cyc (length xs) (hm ?p) j = i") auto
  then show "\<exists>d<length (xs[i := y]). k = cyc (length (xs[i := y])) (hm ?p) d
      \<and> (\<forall>j<d. xs[i := y] ! cyc (length (xs[i := y])) (hm ?p) j \<noteq> 0)"
    unfolding length_list_update using d(1,2) by blast
qed

lemma reachable_free:
  assumes r: "reachable_from hm xs" and next_free: "xs ! cyc (length xs) i 1 = 0"
  shows "reachable_from hm (xs[i := 0])"
  unfolding reachable_from_def
proof (intro allI impI)
  fix k assume k: "k < length (xs[i := 0])" "1 < xs[i := 0] ! k"
  let ?N = "length xs"
  have ki: "k \<noteq> i" using k by auto
  then have "k < ?N" "1 < xs ! k" "xs[i := 0] ! k = xs ! k" using k by auto
  with r obtain d where d: "d < ?N" "k = cyc ?N (hm (xs ! k)) d" "\<forall>j<d. xs ! cyc ?N (hm (xs ! k)) j \<noteq> 0"
    unfolding reachable_from_def by blast
  have "cyc ?N (hm (xs ! k)) j \<noteq> i" if "j < d" for j
  proof
    assume "cyc ?N (hm (xs ! k)) j = i"
    then have "cyc ?N (hm (xs ! k)) (Suc j) = cyc ?N i 1"
      by (auto simp: cyc_def mod_Suc_eq)
    then have z: "xs ! cyc ?N (hm (xs ! k)) (Suc j) = 0" using next_free by simp
    have "Suc j < d \<or> Suc j = d" using that by auto
    then show False using d(3) z \<open>1 < xs ! k\<close> d(2) by auto
  qed
  then have "\<forall>j<d. xs[i := 0] ! cyc ?N (hm (xs ! k)) j \<noteq> 0" using d(3) by (metis nth_list_update_neq)
  then show "\<exists>d<length (xs[i := 0]). k = cyc (length (xs[i := 0])) (hm (xs[i := 0] ! k)) d
      \<and> (\<forall>j<d. xs[i := 0] ! cyc (length (xs[i := 0])) (hm (xs[i := 0] ! k)) j \<noteq> 0)"
    using d(1,2) ki by auto
qed

text \<open>A probe of \<open>e\<close> slots meets one that fails \<open>P\<close> when fewer than \<open>e\<close> slots satisfy it.\<close>

lemma probe_hits:
  assumes "length (filter P xs) < e" and "e \<le> length xs"
  shows "\<exists>d<e. \<not> P (xs ! cyc (length xs) h d)"
proof (rule ccontr)
  assume neg: "\<not> ?thesis"
  have "0 < length xs" using assms by linarith
  with neg have "cyc (length xs) h ` {..<e} \<subseteq> {i. i < length xs \<and> P (xs ! i)}" using assms by auto
  then have "card (cyc (length xs) h ` {..<e}) \<le> card {i. i < length xs \<and> P (xs ! i)}"
    by (intro card_mono) auto
  moreover have "inj_on (cyc (length xs) h) {..<e}"
    using assms(2) by (auto intro!: inj_onI elim: cyc_inj [rotated 2])
  then have "card (cyc (length xs) h ` {..<e}) = e" by (simp add: card_image)
  ultimately show False using assms(1) by (simp add: length_filter_conv_card)
qed

section \<open>Searching\<close>

lemma find_by_key:
  assumes "distinct (map f xs)"
  shows "List.find (\<lambda>p. f p = k) xs = Some p \<longleftrightarrow> p \<in> set xs \<and> f p = k"
  using assms by (induction xs) auto

lemma hashtbl_map_iff:
  assumes "hashtbl_ok ty m t"
  shows "hashtbl_map ty m t k = Some p \<longleftrightarrow> p \<in> set (stored (tbl_items t)) \<and> key_bytes ty m p = k"
proof -
  have "distinct (map (key_bytes ty m) (stored (tbl_items t)))"
    using assms by (auto simp: hashtbl_ok_def tbl_ok_def stored_def split: if_splits)
  then show ?thesis unfolding hashtbl_map_def by (rule find_by_key)
qed

lemma key_inj:
  assumes "tbl_ok ty m lg xs" and "p \<in> set (stored xs)" and "q \<in> set (stored xs)"
    and "key_bytes ty m p = key_bytes ty m q"
  shows "p = q"
  using assms by (auto simp: tbl_ok_def distinct_map inj_on_def)

lemma home_key:
  "key_bytes ty m p = bytes_at m key (unat (key_sz ty)) \<Longrightarrow>
   home ty m lg p = unat (hash_32 m key (key_sz ty) AND slot_mask lg)"
  by (simp add: home_def hash_of_item_def hash_32_def key_bytes_def)

lemma stored_iff: "p \<in> set (stored xs) \<longleftrightarrow> 1 < p \<and> (\<exists>i<length xs. xs ! i = p)"
  by (auto simp: stored_def in_set_conv_nth)

text \<open>The search for a key ends at the item that has it, and at none when no item has.\<close>

lemma search_result:
  fixes key :: ptr
  assumes ok: "tbl_ok ty m lg xs"
  defines "h \<equiv> unat (hash_32 m key (key_sz ty) AND slot_mask lg)"
    and "K \<equiv> bytes_at m key (unat (key_sz ty))"
  shows "(case List.find (\<lambda>d. stops ty m key (xs ! cyc (2 ^ lg) h d)) [0..<2 ^ lg] of
            None \<Rightarrow> \<forall>p\<in>set (stored xs). key_bytes ty m p \<noteq> K
          | Some d \<Rightarrow> if xs ! cyc (2 ^ lg) h d = 0 then \<forall>p\<in>set (stored xs). key_bytes ty m p \<noteq> K
              else xs ! cyc (2 ^ lg) h d \<in> set (stored xs) \<and> key_bytes ty m (xs ! cyc (2 ^ lg) h d) = K)"
    (is "case ?f of None \<Rightarrow> _ | Some d \<Rightarrow> _")
proof -
  have len: "length xs = 2 ^ lg" and r: "reachable_from (home ty m lg) xs"
    using ok by (auto simp: tbl_ok_def)
  have reach: "\<exists>d<2 ^ lg. xs ! cyc (2 ^ lg) h d = p \<and> (\<forall>j<d. xs ! cyc (2 ^ lg) h j \<noteq> 0)"
    if p: "p \<in> set (stored xs)" "key_bytes ty m p = K" for p
  proof -
    obtain i where i: "i < 2 ^ lg" "xs ! i = p" "1 < p" using p(1) len by (auto simp: stored_iff)
    have "home ty m lg p = h" unfolding h_def using p(2) by (intro home_key) (simp only: K_def)
    moreover obtain d where "d < 2 ^ lg" "i = cyc (2 ^ lg) (home ty m lg p) d"
        "\<forall>j<d. xs ! cyc (2 ^ lg) (home ty m lg p) j \<noteq> 0"
      using r [unfolded reachable_from_def len, rule_format, of i] i by blast
    ultimately show ?thesis using i(2) by blast
  qed
  have inside: "xs ! cyc (2 ^ lg) h d \<in> set (stored xs) \<and> key_bytes ty m (xs ! cyc (2 ^ lg) h d) = K"
    if "stops ty m key (xs ! cyc (2 ^ lg) h d)" "xs ! cyc (2 ^ lg) h d \<noteq> 0" for d
  proof -
    have "\<exists>i<2 ^ lg. xs ! i = xs ! cyc (2 ^ lg) h d"
      by (rule exI [of _ "cyc (2 ^ lg) h d"]) simp
    then show ?thesis using that unfolding stops_def K_def stored_iff len by blast
  qed
  show ?thesis
  proof (cases ?f)
    case None
    then have "\<not> stops ty m key (xs ! cyc (2 ^ lg) h d)" if "d < 2 ^ lg" for d
      using that by (simp add: find_upt_None)
    moreover have "stops ty m key p" if "p \<in> set (stored xs)" "key_bytes ty m p = K" for p
      using that by (simp add: stops_def K_def stored_iff)
    ultimately have "\<forall>p\<in>set (stored xs). key_bytes ty m p \<noteq> K" using reach by blast
    then show ?thesis using None by simp
  next
    case (Some d)
    then have d: "stops ty m key (xs ! cyc (2 ^ lg) h d)" "\<forall>j<d. \<not> stops ty m key (xs ! cyc (2 ^ lg) h j)"
      by (simp_all add: find_upt_Some)
    have "key_bytes ty m p \<noteq> K" if z: "xs ! cyc (2 ^ lg) h d = 0" and p: "p \<in> set (stored xs)" for p
    proof
      assume "key_bytes ty m p = K"
      then obtain e where e: "xs ! cyc (2 ^ lg) h e = p" "\<forall>j<e. xs ! cyc (2 ^ lg) h j \<noteq> 0"
        using reach p by blast
      moreover have "stops ty m key p" "p \<noteq> 0"
        using \<open>key_bytes ty m p = K\<close> p by (auto simp: stops_def K_def stored_iff)
      ultimately show False using d z by (metis linorder_neqE_nat)
    qed
    then show ?thesis using Some inside [OF d(1)] by auto
  qed
qed

lemma hashtbl_lookup_map:
  assumes ok: "hashtbl_ok ty m t"
  shows "hashtbl_lookup ty m key t =
    (case hashtbl_map ty m t (bytes_at m key (unat (key_sz ty))) of None \<Rightarrow> 0 | Some p \<Rightarrow> p)"
    (is "_ = (case ?mp of None \<Rightarrow> 0 | Some p \<Rightarrow> p)")
proof (cases "used t = 0")
  case True
  then have "stored (tbl_items t) = []"
    using ok by (auto simp: hashtbl_ok_def stored_def split: if_splits)
  then show ?thesis using True by (simp add: hashtbl_lookup_def hashtbl_map_def)
next
  case False
  then have tok: "tbl_ok ty m (log2_capacity t) (tbl_items t)" and lg: "log2_capacity t < 32"
    using ok by (auto simp: hashtbl_ok_def tbl_ok_def split: if_splits)
  have none: "?mp = None" if "\<forall>p\<in>set (stored (tbl_items t)). key_bytes ty m p \<noteq> bytes_at m key (unat (key_sz ty))"
    using that by (simp add: hashtbl_map_def find_None_iff)
  have some: "?mp = Some p" if "p \<in> set (stored (tbl_items t))"
      "key_bytes ty m p = bytes_at m key (unat (key_sz ty))" for p
    using that by (simp add: hashtbl_map_iff [OF ok])
  show ?thesis
    using search_result [OF tok, of key] none some False
    by (auto simp: hashtbl_lookup_def lookup_probe_find [OF lg] next_slot_less
        split: option.splits if_splits simp del: unat_slot)
qed

section \<open>Filling a slot\<close>

text \<open>Putting a new item into the first slot of its probe sequence that passes \<open>P\<close>.\<close>

lemma tbl_put:
  assumes ok: "tbl_ok ty m lg xs" and y: "1 < y"
    and fresh: "\<forall>p\<in>set (stored xs). key_bytes ty m p \<noteq> key_bytes ty m y"
    and d: "d < 2 ^ lg" "xs ! cyc (2 ^ lg) (home ty m lg y) d \<le> 1"
      "\<forall>j<d. xs ! cyc (2 ^ lg) (home ty m lg y) j \<noteq> 0"
  shows "tbl_ok ty m lg (xs[cyc (2 ^ lg) (home ty m lg y) d := y])
    \<and> set (stored (xs[cyc (2 ^ lg) (home ty m lg y) d := y])) = insert y (set (stored xs))
    \<and> length (stored (xs[cyc (2 ^ lg) (home ty m lg y) d := y])) = Suc (length (stored xs))"
proof -
  let ?i = "cyc (2 ^ lg) (home ty m lg y) d"
  have len: "length xs = 2 ^ lg" using ok by (simp add: tbl_ok_def)
  have "?i < length xs" unfolding len by simp
  then obtain as bs where s: "stored xs = as @ bs" "stored (xs[?i := y]) = as @ y # bs"
    using stored_put [OF _ d(2) y] by blast
  have "reachable_from (home ty m lg) (xs[?i := y])"
  proof (rule reachable_update)
    show "reachable_from (home ty m lg) xs" using ok by (simp add: tbl_ok_def)
    show "y \<noteq> 0" using y by auto
    show "\<exists>d<length xs. ?i = cyc (length xs) (home ty m lg y) d
        \<and> (\<forall>j<d. xs ! cyc (length xs) (home ty m lg y) j \<noteq> 0)"
      using d len by metis
  qed
  then show ?thesis using ok fresh s by (auto simp: tbl_ok_def)
qed

lemma length_stored_le: "length (stored xs) \<le> length xs"
  by (simp add: stored_def)

lemma home_less: "home ty m lg p < 2 ^ lg"
  by (simp add: home_def)

lemma holes_after_put:
  assumes "unat (h :: u32) = length (filter (\<lambda>p. p = 1) xs)" and i: "i < length xs" and "1 < (y :: ptr)"
  shows "unat (h - (if xs ! i = 1 then 1 else 0)) = length (filter (\<lambda>p. p = 1) (xs[i := y]))"
proof (cases "xs ! i = 1")
  case True
  then have "Suc (length (filter (\<lambda>p. p = 1) (xs[i := y]))) = unat h"
    using filter_update_count [OF i, of "\<lambda>p. p = 1" y] assms by auto
  moreover from this have "h \<noteq> 0" by auto
  ultimately show ?thesis using True by (simp add: unat_minus_one)
next
  case False
  then show ?thesis using filter_update_count [OF i, of "\<lambda>p. p = 1" y] assms by auto
qed

lemma insert_probe_ok:
  assumes ok: "hashtbl_ok ty m t" and lg: "0 < log2_capacity t"
    and y: "1 < y" and fresh: "\<forall>p\<in>set (stored (tbl_items t)). key_bytes ty m p \<noteq> key_bytes ty m y"
    and room: "length (stored (tbl_items t)) < 2 ^ log2_capacity t"
  shows "\<exists>t'. insert_probe (slot_mask (log2_capacity t)) y (2 ^ log2_capacity t)
        (hash_of_item ty m y AND slot_mask (log2_capacity t)) t = Some t'
    \<and> hashtbl_ok ty m t' \<and> log2_capacity t' = log2_capacity t
    \<and> set (stored (tbl_items t')) = insert y (set (stored (tbl_items t)))"
proof -
  let ?lg = "log2_capacity t" and ?xs = "tbl_items t"
  let ?h = "unat (hash_of_item ty m y AND slot_mask (log2_capacity t))"
  have ne: "?xs \<noteq> []" using ok lg by (auto simp: hashtbl_ok_def)
  then have tok: "tbl_ok ty m ?lg ?xs" and u: "unat (used t) = length (stored ?xs)"
    and ho: "unat (holes t) = length (filter (\<lambda>p. p = 1) ?xs)"
    using ok by (auto simp: hashtbl_ok_def)
  then have l: "?lg < 32" "length ?xs = 2 ^ ?lg" by (auto simp: tbl_ok_def)
  have "\<exists>d<2 ^ ?lg. \<not> 1 < ?xs ! cyc (length ?xs) ?h d"
    using room l by (intro probe_hits) (auto simp: stored_def)
  then obtain d where f: "List.find (\<lambda>d. ?xs ! cyc (2 ^ ?lg) ?h d \<le> 1) [0..<2 ^ ?lg] = Some d"
    using l by (cases "List.find (\<lambda>d. ?xs ! cyc (2 ^ ?lg) ?h d \<le> 1) [0..<2 ^ ?lg]")
      (auto simp: find_upt_None not_less)
  then have d: "d < 2 ^ ?lg" "?xs ! cyc (2 ^ ?lg) ?h d \<le> 1" "\<forall>j<d. \<not> ?xs ! cyc (2 ^ ?lg) ?h j \<le> 1"
    unfolding find_upt_Some by blast+
  then have nz: "\<forall>j<d. ?xs ! cyc (2 ^ ?lg) ?h j \<noteq> 0" by fastforce
  let ?i = "cyc (2 ^ ?lg) ?h d"
  let ?t = "t\<lparr> holes := holes t - (if ?xs ! ?i = 1 then 1 else 0), tbl_items := ?xs[?i := y], used := used t + 1 \<rparr>"
  have i: "?i < length ?xs" unfolding l by simp
  note put = tbl_put [OF tok y fresh, unfolded home_def, OF d(1,2) nz]
  have "length (stored ?xs) < 4294967295"
  proof -
    have "(2 :: nat) ^ ?lg \<le> 2 ^ 31" using l(1) by (intro power_increasing) auto
    then show ?thesis using room by simp
  qed
  then have u': "unat (used t + 1) = Suc (length (stored ?xs))" using u by (simp add: unat_word_ariths)
  note ho' = holes_after_put [OF ho i y]
  have "hashtbl_ok ty m ?t" using put u' ho' lg ne by (simp add: hashtbl_ok_def)
  then show ?thesis
    using put f insert_probe_find [OF l(1) next_slot_less [of "hash_of_item ty m y"], of y "2 ^ ?lg" t]
    by (simp add: Let_def del: unat_slot)
qed

section \<open>Rehashing\<close>

lemma rehash_item_ok:
  assumes ok: "tbl_ok ty m lg nt" and clean: "1 \<notin> set nt" and nu: "unat nu = length (stored nt)"
    and y: "1 < y" "\<forall>p\<in>set (stored nt). key_bytes ty m p \<noteq> key_bytes ty m y"
    and e: "length (stored nt) < e" "e \<le> 2 ^ lg"
    and res: "rehash_item ty m e (slot_mask lg) y (nt, nu) = (nt', nu')"
  shows "tbl_ok ty m lg nt' \<and> 1 \<notin> set nt' \<and> unat nu' = length (stored nt')
    \<and> length (stored nt') = Suc (length (stored nt)) \<and> set (stored nt') = insert y (set (stored nt))"
proof -
  let ?h = "unat (hash_of_item ty m y AND slot_mask lg)"
  have l: "lg < 32" "length nt = 2 ^ lg" using ok by (auto simp: tbl_ok_def)
  have one: "p = 0" if "p \<in> set nt" "\<not> 1 < p" for p
    using that clean by (cases "p = 1") (auto simp: word_less_nat_alt word_unat_eq_iff)
  have "\<exists>d<e. \<not> 1 < nt ! cyc (length nt) ?h d"
    using e l by (intro probe_hits) (auto simp: stored_def)
  then obtain d where "d < e" "\<not> 1 < nt ! cyc (2 ^ lg) ?h d" using l(2) by auto
  moreover have "nt ! cyc (2 ^ lg) ?h d \<in> set nt" by (intro nth_mem) (simp only: l(2) cyc_less zero_less_power zero_less_numeral)
  ultimately have "d < e" "nt ! cyc (2 ^ lg) ?h d = 0" using one by auto
  then obtain d where f: "List.find (\<lambda>d. nt ! cyc (2 ^ lg) ?h d = 0) [0..<e] = Some d"
    by (cases "List.find (\<lambda>d. nt ! cyc (2 ^ lg) ?h d = 0) [0..<e]") (auto simp only: find_upt_None)
  then have d: "d < 2 ^ lg" "nt ! cyc (2 ^ lg) ?h d = 0" "\<forall>j<d. nt ! cyc (2 ^ lg) ?h j \<noteq> 0"
    using e(2) unfolding find_upt_Some by auto
  have r: "nt' = nt[cyc (2 ^ lg) ?h d := y]" "nu' = nu + 1"
    using res y(1) f rehash_probe_find [OF l(1) next_slot_less [of "hash_of_item ty m y"], of y e "(nt, nu)"]
    by (auto simp: rehash_item_def not_le [symmetric] simp del: unat_slot)
  have le: "nt ! cyc (2 ^ lg) ?h d \<le> 1" using d(2) by simp
  note put = tbl_put [OF ok y, unfolded home_def, OF d(1) le d(3), folded r(1)]
  have "(2 :: nat) ^ lg \<le> 2 ^ 31" using l(1) by (intro power_increasing) auto
  then have "unat nu' = Suc (unat nu)" using e nu by (simp add: r(2) unat_word_ariths)
  moreover have "1 \<notin> set nt'"
    using clean y(1) set_update_subset_insert [of nt "cyc (2 ^ lg) ?h d" y] unfolding r(1) by auto
  ultimately show ?thesis using put nu by simp
qed

lemma rehash_fold_ok:
  assumes "tbl_ok ty m lg nt" and "1 \<notin> set nt" and "unat nu = length (stored nt)"
    and "distinct (map (key_bytes ty m) (stored nt @ stored ys))"
    and "length (stored nt) + length (stored ys) \<le> e" and "e \<le> 2 ^ lg"
    and "fold (rehash_item ty m e (slot_mask lg)) ys (nt, nu) = (nt', nu')"
  shows "tbl_ok ty m lg nt' \<and> 1 \<notin> set nt' \<and> unat nu' = length (stored nt')
    \<and> length (stored nt') = length (stored nt) + length (stored ys)
    \<and> set (stored nt') = set (stored nt) \<union> set (stored ys)"
  using assms
proof (induction ys arbitrary: nt nu)
  case Nil
  then show ?case by (auto simp: stored_def)
next
  case (Cons y ys)
  show ?case
  proof (cases "1 < y")
    case False
    then have "stored (y # ys) = stored ys" "rehash_item ty m e (slot_mask lg) y (nt, nu) = (nt, nu)"
      by (simp_all add: rehash_item_def stored_def not_less)
    then show ?thesis using Cons.prems Cons.IH [of nt nu] by simp
  next
    case True
    obtain n1 u1 where s: "rehash_item ty m e (slot_mask lg) y (nt, nu) = (n1, u1)" by fastforce
    have st: "stored (y # ys) = y # stored ys" using True by (simp add: stored_def)
    have one: "tbl_ok ty m lg n1 \<and> 1 \<notin> set n1 \<and> unat u1 = length (stored n1)
        \<and> length (stored n1) = Suc (length (stored nt)) \<and> set (stored n1) = insert y (set (stored nt))"
      using Cons.prems True by (intro rehash_item_ok [OF _ _ _ _ _ _ _ s]) (auto simp: st image_iff)
    moreover have "distinct (map (key_bytes ty m) (stored n1))" using one by (simp add: tbl_ok_def)
    then have "distinct (map (key_bytes ty m) (stored n1 @ stored ys))"
      using Cons.prems(4) one by (auto simp: st)
    ultimately show ?thesis
      using Cons.IH [of n1 u1] Cons.prems(5-7) s by (auto simp: st)
  qed
qed

lemma tbl_ok_empty: "lg < 32 \<Longrightarrow> tbl_ok ty m lg (replicate (2 ^ lg) 0)"
  by (simp add: tbl_ok_def reachable_from_def stored_def)

lemma hashtbl_rehash_ok:
  assumes ok: "hashtbl_ok ty m t" and lg: "log2_capacity t \<le> lg" "0 < lg" "lg < 32" and "resize (2 ^ lg)"
  shows "\<exists>t'. hashtbl_rehash resize ty m lg t = (True, t') \<and> hashtbl_ok ty m t' \<and> log2_capacity t' = lg
    \<and> length (stored (tbl_items t')) = length (stored (tbl_items t))
    \<and> set (stored (tbl_items t')) = set (stored (tbl_items t))"
proof (cases "used t = 0")
  case True
  then have "stored (tbl_items t) = []"
    using ok by (auto simp: hashtbl_ok_def stored_def split: if_splits)
  then show ?thesis
    using True assms tbl_ok_empty [OF lg(3), of ty m]
    by (auto simp: hashtbl_rehash_def hashtbl_ok_def stored_def)
next
  case False
  let ?e = "2 ^ log2_capacity t" and ?xs = "tbl_items t"
  have tok: "tbl_ok ty m (log2_capacity t) ?xs" and u: "unat (used t) = length (stored ?xs)"
    using ok False by (auto simp: hashtbl_ok_def split: if_splits)
  then have len: "length ?xs = ?e" by (simp add: tbl_ok_def)
  let ?nil = "replicate (2 ^ lg) 0 :: ptr list"
  obtain nt nu where f: "fold (rehash_item ty m ?e (slot_mask lg)) ?xs (?nil, 0) = (nt, nu)" by fastforce
  have nil: "stored ?nil = []" "1 \<notin> set ?nil" by (auto simp: stored_def)
  have "tbl_ok ty m lg nt \<and> 1 \<notin> set nt \<and> unat nu = length (stored nt)
    \<and> length (stored nt) = length (stored ?nil) + length (stored ?xs)
    \<and> set (stored nt) = set (stored ?nil) \<union> set (stored ?xs)"
  proof (rule rehash_fold_ok [OF tbl_ok_empty [OF lg(3)] nil(2) _ _ _ _ f])
    show "?e \<le> (2 :: nat) ^ lg" using lg(1) by (intro power_increasing) auto
    show "length (stored ?nil) + length (stored ?xs) \<le> ?e"
      using length_stored_le [of ?xs] len nil by simp
    show "distinct (map (key_bytes ty m) (stored ?nil @ stored ?xs))"
      using tok nil by (simp add: tbl_ok_def)
  qed (simp add: nil)
  then have nt: "tbl_ok ty m lg nt" "1 \<notin> set nt" "unat nu = length (stored nt)"
    "length (stored nt) = length (stored ?xs)" "set (stored nt) = set (stored ?xs)"
    using nil by auto
  then have "nt \<noteq> []" "filter (\<lambda>p. p = 1) nt = []" by (auto simp: tbl_ok_def filter_empty_conv)
  then show ?thesis
    using nt False f len lg(2) \<open>resize (2 ^ lg)\<close> by (simp add: hashtbl_rehash_def hashtbl_ok_def)
qed

section \<open>Operations on the map\<close>

lemma hashtbl_map_eqI:
  assumes "hashtbl_ok ty m t"
    and "\<And>k p. M k = Some p \<longleftrightarrow> p \<in> set (stored (tbl_items t)) \<and> key_bytes ty m p = k"
  shows "hashtbl_map ty m t = M"
proof
  fix k
  show "hashtbl_map ty m t k = M k"
    using hashtbl_map_iff [OF assms(1), of k] assms(2) [of k]
    by (metis not_None_eq)
qed

lemma hashtbl_map_stored:
  assumes "hashtbl_ok ty m t" and "hashtbl_ok ty m t'"
    and "set (stored (tbl_items t')) = set (stored (tbl_items t))"
  shows "hashtbl_map ty m t' = hashtbl_map ty m t"
  using assms by (intro hashtbl_map_eqI) (simp_all add: hashtbl_map_iff)

lemma hashtbl_grow_ok:
  assumes ok: "hashtbl_ok ty m t" and bound: "\<forall>n. resize n \<longrightarrow> n < 2 ^ 31"
    and g: "hashtbl_grow resize ty m t = (b, t')"
  shows "if b then hashtbl_ok ty m t' \<and> log2_capacity t < log2_capacity t'
      \<and> length (stored (tbl_items t')) = length (stored (tbl_items t))
      \<and> set (stored (tbl_items t')) = set (stored (tbl_items t)) else t' = t"
proof -
  let ?lg = "if log2_capacity t \<noteq> 0 then log2_capacity t + 1 else 4"
  show ?thesis
  proof (cases "resize (2 ^ ?lg)")
    case True
    then have "2 ^ ?lg < (2 :: nat) ^ 31" using bound by blast
    then have "?lg < 31" by (rule power_less_imp_less_exp [rotated]) simp
    then show ?thesis
      using hashtbl_rehash_ok [of ty m t ?lg resize] ok True g
      by (auto simp: hashtbl_grow_def)
  next
    case False
    then show ?thesis using g by (auto simp: hashtbl_grow_def hashtbl_rehash_def)
  qed
qed

lemma hashtbl_insert_ok:
  assumes ok: "hashtbl_ok ty m t" and y: "1 < y" and bound: "\<forall>n. resize n \<longrightarrow> n < 2 ^ 31"
    and fresh: "hashtbl_map ty m t (key_bytes ty m y) = None"
  shows "\<exists>b t'. hashtbl_insert resize ty m y t = Some (b, t') \<and> hashtbl_ok ty m t'
    \<and> hashtbl_map ty m t' = (if b then (hashtbl_map ty m t)(key_bytes ty m y \<mapsto> y) else hashtbl_map ty m t)"
proof -
  let ?full = "tbl_items t = [] \<or> unat (used t) \<ge> 2 ^ log2_capacity t div 2"
  obtain b t1 where s: "(if ?full then hashtbl_grow resize ty m t else (True, t)) = (b, t1)"
    by (rule prod.exhaust)
  have full: "length (stored (tbl_items t)) \<le> 2 ^ log2_capacity t"
    using ok length_stored_le [of "tbl_items t"] by (auto simp: hashtbl_ok_def tbl_ok_def split: if_splits)
  have t1: "hashtbl_ok ty m t1 \<and> set (stored (tbl_items t1)) = set (stored (tbl_items t))
      \<and> (b \<longrightarrow> 0 < log2_capacity t1 \<and> length (stored (tbl_items t1)) < 2 ^ log2_capacity t1)"
  proof (cases ?full)
    case True
    then have g: "hashtbl_grow resize ty m t = (b, t1)" using s by simp
    note g' = hashtbl_grow_ok [OF ok bound g]
    have "length (stored (tbl_items t1)) < 2 ^ log2_capacity t1" if b
    proof -
      have a: "log2_capacity t < log2_capacity t1"
          "length (stored (tbl_items t1)) = length (stored (tbl_items t))"
        using g' that by auto
      have "(2 :: nat) ^ log2_capacity t < 2 ^ log2_capacity t1" using a(1) by simp
      then show ?thesis using a(2) full by linarith
    qed
    then show ?thesis using g' ok by (cases b) simp_all
  next
    case False
    then have u: "unat (used t) = length (stored (tbl_items t))" "0 < log2_capacity t"
        "unat (used t) < 2 ^ log2_capacity t div 2" and e: "t1 = t" using ok s by (auto simp: hashtbl_ok_def)
    have "(2 :: nat) ^ log2_capacity t div 2 \<le> 2 ^ log2_capacity t" by simp
    then have "length (stored (tbl_items t)) < 2 ^ log2_capacity t" using u(1,3) by linarith
    then show ?thesis unfolding e using ok u(2) by blast
  qed
  then have mp: "hashtbl_map ty m t1 = hashtbl_map ty m t" using hashtbl_map_stored [OF ok] by blast
  have nokey: "\<forall>p\<in>set (stored (tbl_items t1)). key_bytes ty m p \<noteq> key_bytes ty m y"
    using fresh t1 by (simp add: hashtbl_map_def find_None_iff)
  show ?thesis
  proof (cases b)
    case True
    then have r: "0 < log2_capacity t1" "length (stored (tbl_items t1)) < 2 ^ log2_capacity t1"
      using t1 by simp_all
    obtain t' where t': "insert_probe (slot_mask (log2_capacity t1)) y (2 ^ log2_capacity t1)
          (hash_of_item ty m y AND slot_mask (log2_capacity t1)) t1 = Some t'"
        "hashtbl_ok ty m t'" "set (stored (tbl_items t')) = insert y (set (stored (tbl_items t1)))"
      using insert_probe_ok [OF conjunct1 [OF t1] r(1) y nokey r(2)] by auto
    have "hashtbl_map ty m t' = (hashtbl_map ty m t1)(key_bytes ty m y \<mapsto> y)"
      by (rule hashtbl_map_eqI [OF t'(2)])
        (use nokey in \<open>auto simp: t'(3) hashtbl_map_iff [OF conjunct1 [OF t1]]\<close>)
    then show ?thesis using True t' mp unfolding hashtbl_insert_def s by (intro exI [of _ True] exI [of _ t']) (simp add: Let_def)
  next
    case False
    then show ?thesis using t1 mp unfolding hashtbl_insert_def s by (intro exI [of _ False] exI [of _ t1]) (simp add: Let_def)
  qed
qed

lemma hashtbl_rehash_same:
  assumes "hashtbl_ok ty m t" and "tbl_items t \<noteq> []"
  shows "hashtbl_ok ty m (snd (hashtbl_rehash resize ty m (log2_capacity t) t))
    \<and> set (stored (tbl_items (snd (hashtbl_rehash resize ty m (log2_capacity t) t)))) = set (stored (tbl_items t))"
proof (cases "resize (2 ^ log2_capacity t)")
  case True
  have "0 < log2_capacity t" "log2_capacity t < 32"
    using assms by (simp_all add: hashtbl_ok_def tbl_ok_def)
  from hashtbl_rehash_ok [of ty m t "log2_capacity t" resize, OF assms(1) order_refl this True]
  obtain t' where "hashtbl_rehash resize ty m (log2_capacity t) t = (True, t')" "hashtbl_ok ty m t'"
    "set (stored (tbl_items t')) = set (stored (tbl_items t))" by blast
  then show ?thesis by simp
next
  case False
  then show ?thesis using assms by (simp add: hashtbl_rehash_def)
qed

lemma del_slot_ok:
  assumes ok: "hashtbl_ok ty m t" and i: "i < length (tbl_items t)" "1 < tbl_items t ! i"
  shows "hashtbl_ok ty m (del_slot resize ty m (slot_mask (log2_capacity t)) (of_nat i) t)
    \<and> set (stored (tbl_items (del_slot resize ty m (slot_mask (log2_capacity t)) (of_nat i) t)))
        = set (stored (tbl_items t)) - {tbl_items t ! i}"
proof -
  let ?xs = "tbl_items t" and ?lg = "log2_capacity t"
  let ?nz = "?xs ! cyc (length ?xs) i 1 \<noteq> 0"
  define v :: ptr where "v = (if ?nz then 1 else 0)"
  have tok: "tbl_ok ty m ?lg ?xs" and lg: "0 < ?lg" "?lg < 32" and len: "length ?xs = 2 ^ ?lg"
    and u: "unat (used t) = length (stored ?xs)"
    and ho: "unat (holes t) = length (filter (\<lambda>p. p = 1) ?xs)"
    using ok i(1) by (auto simp: hashtbl_ok_def tbl_ok_def split: if_splits)
  have two: "(2 :: nat) ^ ?lg \<le> 2 ^ 31" using lg by (intro power_increasing) auto
  have ui: "unat (of_nat i :: u32) = i" using i(1) len two by (intro unat_of_nat_32) simp
  have "i mod 2 ^ ?lg = i" using i(1) len by simp
  then have nx: "unat ((of_nat i + 1 :: u32) AND slot_mask ?lg) = cyc (length ?xs) i 1"
    unfolding unat_next_slot [OF lg(2)] ui len cyc_def by simp
  have le: "v \<le> 1" by (simp add: v_def)
  obtain as bs where s: "stored ?xs = as @ ?xs ! i # bs" "stored (?xs[i := v]) = as @ bs"
    using stored_remove [OF i le] by blast
  have r: "reachable_from (home ty m ?lg) ?xs" and dk: "distinct (map (key_bytes ty m) (stored ?xs))"
    using tok by (simp_all only: tbl_ok_def)
  have "reachable_from (home ty m ?lg) (?xs[i := v])"
  proof (cases ?nz)
    case True
    then have "v = 1" by (simp add: v_def)
    then show ?thesis using reachable_update [OF r, of v i] by simp
  next
    case False
    then show ?thesis using reachable_free [OF r] by (simp add: v_def)
  qed
  then have tok': "tbl_ok ty m ?lg (?xs[i := v])"
    using dk lg(2) len unfolding tbl_ok_def s by simp
  have "distinct (as @ ?xs ! i # bs)" using dk unfolding s distinct_map by (rule conjunct1)
  then have set': "set (stored (?xs[i := v])) = set (stored ?xs) - {?xs ! i}" unfolding s by auto
  define h' where "h' = (if ?nz then holes t + 1 else holes t)"
  have n1: "?xs ! i \<noteq> 1" and ne: "?xs \<noteq> []" using i by auto
  have "length (filter (\<lambda>p. p = 1) ?xs) \<le> length ?xs" by simp
  then have "length (filter (\<lambda>p. p = 1) (?xs[i := v])) = unat h'"
    using filter_update_count [OF i(1), of "\<lambda>p. p = 1" v] n1 ho two len
    by (auto simp: h'_def v_def unat_word_ariths)
  moreover have u': "unat (used t) = Suc (length (stored (?xs[i := v])))" unfolding u s by simp
  then have "used t \<noteq> 0" by (metis unsigned_0 nat.distinct(1))
  then have "unat (used t - 1) = length (stored (?xs[i := v]))" using u' unat_minus_one [of "used t"] by linarith
  ultimately have ok1: "hashtbl_ok ty m (t\<lparr> tbl_items := ?xs[i := v], holes := h', used := used t - 1 \<rparr>)"
      (is "hashtbl_ok ty m ?t1")
    using tok' lg ne by (simp add: hashtbl_ok_def)
  have d: "del_slot resize ty m (slot_mask ?lg) (of_nat i) t =
      (if unat h' > 64 \<and> unat h' > length ?xs div 2
       then snd (hashtbl_rehash resize ty m (log2_capacity ?t1) ?t1) else ?t1)"
    by (cases ?nz) (simp_all add: del_slot_def nx ui Let_def v_def h'_def del: unat_slot)
  have "tbl_items ?t1 \<noteq> []" using ne by simp
  then show ?thesis unfolding d using ok1 set' hashtbl_rehash_same [OF ok1, of resize] by simp
qed

lemma hashtbl_del_found:
  fixes resize :: "nat \<Rightarrow> bool"
  assumes ok: "hashtbl_ok ty m t" and i: "i < length (tbl_items t)" "1 < tbl_items t ! i"
    and k: "key_bytes ty m (tbl_items t ! i) = k"
  defines "t' \<equiv> del_slot resize ty m (slot_mask (log2_capacity t)) (of_nat i) t"
  shows "(\<exists>p. hashtbl_map ty m t k = Some p) \<and> hashtbl_ok ty m t'
    \<and> hashtbl_map ty m t' = (hashtbl_map ty m t)(k := None)"
proof -
  let ?p = "tbl_items t ! i"
  have p: "hashtbl_map ty m t k = Some ?p"
    using i k by (auto simp: hashtbl_map_iff [OF ok] stored_iff)
  note d = del_slot_ok [OF ok i, of resize, folded t'_def]
  have "hashtbl_map ty m t' = (hashtbl_map ty m t)(k := None)"
  proof (rule hashtbl_map_eqI [OF conjunct1 [OF d]])
    fix k' q
    have "q = ?p" if "q \<in> set (stored (tbl_items t))" "key_bytes ty m q = k"
      using that p hashtbl_map_iff [OF ok, of k q] by simp
    then show "((hashtbl_map ty m t)(k := None)) k' = Some q
        \<longleftrightarrow> q \<in> set (stored (tbl_items t')) \<and> key_bytes ty m q = k'"
      using d k by (auto simp: hashtbl_map_iff [OF ok])
  qed
  then show ?thesis using d p by blast
qed

lemma hashtbl_del_ok:
  assumes ok: "hashtbl_ok ty m t"
  shows "\<exists>t'. hashtbl_del resize ty m key t = (hashtbl_map ty m t (bytes_at m key (unat (key_sz ty))) \<noteq> None, t')
    \<and> hashtbl_ok ty m t'
    \<and> hashtbl_map ty m t' = (hashtbl_map ty m t)(bytes_at m key (unat (key_sz ty)) := None)"
proof -
  let ?xs = "tbl_items t" and ?lg = "log2_capacity t" and ?K = "bytes_at m key (unat (key_sz ty))"
  let ?h = "unat (hash_32 m key (key_sz ty) AND slot_mask (log2_capacity t))"
  have absent: ?thesis if "\<forall>p\<in>set (stored ?xs). key_bytes ty m p \<noteq> ?K" "hashtbl_del resize ty m key t = (False, t)"
  proof -
    have "hashtbl_map ty m t ?K = None" using that(1) by (simp add: hashtbl_map_def find_None_iff)
    moreover from this have "(hashtbl_map ty m t)(?K := None) = hashtbl_map ty m t" by auto
    ultimately show ?thesis using ok that(2) by simp
  qed
  show ?thesis
  proof (cases "used t = 0")
    case True
    then have "stored ?xs = []" using ok by (auto simp: hashtbl_ok_def stored_def split: if_splits)
    then show ?thesis using True by (intro absent) (simp_all add: hashtbl_del_def)
  next
    case False
    then have tok: "tbl_ok ty m ?lg ?xs" and lg: "?lg < 32" and len: "length ?xs = 2 ^ ?lg"
      using ok by (auto simp: hashtbl_ok_def tbl_ok_def split: if_splits)
    have d: "hashtbl_del resize ty m key t =
        (case List.find (\<lambda>d. stops ty m key (?xs ! cyc (2 ^ ?lg) ?h d)) [0..<2 ^ ?lg] of
           None \<Rightarrow> (False, t)
         | Some d \<Rightarrow> if ?xs ! cyc (2 ^ ?lg) ?h d = 0 then (False, t)
             else (True, del_slot resize ty m (slot_mask ?lg) (of_nat (cyc (2 ^ ?lg) ?h d)) t))"
        (is "_ = (case ?f of None \<Rightarrow> _ | Some d \<Rightarrow> _)")
      using False del_probe_find [OF lg next_slot_less] by (simp add: hashtbl_del_def del: unat_slot)
    note s = search_result [OF tok, of key]
    show ?thesis
    proof (cases ?f)
      case None
      then show ?thesis using s d by (intro absent) simp_all
    next
      case (Some j)
      show ?thesis
      proof (cases "?xs ! cyc (2 ^ ?lg) ?h j = 0")
        case True
        then show ?thesis using Some s d by (intro absent) simp_all
      next
        case False
        let ?i = "cyc (2 ^ ?lg) ?h j"
        have p: "?xs ! ?i \<in> set (stored ?xs)" "key_bytes ty m (?xs ! ?i) = ?K"
          using s Some False by (simp_all del: unat_slot)
        have i: "?i < length ?xs" "1 < ?xs ! ?i" using p(1) unfolding len stored_iff by simp_all
        show ?thesis using hashtbl_del_found [OF ok i p(2)] d Some False by (simp del: unat_slot)
      qed
    qed
  qed
qed

section \<open>A keyed store\<close>

text \<open>
  What a client of a keyed store relies on: \<open>view\<close> is the map a state stands for, \<open>key\<close> the key of an item and
  \<open>name\<close> the key a key reference denotes.  The client program inserts and removes items.  \<open>kv_spec\<close> is what it does
  to the map, given the results of its calls: which insertions found memory, and that a removal
  reports whether the key was there.  A store does not look for the key before it inserts an item, so a program
  must not insert a key that may still be in the store; \<open>kv_fresh\<close> checks this, given the keys that may be.
\<close>

datatype ('v, 'a) kv_op = Insert 'v | Remove 'a

fun kv_run :: "('v \<Rightarrow> 's \<Rightarrow> (bool \<times> 's) option) \<Rightarrow> ('a \<Rightarrow> 's \<Rightarrow> bool \<times> 's)
    \<Rightarrow> ('v, 'a) kv_op list \<Rightarrow> 's \<Rightarrow> (bool list \<times> 's) option" where
  "kv_run put del [] s = Some ([], s)"
| "kv_run put del (Insert v # ops) s = do {
     (b, s1) \<leftarrow> put v s;
     (bs, s2) \<leftarrow> kv_run put del ops s1;
     Some (b # bs, s2) }"
| "kv_run put del (Remove a # ops) s = do {
     (bs, s2) \<leftarrow> kv_run put del ops (snd (del a s));
     Some (fst (del a s) # bs, s2) }"

fun kv_spec :: "('v \<Rightarrow> 'k) \<Rightarrow> ('a \<Rightarrow> 'k) \<Rightarrow> ('v, 'a) kv_op list \<Rightarrow> bool list \<Rightarrow> ('k \<rightharpoonup> 'v) \<Rightarrow> ('k \<rightharpoonup> 'v) option" where
  "kv_spec key name [] [] M = Some M"
| "kv_spec key name (Insert v # ops) (b # bs) M = kv_spec key name ops bs (if b then M(key v \<mapsto> v) else M)"
| "kv_spec key name (Remove a # ops) (b # bs) M =
     (if b \<longleftrightarrow> M (name a) \<noteq> None then kv_spec key name ops bs (M(name a := None)) else None)"
| "kv_spec key name _ _ M = None"

fun kv_fresh :: "('v \<Rightarrow> 'k) \<Rightarrow> ('a \<Rightarrow> 'k) \<Rightarrow> ('v, 'a) kv_op list \<Rightarrow> 'k set \<Rightarrow> bool" where
  "kv_fresh key name [] live \<longleftrightarrow> True"
| "kv_fresh key name (Insert v # ops) live \<longleftrightarrow> key v \<notin> live \<and> kv_fresh key name ops (insert (key v) live)"
| "kv_fresh key name (Remove a # ops) live \<longleftrightarrow> kv_fresh key name ops (live - {name a})"

locale key_store =
  fixes ok :: "'s \<Rightarrow> bool"
    and view :: "'s \<Rightarrow> 'k \<Rightarrow> 'v option"
    and key :: "'v \<Rightarrow> 'k" and name :: "'a \<Rightarrow> 'k"
    and valid :: "'v \<Rightarrow> bool"
    and put :: "'v \<Rightarrow> 's \<Rightarrow> (bool \<times> 's) option"
    and del :: "'a \<Rightarrow> 's \<Rightarrow> bool \<times> 's"
    and get :: "'a \<Rightarrow> 's \<Rightarrow> 'v option"
  assumes put_law: "ok s \<Longrightarrow> valid v \<Longrightarrow> view s (key v) = None \<Longrightarrow>
      \<exists>b s'. put v s = Some (b, s') \<and> ok s' \<and> view s' = (if b then (view s)(key v \<mapsto> v) else view s)"
    and del_law: "ok s \<Longrightarrow> ok (snd (del a s)) \<and> view (snd (del a s)) = (view s)(name a := None)
      \<and> (fst (del a s) \<longleftrightarrow> view s (name a) \<noteq> None)"
    and get_law: "ok s \<Longrightarrow> get a s = view s (name a)"
begin

lemma run_refines:
  assumes "ok s" and "\<forall>v. Insert v \<in> set ops \<longrightarrow> valid v" and "kv_fresh key name ops live" and "dom (view s) \<subseteq> live"
  shows "\<exists>bs s'. kv_run put del ops s = Some (bs, s') \<and> ok s' \<and> kv_spec key name ops bs (view s) = Some (view s')
    \<and> (\<forall>a. get a s' = view s' (name a))"
  using assms
proof (induction ops arbitrary: s live)
  case Nil
  then show ?case by (simp add: get_law)
next
  case (Cons op ops)
  show ?case
  proof (cases op)
    case (Insert v)
    have "view s (key v) = None" using Cons.prems(3,4) Insert by auto
    then obtain b s1 where s1: "put v s = Some (b, s1)" "ok s1" "view s1 = (if b then (view s)(key v \<mapsto> v) else view s)"
      using put_law [OF Cons.prems(1), of v] Cons.prems(2) Insert by auto
    have "kv_fresh key name ops (insert (key v) live)" "dom (view s1) \<subseteq> insert (key v) live"
      using Cons.prems(3,4) Insert by (auto simp: s1(3) split: if_splits)
    moreover have "\<forall>v. Insert v \<in> set ops \<longrightarrow> valid v" using Cons.prems(2) by simp
    ultimately obtain bs s' where "kv_run put del ops s1 = Some (bs, s')" "ok s'"
        "kv_spec key name ops bs (view s1) = Some (view s')" "\<forall>a. get a s' = view s' (name a)"
      using Cons.IH [OF s1(2)] by blast
    then show ?thesis using Insert s1 by (intro exI [of _ "b # bs"] exI [of _ s']) (simp split: if_splits)
  next
    case (Remove a)
    have d: "ok (snd (del a s))" "view (snd (del a s)) = (view s)(name a := None)" "fst (del a s) \<longleftrightarrow> view s (name a) \<noteq> None"
      using del_law [OF Cons.prems(1)] by auto
    have "\<forall>v. Insert v \<in> set ops \<longrightarrow> valid v" "kv_fresh key name ops (live - {name a})"
      "dom (view (snd (del a s))) \<subseteq> live - {name a}"
      using Cons.prems(2-4) Remove by (auto simp: d(2))
    from Cons.IH [OF d(1) this, unfolded d(2)]
    obtain bs s' where "kv_run put del ops (snd (del a s)) = Some (bs, s')" "ok s'"
        "kv_spec key name ops bs ((view s)(name a := None)) = Some (view s')" "\<forall>a'. get a' s' = view s' (name a')" by blast
    then show ?thesis using Remove d(3) by (intro exI [of _ "fst (del a s) # bs"] exI [of _ s']) simp
  qed
qed

end

definition table_ok :: "(nat \<Rightarrow> bool) \<Rightarrow> tbl_type \<Rightarrow> mem \<Rightarrow> hashtbl \<Rightarrow> bool" where
  "table_ok resize ty m t \<longleftrightarrow> hashtbl_ok ty m t \<and> (\<forall>n. resize n \<longrightarrow> n < 2 ^ 31)"

definition lookup_opt :: "tbl_type \<Rightarrow> mem \<Rightarrow> ptr \<Rightarrow> hashtbl \<Rightarrow> ptr option" where
  "lookup_opt ty m key t = (if hashtbl_lookup ty m key t = 0 then None else Some (hashtbl_lookup ty m key t))"

interpretation ht: key_store "table_ok resize ty m" "hashtbl_map ty m" "key_bytes ty m"
    "\<lambda>a. bytes_at m a (unat (key_sz ty))" "\<lambda>p. 1 < p"
    "hashtbl_insert resize ty m" "hashtbl_del resize ty m" "lookup_opt ty m"
  for resize ty m
proof
  fix t v
  assume "table_ok resize ty m t" "1 < v" "hashtbl_map ty m t (key_bytes ty m v) = None"
  then show "\<exists>b t'. hashtbl_insert resize ty m v t = Some (b, t') \<and> table_ok resize ty m t'
      \<and> hashtbl_map ty m t' = (if b then (hashtbl_map ty m t)(key_bytes ty m v \<mapsto> v) else hashtbl_map ty m t)"
    using hashtbl_insert_ok [of ty m t v resize] unfolding table_ok_def by blast
next
  fix t a
  assume "table_ok resize ty m t"
  then have ok: "hashtbl_ok ty m t" "\<forall>n. resize n \<longrightarrow> n < 2 ^ 31" unfolding table_ok_def by blast+
  show "table_ok resize ty m (snd (hashtbl_del resize ty m a t))
      \<and> hashtbl_map ty m (snd (hashtbl_del resize ty m a t)) = (hashtbl_map ty m t)(bytes_at m a (unat (key_sz ty)) := None)
      \<and> (fst (hashtbl_del resize ty m a t) \<longleftrightarrow> hashtbl_map ty m t (bytes_at m a (unat (key_sz ty))) \<noteq> None)"
    using hashtbl_del_ok [OF ok(1), of resize a] ok(2) unfolding table_ok_def by auto
next
  fix t a
  assume "table_ok resize ty m t"
  then have ok: "hashtbl_ok ty m t" by (simp only: table_ok_def)
  have "p \<noteq> 0" if "hashtbl_map ty m t k = Some p" for k p
    using that by (auto simp: hashtbl_map_iff [OF ok] stored_iff)
  then show "lookup_opt ty m a t = hashtbl_map ty m t (bytes_at m a (unat (key_sz ty)))"
    by (auto simp: lookup_opt_def hashtbl_lookup_map [OF ok] split: option.splits)
qed

lemma hashtbl_init_ok: "hashtbl_ok ty m hashtbl_init" "hashtbl_map ty m hashtbl_init = Map.empty"
  by (auto simp: hashtbl_ok_def hashtbl_init_def hashtbl_map_def stored_def)

lemma hash_bernstein_cstr:
  "cstr m s xs \<Longrightarrow> hash_bernstein m s = Some (foldl (\<lambda>h c. 33 * h + scast c) 1 xs)"
proof -
  have "hash_bernstein_loop m s h = Some (foldl (\<lambda>h c. 33 * h + scast c) h xs)" if "cstr m s xs" for h
    using that
  proof (induction xs arbitrary: s h)
    case Nil
    then show ?case by (simp add: hash_bernstein_loop.simps)
  next
    case (Cons x xs)
    then show ?case by (subst hash_bernstein_loop.simps) simp
  qed
  then show "cstr m s xs \<Longrightarrow> ?thesis" by (simp add: hash_bernstein_def)
qed

section \<open>Properties\<close>



end
