(* ===== verification/Uleb.thy ===== *)
theory Uleb
  imports Dgos_Prelude
begin

text \<open>
  The decoders of \<^verbatim>\<open>kernel/lib/uleb.cc\<close> and \<^verbatim>\<open>uleb.h\<close> for the numbers in DWARF unwind tables:
  variable length (LEB128) and fixed width.  The input pointer is an argument and a result.
  Shifting a 64-bit value by 64 or more is undefined in C++ and gives \<open>None\<close> here, as does the
  panic on an unknown encoding.
\<close>

section \<open>Model\<close>

partial_function (option) decode_uleb128_loop :: "mem \<Rightarrow> ptr \<Rightarrow> u8 \<Rightarrow> u64 \<Rightarrow> (u64 \<times> ptr) option" where
  "decode_uleb128_loop m inp shift result = do {
     let byte = m inp;
     assert_that (shift < 64);
     let result = result OR push_bit (unat shift) (ucast (byte AND 0x7F));
     if byte AND 0x80 = 0 then Some (result, inp + 1)
     else decode_uleb128_loop m (inp + 1) (shift + 7) result }"

definition decode_uleb128 :: "mem \<Rightarrow> ptr \<Rightarrow> (u64 \<times> ptr) option" where
  "decode_uleb128 m inp = decode_uleb128_loop m inp 0 0"

partial_function (option) decode_sleb128_loop :: "mem \<Rightarrow> ptr \<Rightarrow> u8 \<Rightarrow> u64 \<Rightarrow> (u64 \<times> ptr) option" where
  "decode_sleb128_loop m inp shift result = do {
     let byte = m inp;
     assert_that (shift < 64);
     let result = result OR push_bit (unat shift) (ucast (byte AND 0x7F));
     if byte AND 0x80 = 0 \<and> byte AND 0x40 \<noteq> 0
     then Some (if unat shift < 64 then result OR push_bit (unat shift) (NOT 0) else result, inp + 1)
     else decode_sleb128_loop m (inp + 1) (shift + 7) result }"

definition decode_sleb128 :: "mem \<Rightarrow> ptr \<Rightarrow> (u64 \<times> ptr) option" where
  "decode_sleb128 m inp = decode_sleb128_loop m inp 0 0"

text \<open>\<^verbatim>\<open>fetch_enc_val\<close> at an unsigned and at a signed type of \<open>n\<close> bytes; the latter is sign extended.\<close>

definition fetch_unsigned :: "nat \<Rightarrow> mem \<Rightarrow> ptr \<Rightarrow> u64 \<times> ptr" where
  "fetch_unsigned n m inp = (of_nat (rd_le m inp n), inp + of_nat n)"

definition fetch_signed :: "nat \<Rightarrow> mem \<Rightarrow> ptr \<Rightarrow> u64 \<times> ptr" where
  "fetch_signed n m inp = (signed_take_bit (8 * n - 1) (of_nat (rd_le m inp n)), inp + of_nat n)"

definition read_enc_val :: "mem \<Rightarrow> ptr \<Rightarrow> u8 \<Rightarrow> (u64 \<times> ptr) option" where
  "read_enc_val m inp encoding =
    (let e = encoding AND 0xF
     in if e = 0xFF then Some (0, inp)
        else if e = 0x01 then decode_uleb128 m inp
        else if e = 0x02 then Some (fetch_unsigned 2 m inp)
        else if e = 0x03 then Some (fetch_unsigned 4 m inp)
        else if e = 0x04 then Some (fetch_unsigned 8 m inp)
        else if e = 0x09 then decode_sleb128 m inp
        else if e = 0x0A then Some (fetch_signed 2 m inp)
        else if e = 0x0B then Some (fetch_signed 4 m inp)
        else if e = 0x0C then Some (fetch_signed 8 m inp)
        else None)"

section \<open>Unsigned numbers\<close>

text \<open>The ULEB128 encoding of a number, as the DWARF standard defines it.\<close>

fun uleb128 :: "nat \<Rightarrow> u8 list" where
  "uleb128 n = (if n < 128 then [of_nat n] else of_nat (n mod 128 + 128) # uleb128 (n div 128))"

declare uleb128.simps [simp del]

lemma or_push_bit_add:
  assumes "a < 2 ^ s" and "s < 64"
  shows "(of_nat a :: u64) OR push_bit s b = of_nat a + push_bit s b"
proof -
  have "\<not> bit (of_nat a :: u64) j" if "s \<le> j" for j
  proof -
    have "unat (of_nat a :: u64) = a"
    proof (rule unat_of_nat_64)
      have "(2 :: nat) ^ s \<le> 2 ^ 64" using assms(2) by (intro power_increasing) auto
      then show "a < 18446744073709551616" using assms(1) by simp
    qed
    then show ?thesis using ge_power_iff_bit [of s "of_nat a :: u64"] assms(1) that by auto
  qed
  then have "\<not> bit (of_nat a :: u64) j \<or> \<not> bit (push_bit s b) j" for j
    by (cases "s \<le> j") (auto simp: bit_push_bit_iff)
  then show ?thesis by (rule disjunctive_add [symmetric])
qed

lemma low_bits:
  "n < 128 \<Longrightarrow> (of_nat n :: u8) AND 0x7F = of_nat n" "n < 128 \<Longrightarrow> (of_nat n :: u8) AND 0x80 = 0"
  "(of_nat (n mod 128 + 128) :: u8) AND 0x7F = of_nat (n mod 128)"
  "(of_nat (n mod 128 + 128) :: u8) AND 0x80 \<noteq> 0"
proof -
  have low: "(of_nat k :: u8) AND 0x7F = of_nat (k mod 128)" for k
    using unat_and_mask [of "of_nat k :: u8" 7]
    by (simp add: mask_numeral word_unat_eq_iff take_bit_eq_mod unat_of_nat mod_mod_cancel)
  show "n < 128 \<Longrightarrow> (of_nat n :: u8) AND 0x7F = of_nat n" by (simp add: low)
  show "(of_nat (n mod 128 + 128) :: u8) AND 0x7F = of_nat (n mod 128)"
    unfolding low by simp
  have top: "(w :: u8) AND 0x80 = 0 \<longleftrightarrow> unat w < 128" for w
  proof -
    have "w AND 0x80 = 0 \<longleftrightarrow> \<not> bit w 7"
      by (simp add: bit_iff_and_push_bit_not_eq_0)
    also have "\<dots> \<longleftrightarrow> (\<forall>j\<ge>7. \<not> bit w j)"
    proof
      assume "\<not> bit w 7"
      moreover have "j = 7" if "7 \<le> j" "bit w j" for j
        using bit_imp_le_length [OF that(2)] that(1) by simp
      ultimately show "\<forall>j\<ge>7. \<not> bit w j" by blast
    qed simp
    finally show ?thesis using ge_power_iff_bit [of 7 w] by (auto simp: not_le)
  qed
  show "n < 128 \<Longrightarrow> (of_nat n :: u8) AND 0x80 = 0" by (simp add: top unat_of_nat take_bit_eq_mod)
  show "(of_nat (n mod 128 + 128) :: u8) AND 0x80 \<noteq> 0"
    by (simp add: top unat_of_nat take_bit_eq_mod del: of_nat_add)
qed

lemma or_digit:
  assumes "a < 2 ^ (7 * k)" and "7 * k < 64" and "d < 128"
  shows "(of_nat a :: u64) OR push_bit (7 * k) (ucast (of_nat d :: u8)) = of_nat (a + d * 2 ^ (7 * k))"
proof -
  have "(ucast (of_nat d :: u8) :: u64) = of_nat d"
    using assms(3) by (simp add: word_unat_eq_iff unat_ucast_8_64 unat_of_nat take_bit_eq_mod)
  then show ?thesis using or_push_bit_add [OF assms(1,2)] by (simp add: push_bit_eq_mult)
qed

lemma base128_split:
  "n mod 128 * 2 ^ (7 * k) + n div 128 * 2 ^ (7 * Suc k) = n * (2 :: nat) ^ (7 * k)"
proof -
  have "n * 2 ^ (7 * k) = (n mod 128 + 128 * (n div 128)) * 2 ^ (7 * k)" by simp
  also have "\<dots> = n mod 128 * 2 ^ (7 * k) + n div 128 * (128 * 2 ^ (7 * k))"
    by (simp only: distrib_right mult.assoc mult.left_commute)
  finally show ?thesis by (simp add: power_add)
qed

lemma decode_uleb128_loop_digits:
  assumes "bytes_at m inp (length (uleb128 n)) = uleb128 n" and "k < 10"
    and "a < 2 ^ (7 * k)" and "n * 2 ^ (7 * k) < 18446744073709551616"
    and "k = 0 \<or> 0 < n"
  shows "decode_uleb128_loop m inp (of_nat (7 * k)) (of_nat a) =
    Some (of_nat (a + n * 2 ^ (7 * k)), inp + of_nat (length (uleb128 n)))"
  using assms
proof (induction n arbitrary: inp k a rule: uleb128.induct)
  case (1 n)
  have s: "unat (of_nat (7 * k) :: u8) = 7 * k" "7 * k < 64" "(of_nat (7 * k) :: u8) < 64"
    using "1.prems"(2) by (simp_all add: unat_of_nat take_bit_eq_mod word_less_nat_alt del: of_nat_mult)
  note step = or_digit [OF "1.prems"(3) s(2)]
  show ?case
  proof (cases "n < 128")
    case True
    then have e: "uleb128 n = [of_nat n]" by (simp add: uleb128.simps)
    have "m inp = of_nat n" using "1.prems"(1) by (simp add: e)
    then show ?thesis
      using step [OF True] s by (simp add: decode_uleb128_loop.simps e low_bits(1,2) [OF True] Let_def)
  next
    case False
    then have e: "uleb128 n = of_nat (n mod 128 + 128) # uleb128 (n div 128)"
      by (subst uleb128.simps) simp
    have b: "m inp = of_nat (n mod 128 + 128)"
        "bytes_at m (inp + 1) (length (uleb128 (n div 128))) = uleb128 (n div 128)"
      using "1.prems"(1) by (simp_all add: e)
    have nk: "n div 128 * 2 ^ (7 * Suc k) \<le> n * 2 ^ (7 * k)"
      by (simp add: power_add)
    have pos: "0 < n div 128" using False by (simp add: div_greater_zero_iff)
    then have "(2 :: nat) ^ (7 * Suc k) \<le> n div 128 * 2 ^ (7 * Suc k)" by simp
    moreover have "(2 :: nat) ^ 64 = 18446744073709551616" by simp
    ultimately have "(2 :: nat) ^ (7 * Suc k) < 2 ^ 64" using nk "1.prems"(4) by linarith
    then have "7 * Suc k < 64" by (rule power_less_imp_less_exp [rotated]) simp
    then have k: "Suc k < 10" by simp
    have "n mod 128 < 128" by simp
    then have "n mod 128 * 2 ^ (7 * k) \<le> 127 * 2 ^ (7 * k)" by (intro mult_le_mono1) linarith
    moreover have "(2 :: nat) ^ (7 * Suc k) = 128 * 2 ^ (7 * k)" by (simp add: power_add)
    ultimately have a: "a + n mod 128 * 2 ^ (7 * k) < 2 ^ (7 * Suc k)" using "1.prems"(3) by linarith
    have sum: "a + n mod 128 * 2 ^ (7 * k) + n div 128 * 2 ^ (7 * Suc k) = a + n * 2 ^ (7 * k)"
      using base128_split [of n k] by linarith
    have "decode_uleb128_loop m inp (of_nat (7 * k)) (of_nat a) =
        decode_uleb128_loop m (inp + 1) (of_nat (7 * Suc k)) (of_nat (a + n mod 128 * 2 ^ (7 * k)))"
    proof -
      have l: "m inp AND 0x7F = of_nat (n mod 128)" "m inp AND 0x80 \<noteq> 0"
        unfolding b(1) by (rule low_bits)+
      have "(of_nat (7 * k) :: u8) + 7 = of_nat (7 * Suc k)" by simp
      then show ?thesis
        using step [of "n mod 128"] s l
        by (subst decode_uleb128_loop.simps) (simp add: Let_def del: of_nat_mult of_nat_add)
    qed
    also have "\<dots> = Some (of_nat (a + n * 2 ^ (7 * k)), inp + 1 + of_nat (length (uleb128 (n div 128))))"
      unfolding "1.IH" [OF False b(2) k a le_less_trans [OF nk "1.prems"(4)] disjI2 [OF pos]] sum
      by (rule refl)
    finally show ?thesis by (simp add: e add.assoc)
  qed
qed

section \<open>Signed numbers\<close>

lemma decode_sleb128_loop_runs_off:
  assumes "\<forall>i<n. m (inp + of_nat i) AND 0xC0 \<noteq> 0x40" and "64 \<le> unat shift + 7 * n" and "unat shift < 128"
  shows "decode_sleb128_loop m inp shift result = None"
  using assms
proof (induction n arbitrary: inp shift result)
  case 0
  then show ?case by (subst decode_sleb128_loop.simps) (simp add: word_less_nat_alt)
next
  case (Suc n)
  have go: "\<not> (m inp AND 0x80 = 0 \<and> m inp AND 0x40 \<noteq> 0)"
  proof
    assume "m inp AND 0x80 = 0 \<and> m inp AND 0x40 \<noteq> 0"
    then have "\<not> bit (m inp) 7" "bit (m inp) 6" by (simp_all add: bit_iff_and_push_bit_not_eq_0)
    then have "m inp AND 0xC0 = 0x40"
      by (intro bit_word_eqI) (auto simp: bit_simps less_Suc_eq numeral_eq_Suc)
    moreover have "m inp AND 0xC0 \<noteq> 0x40" using Suc.prems(1) [rule_format, of 0] by simp
    ultimately show False by contradiction
  qed
  show ?case
  proof (cases "unat shift < 64")
    case True
    then have "unat (shift + 7) = unat shift + 7" by (simp add: unat_word_ariths)
    moreover have "\<forall>i<n. m (inp + 1 + of_nat i) AND 0xC0 \<noteq> 0x40"
      using Suc.prems(1) by (metis Suc_less_eq add.assoc of_nat_Suc)
    ultimately have "decode_sleb128_loop m (inp + 1) (shift + 7) r = None" for r
      using True Suc.prems by (intro Suc.IH) auto
    then show ?thesis using go by (subst decode_sleb128_loop.simps) (auto simp: Let_def)
  next
    case False
    then show ?thesis by (subst decode_sleb128_loop.simps) (simp add: word_less_nat_alt)
  qed
qed

section \<open>Properties\<close>

text \<open>
  C28. ULEB128 round trip: for every 64-bit value, decoding its encoding returns the value with the
  pointer after it, wherever the encoding is in memory and whatever follows it.
\<close>

theorem uleb128_roundtrip:
  assumes "bytes_at m inp (length (uleb128 (unat w))) = uleb128 (unat w)"
  shows "decode_uleb128 m inp = Some (w, inp + of_nat (length (uleb128 (unat w))))
    \<and> read_enc_val m inp 0x01 = Some (w, inp + of_nat (length (uleb128 (unat w))))"
  using decode_uleb128_loop_digits [OF assms, of 0 0]
  by (simp add: decode_uleb128_def read_enc_val_def Let_def)

theorem uleb128_roundtrip_witness:
  "decode_uleb128 ((\<lambda>_. 0)(8 := 0xE5, 9 := 0x8E, 10 := 0x26)) 8 = Some (624485, 11)"
  using uleb128_roundtrip [of "(\<lambda>_. 0)(8 := 0xE5, 9 := 0x8E, 10 := 0x26)" 8 624485]
  by (simp add: uleb128.simps)

text \<open>
  The signed decoder is wrong at both ends of the range.  A one-byte negative number always
  decodes to -1, because the sign extension starts at the shift of the last group and covers its
  seven bits.  A non-negative number does not stop the loop, which ends only at a byte with bit 6
  set and bit 7 clear: if none of the ten bytes from the input on is such a byte, for instance
  after a small non-negative number followed by others, the shift count runs past the width.
\<close>

theorem sleb128_wrong:
  assumes "m inp AND 0xC0 = 0x40" and "\<forall>i<10. m (inp' + of_nat i) AND 0xC0 \<noteq> 0x40"
  shows "decode_sleb128 m inp = Some (- 1, inp + 1) \<and> decode_sleb128 m inp' = None"
proof -
  have "bit (m inp AND 0xC0) n = bit (0x40 :: u8) n" for n by (simp only: assms(1))
  from this [of 6] this [of 7] have "bit (m inp) 6" "\<not> bit (m inp) 7"
    by (simp_all add: bit_simps numeral_eq_Suc)
  then have "m inp AND 0x40 \<noteq> 0" "m inp AND 0x80 = 0" by (simp_all add: bit_iff_and_push_bit_not_eq_0)
  then have "decode_sleb128 m inp = Some (- 1, inp + 1)"
    by (simp add: decode_sleb128_def decode_sleb128_loop.simps Let_def)
  moreover have "decode_sleb128 m inp' = None"
    using decode_sleb128_loop_runs_off [OF assms(2), of 0 0] by (simp add: decode_sleb128_def)
  ultimately show ?thesis by blast
qed

theorem sleb128_wrong_witness:
  "decode_sleb128 ((\<lambda>_. 0)(8 := 0x7E)) 8 = Some (- 1, 9) \<and> decode_sleb128 ((\<lambda>_. 0)(8 := 0x7E)) 16 = None"
proof -
  have "(16 :: ptr) + of_nat i \<noteq> 8" if "i < 10" for i
    using that by (simp add: word_unat_eq_iff unat_word_ariths unat_of_nat take_bit_eq_mod)
  then show ?thesis using sleb128_wrong [of "(\<lambda>_. 0)(8 := 0x7E)" 8 16] by simp
qed

end
