(* ===== verification/Priority_Queue.thy ===== *)
theory Priority_Queue
  imports Dgos_Prelude "HOL-Library.Multiset"
begin

text \<open>
  The binary heap of \<^verbatim>\<open>kernel/lib/priorityqueue.h\<close>.  The array \<^verbatim>\<open>items\<close> is a function on indices,
  because \<^verbatim>\<open>siftdown\<close> also reads the slot after the last item; touching a slot from \<^verbatim>\<open>capacity\<close> on
  is outside the allocated block and gives \<open>None\<close>, as a failing assertion does.  The comparator
  is an argument, and the calls of the \<^verbatim>\<open>swapped\<close> callback are recorded in order.
\<close>

section \<open>Model\<close>

record 'a priqueue_t =
  pq_items :: "nat \<Rightarrow> 'a"
  pq_capacity :: nat
  pq_count :: nat
  pq_swapped :: "('a \<times> 'a) list"

text \<open>\<open>def\<close> is the capacity chosen when none is given: a page less the allocator's overhead.\<close>

definition priqueue_init :: "nat \<Rightarrow> (nat \<Rightarrow> 'a) \<Rightarrow> nat \<Rightarrow> 'a priqueue_t" where
  "priqueue_init def fresh init_capacity =
    \<lparr> pq_items = fresh, pq_capacity = (if init_capacity = 0 then def else init_capacity),
      pq_count = 0, pq_swapped = [] \<rparr>"

definition leftchild :: "nat \<Rightarrow> nat" where
  "leftchild index = index + index + 1"

definition parent :: "nat \<Rightarrow> nat" where
  "parent index = (index - 1) div 2"

definition pq_swap :: "nat \<Rightarrow> nat \<Rightarrow> 'a priqueue_t \<Rightarrow> 'a priqueue_t" where
  "pq_swap a b q = q\<lparr> pq_items := (pq_items q)(a := pq_items q b, b := pq_items q a),
                      pq_swapped := pq_swapped q @ [(pq_items q b, pq_items q a)] \<rparr>"

function siftup :: "('a \<Rightarrow> 'a \<Rightarrow> int) \<Rightarrow> nat \<Rightarrow> 'a priqueue_t \<Rightarrow> nat \<times> 'a priqueue_t" where
  "siftup cmp index q =
    (if index = 0 then (index, q)
     else let parent_index = parent index
          in if cmp (pq_items q parent_index) (pq_items q index) \<ge> 0 then (index, q)
             else siftup cmp parent_index (pq_swap parent_index index q))"
  by pat_completeness auto
termination
  by (relation "measure (\<lambda>(cmp, index, q). index)") (auto simp: parent_def)

function siftdown_loop :: "('a \<Rightarrow> 'a \<Rightarrow> int) \<Rightarrow> nat \<Rightarrow> 'a priqueue_t \<Rightarrow> (nat \<times> 'a priqueue_t) option" where
  "siftdown_loop cmp index q =
    (if leftchild index < pq_count q then
       if leftchild index + 1 < pq_capacity q then
         let child = leftchild index;
             child = child + (if cmp (pq_items q child) (pq_items q (child + 1)) > 0 then 1 else 0)
         in if cmp (pq_items q index) (pq_items q child) > 0
            then siftdown_loop cmp child (pq_swap child index q) else Some (index, q)
       else None
     else Some (index, q))"
  by pat_completeness auto
termination
  by (relation "measure (\<lambda>(cmp, index, q). pq_count q - index)")
     (auto simp: leftchild_def pq_swap_def)

definition siftdown :: "('a \<Rightarrow> 'a \<Rightarrow> int) \<Rightarrow> nat \<Rightarrow> 'a priqueue_t \<Rightarrow> (nat \<times> 'a priqueue_t) option" where
  "siftdown cmp index q = do { assert_that (pq_count q > 0); siftdown_loop cmp index q }"

definition pq_peek :: "'a priqueue_t \<Rightarrow> 'a option" where
  "pq_peek q = do { assert_that (pq_count q > 0); Some (pq_items q 0) }"

text \<open>\<^verbatim>\<open>grow\<close> does nothing, so a push into a full queue writes behind the block.\<close>

definition pq_push :: "('a \<Rightarrow> 'a \<Rightarrow> int) \<Rightarrow> 'a \<Rightarrow> 'a priqueue_t \<Rightarrow> 'a priqueue_t option" where
  "pq_push cmp new_item q = do {
     let index = pq_count q;
     assert_that (index < pq_capacity q);
     let q = q\<lparr> pq_count := pq_count q + 1, pq_items := (pq_items q)(index := new_item) \<rparr>;
     Some (snd (siftup cmp index q)) }"

definition pq_pop :: "('a \<Rightarrow> 'a \<Rightarrow> int) \<Rightarrow> 'a priqueue_t \<Rightarrow> ('a \<times> 'a priqueue_t) option" where
  "pq_pop cmp q = do {
     assert_that (pq_count q > 0);
     let item = pq_items q 0;
     let q = q\<lparr> pq_items := (pq_items q)(0 := pq_items q (pq_count q - 1)), pq_count := pq_count q - 1 \<rparr>;
     if pq_count q > 0 then do { (_, q) \<leftarrow> siftdown cmp 0 q; Some (item, q) } else Some (item, q) }"

definition pq_update :: "('a \<Rightarrow> 'a \<Rightarrow> int) \<Rightarrow> nat \<Rightarrow> 'a priqueue_t \<Rightarrow> (nat \<times> 'a priqueue_t) option" where
  "pq_update cmp index q = do {
     assert_that (index < pq_count q);
     let (index, q) = siftup cmp index q;
     siftdown cmp index q }"

definition pq_remove_at :: "('a \<Rightarrow> 'a \<Rightarrow> int) \<Rightarrow> nat \<Rightarrow> 'a priqueue_t \<Rightarrow> 'a priqueue_t option" where
  "pq_remove_at cmp index q = do {
     assert_that (index < pq_count q);
     let q = q\<lparr> pq_items := (pq_items q)(index := pq_items q (pq_count q - 1)), pq_count := pq_count q - 1 \<rparr>;
     (_, q) \<leftarrow> pq_update cmp index q;
     Some q }"

declare siftup.simps [simp del] siftdown_loop.simps [simp del]

section \<open>Order and contents\<close>

text \<open>What the queue needs of a comparator: it is the sign of a total preorder.\<close>

definition cmp_order :: "('a \<Rightarrow> 'a \<Rightarrow> int) \<Rightarrow> bool" where
  "cmp_order cmp \<longleftrightarrow> (\<forall>a. cmp a a = 0) \<and> (\<forall>a b. cmp a b \<le> 0 \<longleftrightarrow> 0 \<le> cmp b a)
     \<and> (\<forall>a b c. 0 \<le> cmp a b \<longrightarrow> 0 \<le> cmp b c \<longrightarrow> 0 \<le> cmp a c)"

definition pq_heap :: "('a \<Rightarrow> 'a \<Rightarrow> int) \<Rightarrow> 'a priqueue_t \<Rightarrow> bool" where
  "pq_heap cmp q \<longleftrightarrow> (\<forall>i<pq_count q. 0 < i \<longrightarrow> 0 \<le> cmp (pq_items q (parent i)) (pq_items q i))"

definition pq_contents :: "'a priqueue_t \<Rightarrow> 'a multiset" where
  "pq_contents q = mset (map (pq_items q) [0..<pq_count q])"

text \<open>The heap order holds except possibly between \<open>k\<close> and its parent.\<close>

definition heap_but :: "('a \<Rightarrow> 'a \<Rightarrow> int) \<Rightarrow> nat \<Rightarrow> 'a priqueue_t \<Rightarrow> bool" where
  "heap_but cmp k q \<longleftrightarrow>
     (\<forall>i<pq_count q. 0 < i \<longrightarrow> i \<noteq> k \<longrightarrow> 0 \<le> cmp (pq_items q (parent i)) (pq_items q i))
     \<and> (\<forall>i<pq_count q. 0 < i \<longrightarrow> parent i = k \<longrightarrow> k \<noteq> 0 \<longrightarrow> 0 \<le> cmp (pq_items q (parent k)) (pq_items q i))"

lemma parent_less: "0 < i \<Longrightarrow> parent i < i"
  by (auto simp: parent_def)

lemma cmp_flip: "cmp_order cmp \<Longrightarrow> \<not> 0 \<le> cmp a b \<Longrightarrow> 0 \<le> cmp b a"
  unfolding cmp_order_def by (metis linear)

lemma cmp_trans: "cmp_order cmp \<Longrightarrow> 0 \<le> cmp a b \<Longrightarrow> 0 \<le> cmp b c \<Longrightarrow> 0 \<le> cmp a c"
  unfolding cmp_order_def by blast

lemma pq_swap_simps [simp]:
  "pq_count (pq_swap a b q) = pq_count q" "pq_capacity (pq_swap a b q) = pq_capacity q"
  "pq_items (pq_swap a b q) = (pq_items q)(a := pq_items q b, b := pq_items q a)"
  by (simp_all add: pq_swap_def)

lemma pq_contents_swap:
  assumes "a < pq_count q" and "b < pq_count q"
  shows "pq_contents (pq_swap a b q) = pq_contents q"
proof -
  let ?xs = "map (pq_items q) [0..<pq_count q]"
  have "map ((pq_items q)(a := pq_items q b, b := pq_items q a)) [0..<pq_count q]
      = ?xs[a := ?xs ! b, b := ?xs ! a]"
    using assms by (intro nth_equalityI) (auto simp: nth_list_update)
  then show ?thesis using assms mset_swap [of b ?xs a] by (simp add: pq_contents_def)
qed

lemma heap_but_swap:
  assumes c: "cmp_order cmp" and h: "heap_but cmp k q" and k: "0 < k" "k < pq_count q"
    and lt: "\<not> 0 \<le> cmp (pq_items q (parent k)) (pq_items q k)"
  shows "heap_but cmp (parent k) (pq_swap (parent k) k q)"
proof -
  let ?p = "parent k" and ?f = "pq_items q"
  have p: "?p < k" using k parent_less by blast
  have up: "0 \<le> cmp (?f k) (?f ?p)" by (rule cmp_flip [OF c lt])
  have o: "0 \<le> cmp (?f (parent i)) (?f i)" if "i < pq_count q" "0 < i" "i \<noteq> k" for i
    using h that unfolding heap_but_def by blast
  have gp: "0 \<le> cmp (?f ?p) (?f i)" if "i < pq_count q" "0 < i" "parent i = k" for i
    using h that k unfolding heap_but_def by blast
  have "0 \<le> cmp (pq_items (pq_swap ?p k q) (parent i)) (pq_items (pq_swap ?p k q) i)"
    if i: "i < pq_count q" "0 < i" "i \<noteq> ?p" for i
  proof -
    consider "i = k" | "i \<noteq> k" "parent i = k" | "i \<noteq> k" "parent i = ?p" | "i \<noteq> k" "parent i \<noteq> k" "parent i \<noteq> ?p"
      by blast
    then show ?thesis
      using i p up o [OF i(1,2)] gp [OF i(1,2)] parent_less [OF i(2)] cmp_trans [OF c up, of "?f i"]
      by cases auto
  qed
  moreover have "0 \<le> cmp (pq_items (pq_swap ?p k q) (parent ?p)) (pq_items (pq_swap ?p k q) i)"
    if i: "i < pq_count q" "0 < i" "parent i = ?p" "?p \<noteq> 0" for i
  proof -
    have pp: "parent ?p < ?p" using i(4) parent_less by blast
    have "0 \<le> cmp (?f (parent ?p)) (?f ?p)" using o [of ?p] p k i(4) by simp
    then show ?thesis
      using i pp p o [OF i(1,2)] cmp_trans [OF c, of "?f (parent ?p)" "?f ?p" "?f i"] parent_less [OF i(2)]
      by (cases "i = k") auto
  qed
  ultimately show ?thesis by (simp add: heap_but_def)
qed

lemma siftup_ok:
  assumes "cmp_order cmp" and "heap_but cmp k q" and "k < pq_count q"
  shows "pq_heap cmp (snd (siftup cmp k q)) \<and> pq_contents (snd (siftup cmp k q)) = pq_contents q
    \<and> pq_count (snd (siftup cmp k q)) = pq_count q \<and> pq_capacity (snd (siftup cmp k q)) = pq_capacity q
    \<and> fst (siftup cmp k q) < pq_count q"
  using assms
proof (induction cmp k q rule: siftup.induct)
  case (1 cmp k q)
  show ?case
  proof (cases "k = 0 \<or> 0 \<le> cmp (pq_items q (parent k)) (pq_items q k)")
    case True
    then have "siftup cmp k q = (k, q)" by (auto simp: siftup.simps [of cmp k q] Let_def)
    moreover have "pq_heap cmp q" using True "1.prems"(2) by (auto simp: pq_heap_def heap_but_def)
    ultimately show ?thesis using "1.prems"(3) by simp
  next
    case False
    then have k: "0 < k" "\<not> 0 \<le> cmp (pq_items q (parent k)) (pq_items q k)" by auto
    then have s: "siftup cmp k q = siftup cmp (parent k) (pq_swap (parent k) k q)"
      by (subst siftup.simps) (simp add: Let_def)
    have p: "parent k < pq_count q" using parent_less [OF k(1)] "1.prems"(3) by simp
    have "heap_but cmp (parent k) (pq_swap (parent k) k q)"
      by (rule heap_but_swap [OF "1.prems"(1,2) k(1) "1.prems"(3) k(2)])
    then show ?thesis
      using "1.IH" [OF _ refl] k "1.prems" p pq_contents_swap [of "parent k" q k]
      unfolding s by simp
  qed
qed

lemma pq_push_ok:
  assumes c: "cmp_order cmp" and h: "pq_heap cmp q" and room: "pq_count q < pq_capacity q"
  shows "\<exists>q'. pq_push cmp x q = Some q' \<and> pq_heap cmp q' \<and> pq_contents q' = add_mset x (pq_contents q)
    \<and> pq_count q' = Suc (pq_count q) \<and> pq_capacity q' = pq_capacity q"
proof -
  let ?n = "pq_count q"
  let ?q = "q\<lparr> pq_count := ?n + 1, pq_items := (pq_items q)(?n := x) \<rparr>"
  have "parent i \<noteq> ?n" if "i < Suc ?n" "0 < i" for i using parent_less [of i] that by simp
  then have "heap_but cmp ?n ?q" using h by (auto simp: heap_but_def pq_heap_def less_Suc_eq)
  moreover have "map ((pq_items q)(?n := x)) [0..<?n] = map (pq_items q) [0..<?n]" by simp
  then have "pq_contents ?q = add_mset x (pq_contents q)" by (simp add: pq_contents_def)
  ultimately show ?thesis using siftup_ok [OF c, of ?n ?q] room by (simp add: pq_push_def Let_def)
qed

text \<open>The root of a heap is not below any item.\<close>

lemma pq_heap_root:
  assumes c: "cmp_order cmp" and h: "pq_heap cmp q"
  shows "i < pq_count q \<Longrightarrow> 0 \<le> cmp (pq_items q 0) (pq_items q i)"
proof (induction i rule: less_induct)
  case (less i)
  show ?case
  proof (cases "i = 0")
    case True
    then show ?thesis using c by (simp add: cmp_order_def)
  next
    case False
    then have "0 \<le> cmp (pq_items q 0) (pq_items q (parent i))"
      using less parent_less [of i] by simp
    moreover have "0 \<le> cmp (pq_items q (parent i)) (pq_items q i)"
      using h less.prems False by (simp add: pq_heap_def)
    ultimately show ?thesis by (rule cmp_trans [OF c])
  qed
qed

lemma pq_heap_peek:
  assumes "cmp_order cmp" and "pq_heap cmp q" and "0 < pq_count q"
  shows "\<exists>top. pq_peek q = Some top \<and> top \<in># pq_contents q \<and> (\<forall>y\<in>#pq_contents q. 0 \<le> cmp top y)"
  using assms pq_heap_root [OF assms(1,2)] by (auto simp: pq_peek_def pq_contents_def)

section \<open>Removing the root\<close>

text \<open>
  After \<^verbatim>\<open>top = last; --count\<close> the slot behind the last item still holds the item that now sinks, so
  \<^verbatim>\<open>siftdown\<close>, which may compare with that slot, never swaps with it.
\<close>

lemma siftdown_loop_contents:
  assumes "cmp_order cmp" and "k < pq_count q" and "pq_count q < pq_capacity q"
    and "pq_items q (pq_count q) = pq_items q k"
  shows "\<exists>j q'. siftdown_loop cmp k q = Some (j, q') \<and> pq_contents q' = pq_contents q
    \<and> pq_count q' = pq_count q \<and> pq_capacity q' = pq_capacity q"
  using assms
proof (induction cmp k q rule: siftdown_loop.induct)
  case (1 cmp k q)
  let ?l = "leftchild k" and ?f = "pq_items q"
  let ?c = "?l + (if cmp (?f ?l) (?f (?l + 1)) > 0 then 1 else 0)"
  show ?case
  proof (cases "?l < pq_count q \<and> cmp (?f k) (?f ?c) > 0")
    case True
    then have l: "?l < pq_count q" "?l + 1 < pq_capacity q" "cmp (?f k) (?f ?c) > 0"
      using "1.prems"(3) by auto
    have "?c \<noteq> pq_count q"
    proof
      assume "?c = pq_count q"
      then show False using l(3) "1.prems"(1,4) by (simp add: cmp_order_def)
    qed
    then have c: "?c < pq_count q" using l(1) by (simp split: if_splits)
    have kc: "k \<noteq> pq_count q" "?c \<noteq> k" using "1.prems"(2) by (auto simp: leftchild_def)
    have s: "siftdown_loop cmp k q = siftdown_loop cmp ?c (pq_swap ?c k q)"
      using l by (subst siftdown_loop.simps) (simp add: Let_def)
    show ?thesis
      using "1.IH" [OF l(1,2) refl refl l(3)] "1.prems" c kc pq_contents_swap [OF c "1.prems"(2)]
      unfolding s by auto
  next
    case False
    then show ?thesis using "1.prems"(3) by (subst siftdown_loop.simps) (auto simp: Let_def)
  qed
qed

lemma pq_pop_contents:
  assumes c: "cmp_order cmp" and n: "0 < pq_count q" "pq_count q \<le> pq_capacity q"
  shows "\<exists>q'. pq_pop cmp q = Some (pq_items q 0, q') \<and> pq_contents q = add_mset (pq_items q 0) (pq_contents q')
    \<and> pq_count q' = pq_count q - 1 \<and> pq_capacity q' = pq_capacity q"
proof -
  have lt: "pq_count q - 1 < pq_capacity q" using n by linarith
  let ?k = "pq_count q - 1" and ?f = "pq_items q"
  let ?q = "q\<lparr> pq_items := ?f(0 := ?f ?k), pq_count := ?k \<rparr>"
  have "pq_contents q = add_mset (?f 0) (pq_contents ?q)"
  proof (cases ?k)
    case 0
    then have "pq_count q = 1" using n by simp
    then show ?thesis by (simp add: pq_contents_def)
  next
    case (Suc j)
    then have q: "pq_count q = Suc (Suc j)" using n by simp
    have "[0..<Suc j] = 0 # [Suc 0..<Suc j]" "[0..<Suc (Suc j)] = 0 # [Suc 0..<Suc j] @ [Suc j]"
      by (simp_all add: upt_conv_Cons)
    then have l: "map ?f [0..<Suc (Suc j)] = ?f 0 # map ?f [Suc 0..<Suc j] @ [?f (Suc j)]"
      and r: "map (?f(0 := ?f (Suc j))) [0..<Suc j] = ?f (Suc j) # map ?f [Suc 0..<Suc j]"
      by (simp_all del: upt_Suc)
    have "pq_contents q = mset (?f 0 # map ?f [Suc 0..<Suc j] @ [?f (Suc j)])"
      unfolding pq_contents_def q l by (rule refl)
    moreover have "pq_contents ?q = mset (?f (Suc j) # map ?f [Suc 0..<Suc j])"
      using r Suc by (simp add: pq_contents_def del: upt_Suc mset_map)
    ultimately show ?thesis by simp
  qed
  moreover have "\<exists>q'. siftdown_loop cmp 0 ?q = Some q' \<and> pq_contents (snd q') = pq_contents ?q
      \<and> pq_count (snd q') = ?k \<and> pq_capacity (snd q') = pq_capacity q" if "0 < ?k"
    using siftdown_loop_contents [OF c, of 0 ?q] that lt by auto
  ultimately show ?thesis using n(1) by (auto simp: pq_pop_def siftdown_def Let_def)
qed

section \<open>Properties\<close>

text \<open>Pushing a list of items, and popping \<open>n\<close> times.\<close>

definition pq_push_all :: "('a \<Rightarrow> 'a \<Rightarrow> int) \<Rightarrow> 'a list \<Rightarrow> 'a priqueue_t \<Rightarrow> 'a priqueue_t option" where
  "pq_push_all cmp = fold_call (pq_push cmp)"

fun pq_pops :: "('a \<Rightarrow> 'a \<Rightarrow> int) \<Rightarrow> nat \<Rightarrow> 'a priqueue_t \<Rightarrow> ('a list \<times> 'a priqueue_t) option" where
  "pq_pops cmp 0 q = Some ([], q)"
| "pq_pops cmp (Suc n) q = do { (x, q) \<leftarrow> pq_pop cmp q; (xs, q) \<leftarrow> pq_pops cmp n q; Some (x # xs, q) }"

lemmas pq_pops_numeral [simp] = pq_pops.simps(2) [of _ "pred_numeral k" for k, folded numeral_eq_Suc]

lemma pq_push_all_ok:
  assumes "cmp_order cmp" and "pq_heap cmp q" and "pq_count q + length xs \<le> pq_capacity q"
  shows "\<exists>q'. pq_push_all cmp xs q = Some q' \<and> pq_heap cmp q' \<and> pq_contents q' = mset xs + pq_contents q
    \<and> pq_count q' = pq_count q + length xs \<and> pq_capacity q' = pq_capacity q"
  using assms(2,3)
proof (induction xs arbitrary: q)
  case Nil
  then show ?case by (simp add: pq_push_all_def)
next
  case (Cons x xs)
  obtain q1 where q1: "pq_push cmp x q = Some q1" "pq_heap cmp q1" "pq_contents q1 = add_mset x (pq_contents q)"
      "pq_count q1 = Suc (pq_count q)" "pq_capacity q1 = pq_capacity q"
    using pq_push_ok [OF assms(1) Cons.prems(1), of x] Cons.prems(2) by auto
  then show ?case using Cons.IH [OF q1(2)] Cons.prems(2) by (auto simp: pq_push_all_def)
qed

lemma pq_pops_contents:
  assumes "cmp_order cmp" and "n \<le> pq_count q" and "pq_count q \<le> pq_capacity q"
  shows "\<exists>xs q'. pq_pops cmp n q = Some (xs, q') \<and> pq_contents q = mset xs + pq_contents q'
    \<and> length xs = n"
  using assms(2,3)
proof (induction n arbitrary: q)
  case 0
  then show ?case by simp
next
  case (Suc n)
  obtain q1 where q1: "pq_pop cmp q = Some (pq_items q 0, q1)"
      "pq_contents q = add_mset (pq_items q 0) (pq_contents q1)" "pq_count q1 = pq_count q - 1"
      "pq_capacity q1 = pq_capacity q"
    using pq_pop_contents [OF assms(1), of q] Suc.prems by auto
  have "n \<le> pq_count q1" "pq_count q1 \<le> pq_capacity q1" using q1(3,4) Suc.prems by linarith+
  then obtain xs q' where "pq_pops cmp n q1 = Some (xs, q')" "pq_contents q1 = mset xs + pq_contents q'"
      "length xs = n"
    using Suc.IH [of q1] by blast
  then show ?case using q1 by simp
qed

definition int_cmp :: "int \<Rightarrow> int \<Rightarrow> int" where
  "int_cmp a b = a - b"

lemma int_cmp_order: "cmp_order int_cmp"
  by (simp add: cmp_order_def int_cmp_def)

lemma pq_init_ok: "pq_heap cmp (priqueue_init d f n)" "pq_contents (priqueue_init d f n) = {#}"
  "pq_count (priqueue_init d f n) = 0" "0 < n \<Longrightarrow> pq_capacity (priqueue_init d f n) = n"
  by (simp_all add: pq_heap_def priqueue_init_def pq_contents_def)

text \<open>
  C33. For a comparator that is a total preorder, pushing up to \<open>capacity\<close> items into a new queue
  returns, holds exactly those items in heap order, and \<open>peek\<close> then returns a greatest one;
  popping all of them returns, and returns each item exactly once.
\<close>

theorem priqueue_push_peek_pop:
  assumes "cmp_order cmp" and "xs \<noteq> []" and "length xs \<le> capacity"
  shows "\<exists>q top ys q'. pq_push_all cmp xs (priqueue_init d f capacity) = Some q
    \<and> pq_heap cmp q \<and> pq_contents q = mset xs
    \<and> pq_peek q = Some top \<and> top \<in> set xs \<and> (\<forall>y\<in>set xs. 0 \<le> cmp top y)
    \<and> pq_pops cmp (length xs) q = Some (ys, q') \<and> mset ys = mset xs"
proof -
  let ?q0 = "priqueue_init d f capacity"
  have c: "pq_capacity ?q0 = capacity" using assms(2,3) by (intro pq_init_ok) (cases xs; simp)
  obtain q where q: "pq_push_all cmp xs ?q0 = Some q" "pq_heap cmp q" "pq_contents q = mset xs"
      "pq_count q = length xs" "pq_capacity q = capacity"
    using pq_push_all_ok [OF assms(1) pq_init_ok(1) [where d = d and f = f and n = capacity], of xs] assms(3) c
    by (auto simp: pq_init_ok)
  obtain ys q' where ys: "pq_pops cmp (length xs) q = Some (ys, q')" "mset xs = mset ys + pq_contents q'"
      "length ys = length xs"
    using pq_pops_contents [OF assms(1), of "length xs" q] q assms(3) by auto
  have "size (mset xs) = size (mset ys) + size (pq_contents q')" unfolding ys(2) by simp
  then have "pq_contents q' = {#}" using ys(3) by simp
  then have "mset ys = mset xs" using ys(2) by simp
  moreover obtain top where "pq_peek q = Some top" "top \<in># pq_contents q" "\<forall>y\<in>#pq_contents q. 0 \<le> cmp top y"
    using pq_heap_peek [OF assms(1) q(2)] q(4) assms(2) by auto
  ultimately show ?thesis using q ys(1) by auto
qed

theorem priqueue_push_peek_pop_witness:
  "\<exists>q top ys q'. pq_push_all int_cmp [3, 9, 4] (priqueue_init 500 (\<lambda>_. 0) 8) = Some q
    \<and> pq_peek q = Some top \<and> top \<in> {3, 9, 4} \<and> 0 \<le> int_cmp top 9
    \<and> pq_pops int_cmp 3 q = Some (ys, q') \<and> mset ys = mset [3, 9, 4]"
  using priqueue_push_peek_pop [OF int_cmp_order, of "[3, 9, 4]" 8 500 "\<lambda>_. 0"] by auto

text \<open>
  Removal does not keep the order.  \<open>push\<close> moves an item up past a smaller parent but
  \<open>siftdown\<close> moves the root down past a smaller child, so popping does not return the items in
  order: 5, 4 and 3 pushed in turn come out as 5, 3, 4.  \<open>remove_at\<close> of the last item fails its
  assertion, because it updates the position after the item is gone.
\<close>

theorem priqueue_removal_broken:
  "(\<exists>q q'. pq_push_all int_cmp [5, 4, 3] (priqueue_init 500 (\<lambda>_. 0) 8) = Some q
      \<and> pq_pops int_cmp 3 q = Some ([5, 3, 4], q'))
    \<and> pq_remove_at cmp (pq_count r - 1) r = None"
proof
  show "\<exists>q q'. pq_push_all int_cmp [5, 4, 3] (priqueue_init 500 (\<lambda>_. 0) 8) = Some q
      \<and> pq_pops int_cmp 3 q = Some ([5, 3, 4], q')"
    by (simp add: pq_push_all_def pq_push_def pq_pop_def siftdown_def siftup.simps siftdown_loop.simps
        priqueue_init_def int_cmp_def parent_def leftchild_def Let_def eval_nat_numeral)
  show "pq_remove_at cmp (pq_count r - 1) r = None"
    by (simp add: pq_remove_at_def pq_update_def Let_def)
qed

end
