(* ===== verification/Eth_Queue.thy ===== *)
theory Eth_Queue
  imports Dgos_Prelude
begin

text \<open>
  The packet pool and the packet queues of \<^verbatim>\<open>kernel/net/eth_q.cc\<close>.  A packet is its address; the
  \<^verbatim>\<open>next\<close>, \<^verbatim>\<open>physaddr\<close> and \<^verbatim>\<open>size\<close> members of all packets are maps from addresses, so that a
  packet can be in the free chain and in a queue of the wrong shape at once, as in the program.
  The result of \<^verbatim>\<open>mmap\<close> and the translation \<^verbatim>\<open>mphysaddr\<close> are arguments.  The index arrays of the
  disabled lock-free variant are left out.
\<close>

section \<open>Model\<close>

record ethq_state =
  ethq_pkts :: ptr
  ethq_first_free :: ptr
  pkt_next :: "ptr \<Rightarrow> ptr"
  pkt_physaddr :: "ptr \<Rightarrow> u64"
  pkt_size :: "ptr \<Rightarrow> u16"

definition pkt_at :: "ptr \<Rightarrow> nat \<Rightarrow> ptr" where
  "pkt_at base i = base + 2048 * of_nat i"

definition ethq_pkt_acquire :: "ethq_state \<Rightarrow> ptr \<times> ethq_state" where
  "ethq_pkt_acquire s =
    (let pkt = ethq_first_free s
     in (pkt, if pkt \<noteq> 0 then s\<lparr> ethq_first_free := pkt_next s pkt \<rparr> else s))"

definition ethq_pkt_release :: "ptr \<Rightarrow> ethq_state \<Rightarrow> ethq_state" where
  "ethq_pkt_release pkt s =
    s\<lparr> pkt_next := (pkt_next s)(pkt := ethq_first_free s), ethq_first_free := pkt \<rparr>"

text \<open>One round of the initialisation loop; the even packets ask for their physical address.\<close>

definition ethq_init_pkt :: "(ptr \<Rightarrow> u64) \<Rightarrow> nat \<Rightarrow> ethq_state \<times> u64 \<Rightarrow> ethq_state \<times> u64" where
  "ethq_init_pkt mphysaddr i = (\<lambda>(s, physaddr).
    (let pkt = pkt_at (ethq_pkts s) i;
         physaddr = (if even i then mphysaddr pkt else physaddr + 2048)
     in (s\<lparr> pkt_next := (pkt_next s)(pkt := if i + 1 < 16 then pkt_at (ethq_pkts s) (i + 1) else 0),
            pkt_physaddr := (pkt_physaddr s)(pkt := physaddr) \<rparr>, physaddr)))"

text \<open>The debug self test: four packets released come back in reverse order.\<close>

definition ethq_self_test :: "ethq_state \<Rightarrow> ethq_state option" where
  "ethq_self_test s = do {
     let (test1, s) = ethq_pkt_acquire s;
     let (test2, s) = ethq_pkt_acquire s;
     let (test3, s) = ethq_pkt_acquire s;
     let (test4, s) = ethq_pkt_acquire s;
     let s = ethq_pkt_release test4 (ethq_pkt_release test3 (ethq_pkt_release test2 (ethq_pkt_release test1 s)));
     let (chk1, s) = ethq_pkt_acquire s;
     let (chk2, s) = ethq_pkt_acquire s;
     let (chk3, s) = ethq_pkt_acquire s;
     let (chk4, s) = ethq_pkt_acquire s;
     assert_that (chk4 = test1);
     assert_that (chk3 = test2);
     assert_that (chk2 = test3);
     assert_that (chk1 = test4);
     Some (ethq_pkt_release test1 (ethq_pkt_release test2 (ethq_pkt_release test3 (ethq_pkt_release test4 s)))) }"

definition ethq_init :: "ptr \<Rightarrow> (ptr \<Rightarrow> u64) \<Rightarrow> ethq_state \<Rightarrow> (int \<times> ethq_state) option" where
  "ethq_init mmap_result mphysaddr s =
    (if ethq_pkts s \<noteq> 0 then Some (1, s)
     else let s = s\<lparr> ethq_pkts := mmap_result \<rparr>
          in if ethq_pkts s = 0 \<or> ethq_pkts s = - 1 then Some (0, s)
             else let (s, _) = fold (ethq_init_pkt mphysaddr) [0..<16] (s, 0);
                      s = s\<lparr> ethq_first_free := pkt_at (ethq_pkts s) 0 \<rparr>
                  in map_option (Pair 1) (ethq_self_test s))"

record ethq_queue_t =
  q_head :: ptr
  q_tail :: ptr
  q_count :: u64

definition ethq_enqueue :: "ptr \<Rightarrow> ethq_queue_t \<Rightarrow> ethq_state \<Rightarrow> ethq_queue_t \<times> ethq_state" where
  "ethq_enqueue pkt queue s =
    (let s = s\<lparr> pkt_next := (pkt_next s)(pkt := 0) \<rparr>;
         head = q_head queue; tail = q_tail queue;
         (queue, s) = (if head = 0 \<and> tail = 0 then (queue\<lparr> q_head := pkt, q_tail := pkt \<rparr>, s)
                       else (queue\<lparr> q_head := pkt \<rparr>, s\<lparr> pkt_next := (pkt_next s)(head := pkt) \<rparr>));
         s = s\<lparr> pkt_next := (pkt_next s)(pkt := 0) \<rparr>
     in (queue\<lparr> q_count := q_count queue + 1 \<rparr>, s))"

definition ethq_dequeue :: "ethq_queue_t \<Rightarrow> ethq_state \<Rightarrow> ptr \<times> ethq_queue_t \<times> ethq_state" where
  "ethq_dequeue queue s =
    (let head = q_head queue; tail = q_tail queue
     in if tail \<noteq> 0 \<and> head \<noteq> tail then
          (tail, queue\<lparr> q_tail := pkt_next s tail, q_count := q_count queue - 1 \<rparr>,
           s\<lparr> pkt_next := (pkt_next s)(tail := 0) \<rparr>)
        else if tail \<noteq> 0 then
          (tail, queue\<lparr> q_tail := 0, q_head := 0, q_count := q_count queue - 1 \<rparr>,
           s\<lparr> pkt_next := (pkt_next s)(tail := 0) \<rparr>)
        else (tail, queue, s))"

definition ethq_dequeue_all :: "ethq_queue_t \<Rightarrow> ethq_state \<Rightarrow> ptr \<times> ethq_queue_t \<times> ethq_state" where
  "ethq_dequeue_all queue s =
    (let all = q_head queue;
         s = (if q_tail queue \<noteq> 0 then s\<lparr> pkt_next := (pkt_next s)(q_tail queue := 0) \<rparr> else s)
     in (all, queue\<lparr> q_head := 0, q_tail := 0, q_count := 0 \<rparr>, s))"

section \<open>Chains of packets\<close>

text \<open>\<open>pkt_chain nx p xs\<close>: following \<open>nx\<close> from \<open>p\<close> gives the packets \<open>xs\<close> and then null.\<close>

fun pkt_chain :: "(ptr \<Rightarrow> ptr) \<Rightarrow> ptr \<Rightarrow> ptr list \<Rightarrow> bool" where
  "pkt_chain nx p [] \<longleftrightarrow> p = 0"
| "pkt_chain nx p (x # xs) \<longleftrightarrow> p = x \<and> x \<noteq> 0 \<and> pkt_chain nx (nx x) xs"

definition free_chain :: "ethq_state \<Rightarrow> ptr list \<Rightarrow> bool" where
  "free_chain s xs \<longleftrightarrow> pkt_chain (pkt_next s) (ethq_first_free s) xs \<and> distinct xs"

definition queue_holds :: "ethq_state \<Rightarrow> ethq_queue_t \<Rightarrow> ptr list \<Rightarrow> bool" where
  "queue_holds s queue xs \<longleftrightarrow> pkt_chain (pkt_next s) (q_tail queue) xs \<and> distinct xs
     \<and> q_head queue = (if xs = [] then 0 else last xs) \<and> q_count queue = of_nat (length xs)"

lemma pkt_chain_outside [simp]: "a \<notin> set xs \<Longrightarrow> pkt_chain (nx(a := v)) p xs = pkt_chain nx p xs"
  by (induction xs arbitrary: p) auto

lemma pkt_chain_nonzero: "pkt_chain nx p xs \<Longrightarrow> 0 \<notin> set xs"
  by (induction xs arbitrary: p) auto

lemma pkt_chain_hd: "pkt_chain nx p xs \<Longrightarrow> p = (if xs = [] then 0 else hd xs)"
  by (cases xs) auto

lemma pkt_chain_append:
  assumes "pkt_chain nx p xs" and "xs \<noteq> []" and "distinct xs" and "y \<notin> set xs" and "y \<noteq> 0"
  shows "pkt_chain (nx(last xs := y, y := 0)) p (xs @ [y])"
  using assms
proof (induction xs arbitrary: p)
  case Nil
  then show ?case by simp
next
  case (Cons x xs)
  show ?case
  proof (cases "xs = []")
    case True
    then show ?thesis using Cons.prems by simp
  next
    case False
    then have "pkt_chain (nx(last xs := y, y := 0)) (nx x) (xs @ [y])"
      using Cons.prems by (intro Cons.IH) auto
    moreover have "x \<noteq> last xs" "x \<noteq> y" using Cons.prems False by auto
    ultimately show ?thesis using Cons.prems False by (auto simp: fun_upd_other simp del: fun_upd_apply)
  qed
qed

lemma acquire_free:
  assumes "free_chain s (x # xs)"
  shows "\<exists>s'. ethq_pkt_acquire s = (x, s') \<and> free_chain s' xs \<and> x \<notin> set xs"
  using assms by (auto simp: free_chain_def ethq_pkt_acquire_def Let_def)

lemma acquire_empty: "free_chain s [] \<Longrightarrow> ethq_pkt_acquire s = (0, s)"
  by (simp add: free_chain_def ethq_pkt_acquire_def)

lemma release_free:
  assumes "free_chain s xs" and "p \<noteq> 0" and "p \<notin> set xs"
  shows "free_chain (ethq_pkt_release p s) (p # xs)"
  using assms by (simp add: free_chain_def ethq_pkt_release_def)

lemma pool_frame:
  "ethq_pkts (snd (ethq_pkt_acquire s)) = ethq_pkts s" "pkt_physaddr (snd (ethq_pkt_acquire s)) = pkt_physaddr s"
  "ethq_pkts (ethq_pkt_release p s) = ethq_pkts s" "pkt_physaddr (ethq_pkt_release p s) = pkt_physaddr s"
  by (simp_all add: ethq_pkt_acquire_def ethq_pkt_release_def Let_def)

lemma self_test_passes:
  assumes "free_chain s (a # b # c # d # xs)"
  shows "\<exists>s'. ethq_self_test s = Some s' \<and> free_chain s' (a # b # c # d # xs)"
proof -
  have nz: "a \<noteq> 0" "b \<noteq> 0" "c \<noteq> 0" "d \<noteq> 0" and ds: "distinct (a # b # c # d # xs)"
    using assms by (auto simp: free_chain_def)
  obtain s1 where s1: "ethq_pkt_acquire s = (a, s1)" "free_chain s1 (b # c # d # xs)"
    using acquire_free [OF assms] by blast
  obtain s2 where s2: "ethq_pkt_acquire s1 = (b, s2)" "free_chain s2 (c # d # xs)"
    using acquire_free [OF s1(2)] by blast
  obtain s3 where s3: "ethq_pkt_acquire s2 = (c, s3)" "free_chain s3 (d # xs)"
    using acquire_free [OF s2(2)] by blast
  obtain s4 where s4: "ethq_pkt_acquire s3 = (d, s4)" "free_chain s4 xs"
    using acquire_free [OF s3(2)] by blast
  have "free_chain (ethq_pkt_release d (ethq_pkt_release c (ethq_pkt_release b (ethq_pkt_release a s4))))
      (d # c # b # a # xs)" (is "free_chain ?t _")
    using s4(2) nz ds by (intro release_free) auto
  then obtain t1 where t1: "ethq_pkt_acquire ?t = (d, t1)" "free_chain t1 (c # b # a # xs)"
    using acquire_free by blast
  obtain t2 where t2: "ethq_pkt_acquire t1 = (c, t2)" "free_chain t2 (b # a # xs)"
    using acquire_free [OF t1(2)] by blast
  obtain t3 where t3: "ethq_pkt_acquire t2 = (b, t3)" "free_chain t3 (a # xs)"
    using acquire_free [OF t2(2)] by blast
  obtain t4 where t4: "ethq_pkt_acquire t3 = (a, t4)" "free_chain t4 xs"
    using acquire_free [OF t3(2)] by blast
  have "free_chain (ethq_pkt_release a (ethq_pkt_release b (ethq_pkt_release c (ethq_pkt_release d t4))))
      (a # b # c # d # xs)"
    using t4(2) nz ds by (intro release_free) auto
  then show ?thesis by (simp add: ethq_self_test_def s1 s2 s3 s4 t1 t2 t3 t4)
qed

section \<open>Building the pool\<close>

lemma pkt_at_nat:
  assumes "unat base + 32768 \<le> 18446744073709551616" and "i < 16"
  shows "unat (pkt_at base i) = unat base + 2048 * i"
proof -
  have "unat (2048 * of_nat i :: ptr) = 2048 * i"
    using assms(2) by (simp add: unat_word_ariths unat_of_nat take_bit_eq_mod)
  then show ?thesis using assms unfolding pkt_at_def by (subst unat_add_64) simp_all
qed

lemma pkt_at_eq_iff:
  assumes "unat base + 32768 \<le> 18446744073709551616" and "i < 16" and "j < 16"
  shows "pkt_at base i = pkt_at base j \<longleftrightarrow> i = j"
  using pkt_at_nat [OF assms(1,2)] pkt_at_nat [OF assms(1,3)] by (auto simp: word_unat_eq_iff)

lemma init_pkts:
  assumes base: "unat base + 32768 \<le> 18446744073709551616" and "ethq_pkts s = base" and "n \<le> 16"
    and "fold (ethq_init_pkt mp) [0..<n] (s, 0) = (s', ph)"
  shows "ethq_pkts s' = base
    \<and> (\<forall>i<n. pkt_next s' (pkt_at base i) = (if i + 1 < 16 then pkt_at base (i + 1) else 0)
         \<and> pkt_physaddr s' (pkt_at base i) = mp (pkt_at base (i - i mod 2)) + 2048 * of_nat (i mod 2))
    \<and> (n \<noteq> 0 \<longrightarrow> ph = pkt_physaddr s' (pkt_at base (n - 1)))"
  using assms(3,4)
proof (induction n arbitrary: s' ph)
  case 0
  then show ?case using assms(2) by auto
next
  case (Suc n)
  obtain s1 ph1 where s1: "fold (ethq_init_pkt mp) [0..<n] (s, 0) = (s1, ph1)" by (rule prod.exhaust)
  note ih = Suc.IH [OF _ s1]
  have step: "ethq_init_pkt mp n (s1, ph1) = (s', ph)" using Suc.prems(2) s1 by simp
  have b: "ethq_pkts s1 = base" using ih Suc.prems(1) by simp
  define q where "q = (if even n then mp (pkt_at base n) else ph1 + 2048)"
  have s': "s' = s1\<lparr> pkt_next := (pkt_next s1)(pkt_at base n := if n + 1 < 16 then pkt_at base (n + 1) else 0),
      pkt_physaddr := (pkt_physaddr s1)(pkt_at base n := q) \<rparr>" "ph = q"
    using step b by (auto simp: ethq_init_pkt_def Let_def q_def)
  have ne: "pkt_at base i \<noteq> pkt_at base n" if "i < n" for i
    using that Suc.prems(1) pkt_at_eq_iff [OF base, of i n] by simp
  have "q = mp (pkt_at base (n - n mod 2)) + 2048 * of_nat (n mod 2)"
  proof (cases "even n")
    case True
    then show ?thesis by (simp add: q_def)
  next
    case False
    then have "n \<noteq> 0" "even (n - 1)" "n - 1 - (n - 1) mod 2 = n - 1" "n mod 2 = 1" by (auto simp: odd_iff_mod_2_eq_one)
    then show ?thesis using False ih Suc.prems(1) by (simp add: q_def)
  qed
  then show ?case using ih Suc.prems(1) ne unfolding s' by (auto simp: b less_Suc_eq)
qed

lemma pkt_chain_pool:
  assumes "unat base + 32768 \<le> 18446744073709551616" and "unat base \<noteq> 0"
    and "\<forall>i<16. nx (pkt_at base i) = (if i + 1 < 16 then pkt_at base (i + 1) else 0)"
  shows "n \<le> 16 \<Longrightarrow> pkt_chain nx (if n = 0 then 0 else pkt_at base (16 - n)) (map (pkt_at base) [16 - n..<16])"
proof (induction n)
  case 0
  then show ?case by simp
next
  case (Suc n)
  let ?i = "16 - Suc n"
  have i: "Suc ?i = 16 - n" using Suc.prems by simp
  have u: "[?i..<16] = ?i # [16 - n..<16]" using upt_conv_Cons [of ?i 16] unfolding i by simp
  have lt: "?i < 16" using Suc.prems by linarith
  have "pkt_at base ?i \<noteq> 0" using pkt_at_nat [OF assms(1) lt] assms(2) by auto
  moreover have "nx (pkt_at base ?i) = (if n = 0 then 0 else pkt_at base (16 - n))"
    using assms(3) [rule_format, of ?i] i Suc.prems by (auto simp: add.commute)
  ultimately show ?case using Suc unfolding u by simp
qed

section \<open>Queue operations\<close>

lemma enqueue_holds:
  assumes "queue_holds s q xs" and "p \<noteq> 0" and "p \<notin> set xs"
  shows "\<exists>q' s'. ethq_enqueue p q s = (q', s') \<and> queue_holds s' q' (xs @ [p])"
proof (cases "xs = []")
  case True
  then show ?thesis using assms by (simp add: queue_holds_def ethq_enqueue_def Let_def)
next
  case False
  have c: "pkt_chain (pkt_next s) (q_tail q) xs" "distinct xs" "q_head q = last xs"
    using assms(1) False by (auto simp: queue_holds_def)
  have nz: "last xs \<noteq> 0" using pkt_chain_nonzero [OF c(1)] False by (metis last_in_set)
  have ne: "last xs \<noteq> p" using assms(3) False by auto
  have "(pkt_next s)(p := 0, last xs := p, p := 0) = (pkt_next s)(last xs := p, p := 0)" using ne by auto
  then show ?thesis
    using pkt_chain_append [OF c(1) False c(2) assms(3,2)] assms False nz c(3)
    by (simp add: queue_holds_def ethq_enqueue_def Let_def)
qed

lemma dequeue_holds:
  assumes "queue_holds s q (x # xs)"
  shows "\<exists>q' s'. ethq_dequeue q s = (x, q', s') \<and> queue_holds s' q' xs"
proof -
  have c: "q_tail q = x" "x \<noteq> 0" "pkt_chain (pkt_next s) (pkt_next s x) xs" "x \<notin> set xs" "distinct xs"
    "q_head q = (if xs = [] then x else last xs)"
    using assms by (auto simp: queue_holds_def)
  have "last xs \<noteq> x" if "xs \<noteq> []" using c(4) that by auto
  then show ?thesis using assms c by (auto simp: queue_holds_def ethq_dequeue_def Let_def)
qed

lemma dequeue_empty: "queue_holds s q [] \<Longrightarrow> ethq_dequeue q s = (0, q, s)"
  by (simp add: queue_holds_def ethq_dequeue_def Let_def)

section \<open>Properties\<close>

text \<open>
  On a usable block of memory, \<open>ethq_init\<close> passes its self test and returns 1 with all sixteen
  packets in the free chain in address order; an odd packet has the physical address that
  follows its even neighbour's, so the two share a page.  Calling it again changes nothing.
\<close>

theorem ethq_init_builds_pool:
  assumes "ethq_pkts s = 0" and "unat base \<noteq> 0" and "unat base + 32768 \<le> 18446744073709551616"
  shows "\<exists>s'. ethq_init base mp s = Some (1, s') \<and> free_chain s' (map (pkt_at base) [0..<16])
    \<and> (\<forall>i<16. pkt_physaddr s' (pkt_at base i) = mp (pkt_at base (i - i mod 2)) + 2048 * of_nat (i mod 2))
    \<and> ethq_init base' mp s' = Some (1, s')"
proof -
  let ?s0 = "s\<lparr> ethq_pkts := base \<rparr>"
  have ok: "base \<noteq> 0" "base \<noteq> - 1" using assms(2,3) by (auto simp: unsigned_minus_1_eq_mask mask_eq_exp_minus_1)
  obtain s1 ph where s1: "fold (ethq_init_pkt mp) [0..<16] (?s0, 0) = (s1, ph)" by (rule prod.exhaust)
  have "ethq_pkts ?s0 = base" by simp
  note i = init_pkts [OF assms(3) this order_refl s1]
  let ?s1 = "s1\<lparr> ethq_first_free := pkt_at base 0 \<rparr>"
  have "pkt_chain (pkt_next s1) (pkt_at base 0) (map (pkt_at base) [0..<16])"
    using pkt_chain_pool [OF assms(3,2), of "pkt_next s1" 16] i by simp
  moreover have "inj_on (pkt_at base) {0..<16}"
    using pkt_at_eq_iff [OF assms(3)] by (intro inj_onI) simp
  then have "distinct (map (pkt_at base) [0..<16])" unfolding distinct_map by simp
  ultimately have fc: "free_chain ?s1 (map (pkt_at base) [0..<16])" by (simp add: free_chain_def)
  have u: "[0..<16] = 0 # 1 # 2 # 3 # [4..<16 :: nat]" by (simp add: upt_conv_Cons)
  obtain s' where s': "ethq_self_test ?s1 = Some s'" "free_chain s' (map (pkt_at base) [0..<16])"
    using self_test_passes [OF fc [unfolded u list.map]] unfolding u list.map by blast
  have k: "ethq_pkts t' = ethq_pkts t \<and> pkt_physaddr t' = pkt_physaddr t" if "ethq_self_test t = Some t'" for t t'
    using that by (simp add: ethq_self_test_def case_prod_beta Let_def split: if_splits) (auto simp: pool_frame)
  have "ethq_init base mp s = Some (1, s')"
    using assms(1) ok s1 s'(1) i by (simp add: ethq_init_def Let_def del: upt_rec_numeral)
  then show ?thesis using s'(2) k [OF s'(1)] i ok(1) by (simp add: ethq_init_def del: upt_rec_numeral)
qed

theorem ethq_init_builds_pool_witness:
  "\<exists>s'. ethq_init 0x100000 (\<lambda>p. p + 0x7000) \<lparr> ethq_pkts = 0, ethq_first_free = 0, pkt_next = (\<lambda>_. 0),
        pkt_physaddr = (\<lambda>_. 0), pkt_size = (\<lambda>_. 0) \<rparr> = Some (1, s')
    \<and> free_chain s' (map (pkt_at 0x100000) [0..<16])"
  using ethq_init_builds_pool [of "\<lparr> ethq_pkts = 0, ethq_first_free = 0, pkt_next = (\<lambda>_. 0),
        pkt_physaddr = (\<lambda>_. 0), pkt_size = (\<lambda>_. 0) \<rparr>" "0x100000" "\<lambda>p. p + 0x7000" 0]
  by (auto simp del: upt_rec_numeral)

text \<open>
  A program of enqueues and dequeues, the list queue it stands for, and when it may run: a packet
  is enqueued only while it is in no place of the queue.
\<close>

datatype ethq_op = Enq ptr | Deq

fun ethq_run :: "ethq_op list \<Rightarrow> ethq_queue_t \<Rightarrow> ethq_state \<Rightarrow> ptr list \<times> ethq_queue_t \<times> ethq_state" where
  "ethq_run [] q s = ([], q, s)"
| "ethq_run (Enq p # ops) q s = (let (q, s) = ethq_enqueue p q s in ethq_run ops q s)"
| "ethq_run (Deq # ops) q s =
    (let (p, q, s) = ethq_dequeue q s; (ps, q, s) = ethq_run ops q s in (p # ps, q, s))"

fun list_run :: "ethq_op list \<Rightarrow> ptr list \<Rightarrow> ptr list \<times> ptr list" where
  "list_run [] xs = ([], xs)"
| "list_run (Enq p # ops) xs = list_run ops (xs @ [p])"
| "list_run (Deq # ops) [] = (let (ps, ys) = list_run ops [] in (0 # ps, ys))"
| "list_run (Deq # ops) (x # xs) = (let (ps, ys) = list_run ops xs in (x # ps, ys))"

fun enqueues_fresh :: "ethq_op list \<Rightarrow> ptr list \<Rightarrow> bool" where
  "enqueues_fresh [] xs \<longleftrightarrow> True"
| "enqueues_fresh (Enq p # ops) xs \<longleftrightarrow> p \<noteq> 0 \<and> p \<notin> set xs \<and> enqueues_fresh ops (xs @ [p])"
| "enqueues_fresh (Deq # ops) xs \<longleftrightarrow> enqueues_fresh ops (tl xs)"

text \<open>
  C16. A packet queue is first in, first out: whatever the sequence of enqueues and dequeues, the
  dequeues return the packets in the order of the enqueues, and null exactly when the queue is
  empty.
\<close>

theorem ethq_is_fifo:
  assumes "queue_holds s q xs" and "enqueues_fresh ops xs"
  shows "\<exists>q' s'. ethq_run ops q s = (fst (list_run ops xs), q', s') \<and> queue_holds s' q' (snd (list_run ops xs))"
  using assms
proof (induction ops arbitrary: s q xs)
  case Nil
  then show ?case by simp
next
  case (Cons op ops)
  show ?case
  proof (cases op)
    case (Enq p)
    then obtain q1 s1 where "ethq_enqueue p q s = (q1, s1)" "queue_holds s1 q1 (xs @ [p])"
      using enqueue_holds [OF Cons.prems(1), of p] Cons.prems(2) by auto
    then show ?thesis using Cons.IH [of s1 q1 "xs @ [p]"] Cons.prems(2) Enq by simp
  next
    case Deq
    show ?thesis
    proof (cases xs)
      case Nil
      then have "ethq_dequeue q s = (0, q, s)" using dequeue_empty Cons.prems(1) by simp
      then show ?thesis
        using Cons.IH [of s q "[]"] Cons.prems Deq Nil by (auto simp: case_prod_beta)
    next
      case (Cons x ys)
      then obtain q1 s1 where "ethq_dequeue q s = (x, q1, s1)" "queue_holds s1 q1 ys"
        using dequeue_holds [of s q x ys] Cons.prems(1) by auto
      then show ?thesis
        using Cons.IH [of s1 q1 ys] Cons.prems Deq Cons by (auto simp: case_prod_beta)
    qed
  qed
qed

theorem ethq_is_fifo_witness:
  "\<exists>q' s'. ethq_run [Deq, Enq 2048, Enq 4096, Deq, Enq 2048, Deq, Deq, Deq] \<lparr> q_head = 0, q_tail = 0, q_count = 0 \<rparr>
      \<lparr> ethq_pkts = 0, ethq_first_free = 0, pkt_next = (\<lambda>_. 7), pkt_physaddr = (\<lambda>_. 0), pkt_size = (\<lambda>_. 0) \<rparr>
    = ([0, 2048, 4096, 2048, 0], q', s')"
  using ethq_is_fifo [of "\<lparr> ethq_pkts = 0, ethq_first_free = 0, pkt_next = (\<lambda>_. 7), pkt_physaddr = (\<lambda>_. 0), pkt_size = (\<lambda>_. 0) \<rparr>"
      "\<lparr> q_head = 0, q_tail = 0, q_count = 0 \<rparr>" "[]" "[Deq, Enq 2048, Enq 4096, Deq, Enq 2048, Deq, Deq, Deq]"]
  by (auto simp: queue_holds_def)

text \<open>
  \<open>ethq_dequeue_all\<close> returns the newest packet instead of the chain: the queue is emptied but
  what it returns leads to that one packet only, and every other packet of the queue is lost.
\<close>

theorem ethq_dequeue_all_loses:
  assumes "queue_holds s q (x # xs @ [y])"
  shows "\<exists>q' s'. ethq_dequeue_all q s = (y, q', s') \<and> queue_holds s' q' [] \<and> pkt_chain (pkt_next s') y [y]"
proof -
  have c: "pkt_chain (pkt_next s) (q_tail q) (x # xs @ [y])" "distinct (x # xs @ [y])" "q_head q = y"
    using assms by (auto simp: queue_holds_def)
  have last: "pkt_chain nx p (zs @ [y]) \<Longrightarrow> y \<noteq> 0 \<and> nx y = 0" for nx p zs
    by (induction zs arbitrary: p) auto
  have "y \<noteq> 0" "pkt_next s y = 0" "y \<noteq> x" using last [of "pkt_next s" "q_tail q" "x # xs"] c by auto
  then show ?thesis using c by (auto simp: ethq_dequeue_all_def queue_holds_def Let_def)
qed

theorem ethq_dequeue_all_loses_witness:
  "\<exists>q' s'. ethq_dequeue_all \<lparr> q_head = 4096, q_tail = 2048, q_count = 2 \<rparr>
       \<lparr> ethq_pkts = 0, ethq_first_free = 0, pkt_next = (\<lambda>_. 0)(2048 := 4096), pkt_physaddr = (\<lambda>_. 0), pkt_size = (\<lambda>_. 0) \<rparr>
     = (4096, q', s') \<and> pkt_chain (pkt_next s') 4096 [4096]"
  using ethq_dequeue_all_loses [of "\<lparr> ethq_pkts = 0, ethq_first_free = 0, pkt_next = (\<lambda>_. 0)(2048 := 4096),
       pkt_physaddr = (\<lambda>_. 0), pkt_size = (\<lambda>_. 0) \<rparr>" "\<lparr> q_head = 4096, q_tail = 2048, q_count = 2 \<rparr>" 2048 "[]" 4096]
  by (auto simp: queue_holds_def)

end
