(* ===== verification/Net.thy ===== *)
theory Net
  imports Cstring Eth_Queue
begin

text \<open>
  The network frames of \<^verbatim>\<open>kernel/net\<close>: byte order (\<^verbatim>\<open>kernel/lib/bswap.h\<close>), the IPv4, UDP and ICMP
  headers with their checksums, and the receive path from the Ethernet frame to the ICMP echo and
  ARP replies.  A packet is a block of the byte memory; a header member is read and written at its
  offset in the packed structures: the IPv4 header starts at 14 (behind the Ethernet header), the
  UDP and ICMP headers at 34.  On the little-endian target \<^verbatim>\<open>htons\<close> and \<^verbatim>\<open>ntohs\<close> are \<open>bswap_16\<close>.

  The network interface is represented by its hardware address and by the list of packets handed
  to \<^verbatim>\<open>send\<close>.  Writing through the null pointer that \<^verbatim>\<open>ethq_pkt_acquire\<close> returns when the pool is
  empty faults, which is \<open>None\<close>.
\<close>

section \<open>Byte order\<close>

definition bswap_16 :: "u16 \<Rightarrow> u16" where
  "bswap_16 n = drop_bit 8 n OR push_bit 8 n"

definition bswap_32 :: "u32 \<Rightarrow> u32" where
  "bswap_32 n = drop_bit 24 n OR (drop_bit 8 n AND 0xFF00) OR (push_bit 8 n AND 0xFF0000)
     OR (push_bit 24 n AND 0xFF000000)"

definition bswap_64 :: "u64 \<Rightarrow> u64" where
  "bswap_64 n = drop_bit 56 n OR (drop_bit 40 n AND 0xFF00) OR (drop_bit 24 n AND 0xFF0000)
     OR (drop_bit 8 n AND 0xFF000000) OR (push_bit 8 n AND 0xFF00000000)
     OR (push_bit 24 n AND 0xFF0000000000) OR (push_bit 40 n AND 0xFF000000000000)
     OR (push_bit 56 n AND 0xFF00000000000000)"

definition rd16 :: "mem \<Rightarrow> ptr \<Rightarrow> u16" where
  "rd16 m p = ucast (m p) OR push_bit 8 (ucast (m (p + 1)))"

definition wr16 :: "mem \<Rightarrow> ptr \<Rightarrow> u16 \<Rightarrow> mem" where
  "wr16 m p v = m(p := ucast v, p + 1 := ucast (drop_bit 8 v))"

fun htons_buf_loop :: "nat \<Rightarrow> mem \<Rightarrow> ptr \<Rightarrow> mem" where
  "htons_buf_loop 0 m w = m"
| "htons_buf_loop (Suc n) m w = htons_buf_loop n (wr16 m w (bswap_16 (rd16 m w))) (w + 2)"

definition htons_buf :: "mem \<Rightarrow> ptr \<Rightarrow> u64 \<Rightarrow> mem" where
  "htons_buf m buf bytes = htons_buf_loop (unat bytes div 2) m buf"

section \<open>IPv4\<close>

record ipv4_addr_t =
  ip :: u32
  port :: u16

record ipv4_addr_pair_t =
  s_addr :: ipv4_addr_t
  d_addr :: ipv4_addr_t

text \<open>The loop that adds up 16-bit words in network order.\<close>

fun word_sum :: "mem \<Rightarrow> ptr \<Rightarrow> nat \<Rightarrow> u32 \<Rightarrow> u32" where
  "word_sum m inp 0 tot = tot"
| "word_sum m inp (Suc n) tot = word_sum m (inp + 2) n (tot + ucast (bswap_16 (rd16 m inp)))"

definition ipv4_checksum :: "mem \<Rightarrow> ptr \<Rightarrow> u16" where
  "ipv4_checksum m hdr =
    (let tot = word_sum m (hdr + 14) (unat (m (hdr + 14) AND 0xF) * 2) 0;
         tot = tot + drop_bit 16 tot;
         tot = tot AND 0xFFFF
     in bswap_16 (ucast (NOT tot)))"

definition ipv4_finalize :: "mem \<Rightarrow> ptr \<Rightarrow> ptr \<Rightarrow> mem" where
  "ipv4_finalize m hdr endp =
    (let ipv4_size = ucast (endp - (hdr + 14)) :: u16;
         m = wr16 m (hdr + 16) (bswap_16 ipv4_size)
     in wr16 m (hdr + 24) (ipv4_checksum m hdr))"

definition ipv4_ip_get :: "ipv4_addr_pair_t \<Rightarrow> mem \<Rightarrow> ptr \<Rightarrow> ipv4_addr_pair_t" where
  "ipv4_ip_get addr m hdr =
    (let addr = addr\<lparr> s_addr := (s_addr addr)\<lparr> ip := rd32 m (hdr + 26) \<rparr> \<rparr>;
         addr = addr\<lparr> d_addr := (d_addr addr)\<lparr> ip := rd32 m (hdr + 30) \<rparr> \<rparr>;
         addr = addr\<lparr> s_addr := (s_addr addr)\<lparr> ip := bswap_32 (ip (s_addr addr)) \<rparr> \<rparr>
     in addr\<lparr> s_addr := (s_addr addr)\<lparr> ip := bswap_32 (ip (d_addr addr)) \<rparr> \<rparr>)"

definition ipv4_end_get :: "mem \<Rightarrow> ptr \<Rightarrow> ptr" where
  "ipv4_end_get m hdr = hdr + 14 + ucast (bswap_16 (rd16 m (hdr + 16)))"

text \<open>\<^verbatim>\<open>ipv4_hdr_t::version\<close> and \<^verbatim>\<open>header_sz\<close>, with the bit positions of \<^verbatim>\<open>ipv4.bits.h\<close>.\<close>

definition ipv4_version :: "mem \<Rightarrow> ptr \<Rightarrow> nat" where
  "ipv4_version m hdr = unat (drop_bit 0 (m (hdr + 14)) AND 0xF)"

definition ipv4_header_sz :: "mem \<Rightarrow> ptr \<Rightarrow> nat" where
  "ipv4_header_sz m hdr = unat (drop_bit 4 (m (hdr + 14)) AND 0xF) * 4"

section \<open>UDP\<close>

definition udp_checksum :: "mem \<Rightarrow> ptr \<Rightarrow> u16" where
  "udp_checksum m hdr =
    (let fields = [rd16 m (hdr + 26), rd16 m (hdr + 28), rd16 m (hdr + 30), rd16 m (hdr + 32),
                   bswap_16 (ucast (m (hdr + 23))), rd16 m (hdr + 38)];
         tot = foldl (\<lambda>tot f. tot + ucast (bswap_16 f)) 0 fields :: u32;
         tot = word_sum m (hdr + 34) (unat (bswap_16 (rd16 m (hdr + 38))) div 2) tot;
         tot = tot + drop_bit 16 tot;
         tot = NOT tot;
         tot = tot AND 0xFFFF
     in if tot \<noteq> 0 then bswap_16 (ucast tot) else 0xFFFF)"

definition udp_finalize :: "mem \<Rightarrow> ptr \<Rightarrow> ptr \<Rightarrow> mem \<times> u16" where
  "udp_finalize m hdr endp =
    (let m = ipv4_finalize m hdr endp;
         udp_size = ucast (endp - (hdr + ucast (m (hdr + 14) AND 0xF) * 4) - 14) :: u16;
         m = wr16 m (hdr + 38) (bswap_16 udp_size);
         m = wr16 m (hdr + 40) (udp_checksum m hdr)
     in (m, ucast (endp - hdr)))"

definition udp_port_get :: "ipv4_addr_pair_t \<Rightarrow> mem \<Rightarrow> ptr \<Rightarrow> ipv4_addr_pair_t" where
  "udp_port_get addr m hdr =
    addr\<lparr> s_addr := (s_addr addr)\<lparr> port := bswap_16 (rd16 m (hdr + 34)) \<rparr>,
          d_addr := (d_addr addr)\<lparr> port := bswap_16 (rd16 m (hdr + 36)) \<rparr> \<rparr>"

definition udp_port_set :: "mem \<Rightarrow> ptr \<Rightarrow> ipv4_addr_pair_t \<Rightarrow> mem" where
  "udp_port_set m hdr addr =
    (let m = wr16 m (hdr + 36) (port (d_addr addr));
         m = wr16 m (hdr + 34) (port (s_addr addr));
         m = wr16 m (hdr + 36) (bswap_16 (rd16 m (hdr + 36)))
     in wr16 m (hdr + 34) (bswap_16 (rd16 m (hdr + 34))))"

section \<open>ICMP\<close>

partial_function (option) icmp_sum :: "mem \<Rightarrow> ptr \<Rightarrow> ptr \<Rightarrow> u32 \<Rightarrow> u32 option" where
  "icmp_sum m inp endp checksum =
    (if inp < endp then icmp_sum m (inp + 2) endp (checksum + ucast (bswap_16 (rd16 m inp)))
     else Some checksum)"

definition icmp_checksum :: "mem \<Rightarrow> ptr \<Rightarrow> ptr \<Rightarrow> u16 option" where
  "icmp_checksum m hdr endp = do {
     checksum \<leftarrow> icmp_sum m (hdr + 34) endp 0;
     let checksum = checksum + drop_bit 16 checksum;
     let checksum = checksum AND 0xFFFF;
     Some (bswap_16 (ucast (NOT checksum))) }"

definition icmp_finalize :: "mem \<Rightarrow> ptr \<Rightarrow> ptr \<Rightarrow> (mem \<times> u16) option" where
  "icmp_finalize m hdr endp = do {
     checksum \<leftarrow> icmp_checksum m hdr endp;
     let m = wr16 m (hdr + 36) checksum;
     Some (ipv4_finalize m hdr endp, ucast (endp - hdr)) }"

section \<open>Receiving\<close>

record net =
  net_mem :: mem
  net_q :: ethq_state
  net_sent :: "ptr list"

definition icmp_reply_header :: "mem \<Rightarrow> ptr \<Rightarrow> ptr \<Rightarrow> mem" where
  "icmp_reply_header m hdr reply =
    (let m = fst (memset m reply 0 42);
         m = wr16 m (reply + 16) (rd16 m (hdr + 16));
         m = fst (memcpy m reply (hdr + 6) 6);
         m = wr16 m (reply + 12) (bswap_16 0x0800);
         m = fst (memcpy m (reply + 30) (hdr + 26) 4)
     in m(reply + 26 := 192, reply + 27 := 168, reply + 28 := 122, reply + 29 := 42,
          reply + 23 := 1, reply + 22 := 64, reply + 14 := 0x45))"

definition icmp_reply_body :: "mem \<Rightarrow> ptr \<Rightarrow> ptr \<Rightarrow> mem \<times> ptr" where
  "icmp_reply_body m hdr reply =
    (let endp = ipv4_end_get m hdr;
         payload = hdr + 42;
         reply_payload = reply + 42;
         reply_end = reply_payload + (endp - payload);
         m = fst (memcpy m reply_payload payload (endp - payload));
         m = m(reply + 34 := 0);
         m = wr16 m (reply + 40) (rd16 m (hdr + 40));
         m = wr16 m (reply + 38) (rd16 m (hdr + 38))
     in (m, reply_end))"

definition icmp_echo :: "ptr \<Rightarrow> net \<Rightarrow> net option" where
  "icmp_echo pkt st =
    (if ipv4_checksum (net_mem st) pkt \<noteq> 0 then Some st
     else do {
       check_checksum \<leftarrow> icmp_checksum (net_mem st) pkt (ipv4_end_get (net_mem st) pkt);
       if check_checksum \<noteq> 0 then Some st
       else do {
         let (reply, q) = ethq_pkt_acquire (net_q st);
         assert_that (reply \<noteq> 0);
         let (m, reply_end) = icmp_reply_body (icmp_reply_header (net_mem st) pkt reply) pkt reply;
         (m, sz) \<leftarrow> icmp_finalize m reply reply_end;
         Some (st\<lparr> net_mem := m, net_q := q\<lparr> pkt_size := (pkt_size q)(reply := sz) \<rparr>,
                   net_sent := net_sent st @ [reply] \<rparr>) } })"

definition icmp_frame_received :: "ptr \<Rightarrow> net \<Rightarrow> net option" where
  "icmp_frame_received pkt st = (if net_mem st (pkt + 34) = 8 then icmp_echo pkt st else Some st)"

text \<open>TCP is not implemented, and a UDP frame is looked up but not delivered.\<close>

definition tcp_frame_received :: "ptr \<Rightarrow> net \<Rightarrow> net option" where
  "tcp_frame_received pkt st = Some st"

definition udp_frame_received :: "ptr \<Rightarrow> net \<Rightarrow> net option" where
  "udp_frame_received pkt st = Some st"

definition ipv4_frame_received :: "ptr \<Rightarrow> net \<Rightarrow> net option" where
  "ipv4_frame_received pkt st =
    (if net_mem st (pkt + 23) = 6 then tcp_frame_received pkt st
     else if net_mem st (pkt + 23) = 0x11 then udp_frame_received pkt st
     else if net_mem st (pkt + 23) = 1 then icmp_frame_received pkt st
     else Some st)"

definition arp_reply :: "u8 list \<Rightarrow> mem \<Rightarrow> ptr \<Rightarrow> ptr \<Rightarrow> mem" where
  "arp_reply mac m ap reply =
    (let m = wr16 m (reply + 14) (bswap_16 1);
         m = wr16 m (reply + 16) (bswap_16 0x0800);
         m = m(reply + 18 := 6, reply + 19 := 4);
         m = wr16 m (reply + 20) (bswap_16 2);
         m = fst (memcpy m (reply + 28) (ap + 38) 4);
         m = fst (memcpy m (reply + 38) (ap + 28) 4);
         m = wr16 m (reply + 12) (bswap_16 0x0806);
         m = store_bytes m (reply + 6) mac;
         m = fst (memcpy m (reply + 22) (reply + 6) 6);
         m = fst (memset m reply 0xFF 6)
     in fst (memcpy m (reply + 32) (ap + 22) 6))"

definition arp_frame_received :: "u8 list \<Rightarrow> ptr \<Rightarrow> net \<Rightarrow> net option" where
  "arp_frame_received mac ap st =
    (let m = net_mem st
     in if m (ap + 18) = 6 \<and> m (ap + 19) = 4 \<and> m (ap + 38) = 192 \<and> m (ap + 39) = 168
           \<and> m (ap + 40) = 122 \<and> m (ap + 41) = 42
        then do {
          let (reply, q) = ethq_pkt_acquire (net_q st);
          assert_that (reply \<noteq> 0);
          Some (st\<lparr> net_mem := arp_reply mac m ap reply,
                    net_q := q\<lparr> pkt_size := (pkt_size q)(reply := 42) \<rparr>,
                    net_sent := net_sent st @ [reply] \<rparr>) }
        else Some st)"

definition eth_frame_received :: "u8 list \<Rightarrow> ptr \<Rightarrow> net \<Rightarrow> net option" where
  "eth_frame_received mac pkt st =
    (let ethertype = bswap_16 (rd16 (net_mem st) (pkt + 12))
     in if ethertype = 0x0800 then ipv4_frame_received pkt st
        else if ethertype = 0x0806 then arp_frame_received mac pkt st
        else Some st)"

definition eth_frame_transmit :: "ptr \<Rightarrow> net \<Rightarrow> net" where
  "eth_frame_transmit pkt st = st"

section \<open>Byte order lemmas\<close>

lemma bswap_16_bswap_16 [simp]: "bswap_16 (bswap_16 n) = n"
proof (rule bit_word_eqI)
  fix k assume "k < LENGTH(16)"
  moreover have "k < 8 \<or> (\<exists>j. k = 8 + j)" using le_Suc_ex not_less by blast
  ultimately show "bit (bswap_16 (bswap_16 n)) k = bit n k"
    by (auto simp: bswap_16_def bit_simps dest: bit_imp_le_length)
qed

lemma unat_ucast_8_16: "unat (ucast (b :: u8) :: u16) = unat b"
proof -
  have "unat b < 2 ^ 16" using unat_lt_8 [of b] by (rule less_trans) simp
  then show ?thesis by (simp add: unsigned_ucast_eq take_bit_nat_eq_self)
qed

lemma bswap_16_eq_0 [simp]: "bswap_16 n = 0 \<longleftrightarrow> n = 0"
  by (metis bswap_16_bswap_16 bswap_16_def bit.disj_zero_right drop_bit_of_0 push_bit_of_0)

text \<open>The value of a 16-bit member in network order.\<close>

definition be16 :: "mem \<Rightarrow> ptr \<Rightarrow> nat" where
  "be16 m p = unat (m p) * 256 + unat (m (p + 1))"

lemma be16_less [simp]: "be16 m p < 65536"
proof -
  have "unat (m p) < 256" "unat (m (p + 1)) < 256" by (rule unat_lt_8)+
  then show ?thesis unfolding be16_def by linarith
qed

lemma unat_bswap_rd16: "unat (bswap_16 (rd16 m p)) = be16 m p"
proof -
  let ?a = "ucast (m p) :: u16" and ?b = "ucast (m (p + 1)) :: u16"
  have "bswap_16 (rd16 m p) = push_bit 8 ?a OR ?b"
    by (rule bit_word_eqI) (auto simp: bswap_16_def rd16_def bit_simps dest: bit_imp_le_length)
  also have "\<dots> = push_bit 8 ?a + ?b"
    by (intro disjunctive_add [symmetric]) (auto simp: bit_simps dest: bit_imp_le_length)
  also have "unat \<dots> = unat (m p) * 256 + unat (m (p + 1))"
  proof -
    have "unat (m p) * 256 + unat (m (p + 1)) < 65536" using be16_less [of m p] unfolding be16_def .
    then show ?thesis
      by (simp add: push_bit_eq_mult unat_word_ariths unat_ucast_8_16)
  qed
  finally show ?thesis by (simp add: be16_def)
qed

lemma be16_wr16: "be16 (wr16 m p (bswap_16 v)) p = unat v"
proof -
  have "rd16 (wr16 m p w) p = w" for w
    by (rule bit_word_eqI) (auto simp: rd16_def wr16_def bit_simps)
  then show ?thesis by (simp flip: unat_bswap_rd16)
qed

lemma be16_wr16_other:
  "q \<noteq> p \<Longrightarrow> q \<noteq> p + 1 \<Longrightarrow> q + 1 \<noteq> p \<Longrightarrow> be16 (wr16 m p v) q = be16 m q"
  by (auto simp: be16_def wr16_def)

section \<open>Checksums\<close>

definition be_sum :: "mem \<Rightarrow> ptr \<Rightarrow> nat \<Rightarrow> nat" where
  "be_sum m p n = (\<Sum>i<n. be16 m (p + 2 * of_nat i))"

text \<open>The one's complement fold as the code does it: one carry is added back, a second one is lost.\<close>

definition fold16 :: "nat \<Rightarrow> nat" where
  "fold16 S = (S + S div 65536) mod 65536"

lemma be_sum_Suc: "be_sum m p (Suc n) = be16 m p + be_sum m (p + 2) n"
  by (simp add: be_sum_def sum.lessThan_Suc_shift algebra_simps del: sum.lessThan_Suc)

lemma be_sum_0: "be_sum m p 0 = 0"
  by (simp add: be_sum_def)

lemmas be_sum_numeral = be_sum_Suc [of _ _ "pred_numeral k" for k, folded numeral_eq_Suc]

lemma be_sum_le: "be_sum m p n \<le> n * 65535"
proof -
  have "be16 m q \<le> 65535" for q using be16_less [of m q] by linarith
  then have "be_sum m p n \<le> (\<Sum>i<n. 65535)" unfolding be_sum_def by (intro sum_mono) simp
  then show ?thesis by simp
qed

lemma word_sum_eq: "word_sum m p n (of_nat c) = of_nat (c + be_sum m p n)"
proof (induction n arbitrary: p c)
  case 0
  then show ?case by (simp add: be_sum_def)
next
  case (Suc n)
  have "(ucast (bswap_16 (rd16 m p)) :: u32) = of_nat (be16 m p)"
    by (simp flip: unat_bswap_rd16)
  then show ?case
    using Suc.IH [of "p + 2" "c + be16 m p"] by (simp add: be_sum_Suc add.assoc)
qed

lemma fold_complement:
  assumes "S < 4294901760"
  shows "bswap_16 (ucast (NOT ((of_nat S + drop_bit 16 (of_nat S) :: u32) AND 0xFFFF)))
    = bswap_16 (of_nat (65535 - fold16 S))"
proof -
  let ?w = "of_nat S + drop_bit 16 (of_nat S) :: u32"
  have "S div 65536 < 65536" using assms by simp
  then have u: "unat ?w = S + S div 65536"
    using assms by (simp add: unat_word_ariths unat_drop_bit unat_of_nat take_bit_nat_eq_self)
  have ffff: "(0xFFFF :: u32) = mask 16" by (simp add: mask_numeral)
  have "(ucast (NOT (?w AND 0xFFFF)) :: u16) = NOT (ucast ?w)"
    by (rule bit_word_eqI) (auto simp: bit_simps ffff)
  also have "\<dots> = of_nat (65535 - fold16 S)"
  proof -
    have "unat (ucast ?w :: u16) = fold16 S"
      by (simp add: unsigned_ucast_eq u fold16_def take_bit_eq_mod)
    moreover have "fold16 S < 65536" by (simp add: fold16_def)
    ultimately have "(ucast ?w :: u16) = of_nat (fold16 S)"
      by (simp add: word_unat_eq_iff unat_of_nat take_bit_eq_mod)
    moreover have "(65535 :: u16) = - 1" by simp
    moreover have "(of_nat (65535 - fold16 S) :: u16) = of_nat 65535 - of_nat (fold16 S)"
      using \<open>fold16 S < 65536\<close> by (intro of_nat_diff) simp
    ultimately show ?thesis by (simp add: not_eq_complement)
  qed
  finally show ?thesis by simp
qed

lemma ipv4_checksum_eq:
  "ipv4_checksum m hdr = bswap_16 (of_nat (65535 - fold16 (be_sum m (hdr + 14) (unat (m (hdr + 14) AND 0xF) * 2))))"
proof -
  have "unat (m (hdr + 14) AND 0xF) \<le> 15"
    using unat_and_mask [of "m (hdr + 14)" 4] by (simp add: mask_numeral)
  then have "be_sum m (hdr + 14) (unat (m (hdr + 14) AND 0xF) * 2) < 4294901760"
    using be_sum_le [of m "hdr + 14" "unat (m (hdr + 14) AND 0xF) * 2"] by linarith
  then show ?thesis
    using fold_complement word_sum_eq [of m "hdr + 14" "unat (m (hdr + 14) AND 0xF) * 2" 0]
    by (simp add: ipv4_checksum_def)
qed

lemma word_index_eq:
  assumes "i < 1000" and "j < 1000"
  shows "(p :: ptr) + 2 * of_nat i = p + 2 * of_nat j \<longleftrightarrow> i = j"
    "p + 2 * of_nat i \<noteq> p + 2 * of_nat j + 1" "p + 2 * of_nat i + 1 \<noteq> p + 2 * of_nat j"
proof -
  have u: "unat (2 * of_nat i :: ptr) = 2 * i" "unat (2 * of_nat j :: ptr) = 2 * j"
    "unat (2 * of_nat i + 1 :: ptr) = 2 * i + 1" "unat (2 * of_nat j + 1 :: ptr) = 2 * j + 1"
    using assms by (simp_all add: unat_word_ariths unat_of_nat take_bit_nat_eq_self)
  have par: "2 * i \<noteq> 2 * j + 1" "2 * i + 1 \<noteq> 2 * j" by presburger+
  show "p + 2 * of_nat i = p + 2 * of_nat j \<longleftrightarrow> i = j"
    by (simp only: add_left_cancel) (simp add: word_unat_eq_iff u)
  show "p + 2 * of_nat i \<noteq> p + 2 * of_nat j + 1" "p + 2 * of_nat i + 1 \<noteq> p + 2 * of_nat j"
    by (simp only: add.assoc add_left_cancel, simp only: word_unat_eq_iff u par not_False_eq_True)+
qed

lemma be_sum_wr16:
  assumes "i < n" and "n \<le> 1000"
  shows "be_sum (wr16 m (p + 2 * of_nat i) (bswap_16 v)) p n + be16 m (p + 2 * of_nat i)
    = be_sum m p n + unat v"
proof -
  let ?f = "\<lambda>m j. be16 m (p + 2 * of_nat j)" and ?m = "wr16 m (p + 2 * of_nat i) (bswap_16 v)"
  have "?f ?m j = ?f m j" if "j < n" "j \<noteq> i" for j
    using that assms word_index_eq [of i j p] word_index_eq [of j i p]
    by (intro be16_wr16_other) (auto simp: add.assoc)
  then have "(\<Sum>j\<in>{..<n} - {i}. ?f ?m j) = (\<Sum>j\<in>{..<n} - {i}. ?f m j)" by (intro sum.cong) auto
  moreover have "be_sum ?m p n = ?f ?m i + (\<Sum>j\<in>{..<n} - {i}. ?f ?m j)"
    "be_sum m p n = ?f m i + (\<Sum>j\<in>{..<n} - {i}. ?f m j)"
    unfolding be_sum_def using assms(1) by (simp_all add: sum.remove)
  ultimately show ?thesis by (simp add: be16_wr16)
qed

lemma fold16_split: "r < 65536 \<Longrightarrow> fold16 (h * 65536 + r) = (r + h) mod 65536"
proof -
  assume "r < 65536"
  then have "(h * 65536 + r) div 65536 = h" by simp
  moreover have "h * 65536 + r + h = r + h + h * 65536" by simp
  ultimately show ?thesis unfolding fold16_def by (simp only: mod_mult_self1)
qed

lemma fold16_with_complement:
  assumes "S div 65536 < 65535"
  shows "fold16 (S + (65535 - fold16 S)) = 65535 \<longleftrightarrow> S mod 65536 + S div 65536 < 65536"
proof -
  define h l where "h = S div 65536" and "l = S mod 65536"
  have S: "S = h * 65536 + l" "l < 65536" "h < 65535" using assms by (simp_all add: h_def l_def)
  have f: "fold16 S = (l + h) mod 65536" unfolding S(1) by (rule fold16_split [OF S(2)])
  show ?thesis
  proof (cases "l + h < 65536")
    case True
    then have "S + (65535 - fold16 S) = h * 65536 + (65535 - h)" using S f by simp
    moreover have "fold16 (h * 65536 + (65535 - h)) = 65535" using S(3) by (subst fold16_split) auto
    ultimately show ?thesis using True by (simp add: h_def l_def)
  next
    case False
    then have "fold16 S = l + h - 65536" using S f by (simp add: mod_if)
    then have "S + (65535 - fold16 S) = Suc h * 65536 + (65535 - h)" using S False by simp
    moreover have "fold16 (Suc h * 65536 + (65535 - h)) = 0" using S(3) by (subst fold16_split) auto
    ultimately show ?thesis using False by (simp add: h_def l_def)
  qed
qed

lemma complement_zero: "bswap_16 (of_nat (65535 - fold16 S)) = 0 \<longleftrightarrow> fold16 S = 65535"
proof -
  have lt: "fold16 S < 65536" by (simp add: fold16_def)
  have "(of_nat k :: u16) = 0 \<longleftrightarrow> k = 0" if "k < 65536" for k
    using that by (simp add: word_unat_eq_iff unat_of_nat take_bit_eq_mod)
  from this [of "65535 - fold16 S"]
  have "(of_nat (65535 - fold16 S) :: u16) = 0 \<longleftrightarrow> 65535 - fold16 S = 0" by simp
  also have "\<dots> \<longleftrightarrow> fold16 S = 65535" using lt by linarith
  finally show ?thesis unfolding bswap_16_eq_0 .
qed

text \<open>The checksum of a list of bytes, taken as 16-bit words in network order.\<close>

fun be_words :: "u8 list \<Rightarrow> nat" where
  "be_words (a # b # bs) = unat a * 256 + unat b + be_words bs"
| "be_words [a] = unat a * 256"
| "be_words [] = 0"

definition inet_checksum :: "u8 list \<Rightarrow> nat" where
  "inet_checksum bs = 65535 - fold16 (be_words bs)"

definition be_bytes :: "nat \<Rightarrow> u8 list" where
  "be_bytes v = [of_nat (v div 256), of_nat v]"

lemma inet_checksum_less [simp]: "inet_checksum bs < 65536"
  by (simp add: inet_checksum_def)

lemma be_sum_words: "be_sum m p k = be_words (bytes_at m p (2 * k))"
proof (induction k arbitrary: p)
  case (Suc k)
  have "bytes_at m p (2 * Suc k) = m p # m (p + 1) # bytes_at m (p + 2) (2 * k)" by (simp add: add.assoc)
  then show ?case using Suc [of "p + 2"] by (simp only: be_sum_Suc be16_def be_words.simps)
qed (simp add: be_sum_0)

lemma icmp_sum_words:
  assumes "unat inp + len < 18446744073709551614"
  shows "icmp_sum m inp (inp + of_nat len) c = Some (word_sum m inp ((len + 1) div 2) c)"
  using assms
proof (induction len arbitrary: inp c rule: less_induct)
  case (less len)
  have u: "unat (inp + of_nat len) = unat inp + len" using less.prems by (simp add: unat_word_ariths unat_of_nat take_bit_eq_mod)
  have lt: "inp < inp + of_nat len \<longleftrightarrow> 0 < len" using u by (simp add: word_less_nat_alt)
  consider "len = 0" | "len = 1" | k where "len = k + 2" by (metis One_nat_def add_2_eq_Suc' not0_implies_Suc)
  then show ?case
  proof cases
    case 1
    then show ?thesis by (subst icmp_sum.simps) simp
  next
    case 2
    have "\<not> inp + 2 < inp + 1" using less.prems 2 by (simp add: word_less_nat_alt unat_word_ariths)
    then have "icmp_sum m (inp + 2) (inp + 1) c' = Some c'" for c' by (subst icmp_sum.simps) simp
    then show ?thesis using lt 2 by (subst icmp_sum.simps) simp
  next
    case 3
    have "unat (inp + 2) + k < 18446744073709551614" using less.prems 3 by (simp add: unat_word_ariths)
    then have "icmp_sum m (inp + 2) (inp + 2 + of_nat k) (c + ucast (bswap_16 (rd16 m inp)))
        = Some (word_sum m (inp + 2) ((k + 1) div 2) (c + ucast (bswap_16 (rd16 m inp))))"
      using less.IH [of k "inp + 2"] 3 by simp
    moreover have "inp + of_nat len = inp + 2 + of_nat k" using 3 by simp
    ultimately show ?thesis using lt 3 by (subst icmp_sum.simps) (simp add: add.assoc)
  qed
qed

lemma icmp_checksum_words:
  assumes "unat hdr + 34 + len < 18446744073709551614" and "len < 65000"
  shows "icmp_checksum m hdr (hdr + 34 + of_nat len) =
    Some (bswap_16 (of_nat (inet_checksum (bytes_at m (hdr + 34) (2 * ((len + 1) div 2))))))"
proof -
  let ?k = "(len + 1) div 2"
  have "unat (hdr + 34) = unat hdr + 34" using assms(1) by (simp add: unat_word_ariths)
  then have s: "icmp_sum m (hdr + 34) (hdr + 34 + of_nat len) 0 = Some (word_sum m (hdr + 34) ?k 0)"
    using assms(1) by (intro icmp_sum_words) simp
  have "be_sum m (hdr + 34) ?k < 4294901760" using be_sum_le [of m "hdr + 34" ?k] assms(2) by linarith
  then show ?thesis
    using fold_complement word_sum_eq [of m "hdr + 34" ?k 0]
    by (simp add: icmp_checksum_def s Let_def inet_checksum_def be_sum_words)
qed

section \<open>The replies\<close>

text \<open>Two packet buffers of 2048 bytes with no address in common.\<close>

definition apart :: "ptr \<Rightarrow> ptr \<Rightarrow> bool" where
  "apart p q \<longleftrightarrow> (\<forall>i<2048. \<forall>j<2048. p + of_nat i \<noteq> q + of_nat j)"

lemma apart_neq:
  assumes "apart p q" and "unat x < 2048" and "unat y < 2048"
  shows "p + x \<noteq> q + y"
proof -
  have "p + of_nat (unat x) \<noteq> q + of_nat (unat y)" using assms unfolding apart_def by blast
  then show ?thesis by simp
qed

lemma apart_simps:
  assumes "apart p q"
  shows "unat x < 2048 \<Longrightarrow> unat y < 2048 \<Longrightarrow> p + x \<noteq> q + y"
    and "unat x < 2048 \<Longrightarrow> p + x \<noteq> q" and "unat y < 2048 \<Longrightarrow> p \<noteq> q + y" and "p \<noteq> q"
  using apart_neq [OF assms, of x y] apart_neq [OF assms, of x 0] apart_neq [OF assms, of 0 y]
    apart_neq [OF assms, of 0 0] by auto

lemmas rep_movsb_numeral = rep_movsb.simps(2) [of _ _ _ "pred_numeral k" for k, folded numeral_eq_Suc]

lemmas replicate_numeral' = replicate_Suc [of "pred_numeral k" for k, folded numeral_eq_Suc]

lemma arp_reply_bytes:
  assumes "apart ap reply" and "length mac = 6"
  shows "bytes_at (arp_reply mac m ap reply) reply 42 =
    replicate 6 0xFF @ mac @ [0x08, 0x06, 0x00, 0x01, 0x08, 0x00, 6, 4, 0x00, 0x02] @ mac
      @ bytes_at m (ap + 38) 4 @ bytes_at m (ap + 22) 6 @ bytes_at m (ap + 28) 4"
proof -
  obtain a b c d e f where mac: "mac = [a, b, c, d, e, f]"
    using assms(2) by (auto simp: length_Suc_conv numeral_eq_Suc)
  show ?thesis
    using apart_simps [OF assms(1)]
    by (simp add: arp_reply_def mac memcpy_def rep_movsb_numeral replicate_numeral' memset_eq wr16_def bswap_16_def Let_def add.assoc)
qed
lemma rd16_bytes:
  "ucast (ucast (b :: u8) OR push_bit 8 (ucast (c :: u8)) :: u16) = b"
  "ucast (drop_bit 8 (ucast (b :: u8) :: u16) OR drop_bit 8 (push_bit 8 (ucast (c :: u8)) :: u16)) = c"
  by (rule bit_word_eqI; auto simp: bit_simps dest: bit_imp_le_length)+

lemma outside_block:
  "\<not> in_block r n a \<Longrightarrow> unat x < n \<Longrightarrow> a \<noteq> r + x" "\<not> in_block r n a \<Longrightarrow> 0 < n \<Longrightarrow> a \<noteq> r"
  by (auto simp: in_block_def)

lemma outside_sub:
  assumes "\<not> in_block r n a" and "unat x + k \<le> n" and "n < 18446744073709551616"
  shows "\<not> in_block (r + x) k a"
proof
  assume "in_block (r + x) k a"
  then have k: "unat (a - (r + x)) < k" by (simp add: in_block_def)
  have eq: "(a - (r + x)) + x = a - r" by simp
  have "unat ((a - (r + x)) + x) \<le> unat (a - (r + x)) + unat x"
    unfolding unat_word_ariths(1) by (rule mod_less_eq_dividend)
  then have "unat (a - r) < n" using k assms(2) unfolding eq by linarith
  then show False using assms(1) by (simp add: in_block_def)
qed

lemma rep_movsb_outside:
  "\<not> in_block d n a \<Longrightarrow> n < 18446744073709551616 \<Longrightarrow> rep_movsb m d s n a = m a"
  by (induction n arbitrary: m d s) (auto simp: in_block_Suc)

lemma memcpy_outside:
  "\<not> in_block d (unat n) a \<Longrightarrow> fst (memcpy m d s n) a = m a"
  by (simp add: memcpy_def rep_movsb_outside)

lemma wr16_outside: "\<not> in_block d 2 a \<Longrightarrow> wr16 m d v a = m a"
  by (auto simp: wr16_def in_block_def)

lemmas writes_outside = memcpy_outside wr16_outside memset_eq store_bytes_outside

lemma arp_reply_outside:
  assumes "\<not> in_block reply 42 a" and "length mac = 6"
  shows "arp_reply mac m ap reply a = m a"
proof -
  have sub: "\<not> in_block (reply + x) k a" if "unat x + k \<le> 42" for x k
    using outside_sub [OF assms(1) that] by simp
  have z: "\<not> in_block reply k a" if "k \<le> 42" for k using sub [of 0 k] that by simp
  show ?thesis
    using assms(2) outside_block [OF assms(1)] by (simp add: arp_reply_def Let_def writes_outside sub z)
qed

lemma icmp_reply_header_bytes:
  assumes "apart hdr reply"
  shows "bytes_at (icmp_reply_header m hdr reply) reply 42 =
    bytes_at m (hdr + 6) 6 @ [0, 0, 0, 0, 0, 0, 0x08, 0x00, 0x45, 0] @ bytes_at m (hdr + 16) 2
      @ [0, 0, 0, 0, 64, 1, 0, 0, 192, 168, 122, 42] @ bytes_at m (hdr + 26) 4 @ [0, 0, 0, 0, 0, 0, 0, 0]"
  using apart_simps [OF assms]
  by (simp add: icmp_reply_header_def memcpy_def rep_movsb_numeral replicate_numeral' memset_eq wr16_def rd16_def
      bswap_16_def add.assoc rd16_bytes)

lemma icmp_reply_header_outside:
  assumes "\<not> in_block reply 42 a"
  shows "icmp_reply_header m hdr reply a = m a"
proof -
  have sub: "\<not> in_block (reply + x) k a" if "unat x + k \<le> 42" for x k
    using outside_sub [OF assms that] by simp
  have z: "\<not> in_block reply k a" if "k \<le> 42" for k using sub [of 0 k] that by simp
  show ?thesis
    using outside_block [OF assms] by (simp add: icmp_reply_header_def Let_def writes_outside sub z)
qed

lemma apart_distance:
  assumes "apart hdr reply"
  shows "2048 \<le> unat (reply - hdr)"
proof (rule ccontr)
  assume "\<not> ?thesis"
  then have "hdr + (reply - hdr) \<noteq> reply + 0" using assms by (intro apart_neq) auto
  then show False by simp
qed

lemma icmp_reply_header_keeps:
  assumes "apart hdr reply" and "unat x < 2048"
  shows "icmp_reply_header m hdr reply (hdr + x) = m (hdr + x)"
proof (rule icmp_reply_header_outside)
  have "hdr + x \<noteq> reply + y" if "unat y < 42" for y
    using apart_neq [OF assms, of y] that by simp
  from this [of "hdr + x - reply"] show "\<not> in_block reply 42 (hdr + x)" by (auto simp: in_block_def)
qed

lemma icmp_reply_header_keeps_end:
  "apart hdr reply \<Longrightarrow> ipv4_end_get (icmp_reply_header m hdr reply) hdr = ipv4_end_get m hdr"
  by (simp add: ipv4_end_get_def rd16_def add.assoc icmp_reply_header_keeps)

lemma icmp_reply_body_eq:
  assumes a: "apart hdr reply" and n: "n \<le> 1472" and len: "ipv4_end_get m hdr = hdr + 42 + of_nat n"
    and body: "icmp_reply_body m hdr reply = (m', reply_end)"
  shows "reply_end = reply + 42 + of_nat n"
    and "m' = (store_bytes m (reply + 42) (bytes_at m (hdr + 42) n))
      (reply + 34 := 0, reply + 40 := m (hdr + 40), reply + 41 := m (hdr + 41),
       reply + 38 := m (hdr + 38), reply + 39 := m (hdr + 39))"
proof -
  let ?s = "store_bytes m (reply + 42) (bytes_at m (hdr + 42) n)"
  have un: "unat (of_nat n :: u64) = n" using n by (simp add: unat_of_nat take_bit_eq_mod)
  have "unat (reply + 42 - (hdr + 42)) = unat (reply - hdr)" by simp
  then have d: "n \<le> unat (reply + 42 - (hdr + 42))" using apart_distance [OF a] n by linarith
  have cp: "fst (memcpy m (reply + 42) (hdr + 42) (of_nat n)) = ?s"
    using rep_movsb_eq [OF disjI2 [OF d]] un by (simp add: memcpy_def)
  have keep: "?s (hdr + x) = m (hdr + x)" if "unat x < 2048" for x
  proof (rule store_bytes_outside)
    have "hdr + x \<noteq> reply + (42 + y)" if "unat y < n" for y
    proof -
      have "unat (42 + y) \<le> 42 + unat y" unfolding unat_word_ariths(1) by simp
      then have "unat (42 + y) < 2048" using that n by linarith
      then show ?thesis using \<open>unat x < 2048\<close> by (intro apart_neq [OF a])
    qed
    from this [of "hdr + x - (reply + 42)"]
    show "\<not> in_block (reply + 42) (length (bytes_at m (hdr + 42) n)) (hdr + x)"
      by (auto simp: in_block_def)
  qed (use n in simp)
  note b = body [unfolded icmp_reply_body_def Let_def len]
  show "reply_end = reply + 42 + of_nat n" using b by simp
  show "m' = ?s(reply + 34 := 0, reply + 40 := m (hdr + 40), reply + 41 := m (hdr + 41),
       reply + 38 := m (hdr + 38), reply + 39 := m (hdr + 39))"
    using b apart_simps [OF a] by (simp add: cp wr16_def rd16_def keep add.assoc rd16_bytes)
qed

lemma bytes_at_cong:
  "(\<And>i. i < n \<Longrightarrow> m (p + of_nat i) = m' (p + of_nat i)) \<Longrightarrow> bytes_at m p n = bytes_at m' p n"
  by (rule nth_equalityI) (auto simp: bytes_at_nth)

lemma offset_neq:
  assumes "unat x < k" and "k + i < 18446744073709551616"
  shows "(p :: u64) + of_nat k + of_nat i \<noteq> p + x" 
proof
  assume "p + of_nat k + of_nat i = p + x"
  then have "of_nat (k + i) = x" by (simp add: add.assoc)
  then have "unat x = k + i" using assms(2) by (auto simp: unat_of_nat take_bit_eq_mod simp del: of_nat_add)
  then show False using assms(1) by simp
qed

lemma wr16_be:
  assumes "v < 65536"
  shows "wr16 m p (bswap_16 (of_nat v)) = m(p := of_nat (v div 256), p + 1 := of_nat v)"
proof -
  have sw: "ucast (bswap_16 w) = (ucast (drop_bit 8 w) :: u8)" "ucast (drop_bit 8 (bswap_16 w)) = (ucast w :: u8)" for w :: u16
    by (rule bit_word_eqI; auto simp: bswap_16_def bit_simps dest: bit_imp_le_length)+
  have "(ucast (drop_bit 8 (of_nat v :: u16)) :: u8) = of_nat (v div 256)"
    using assms by (simp add: word_unat_eq_iff unat_of_nat unat_drop_bit_eq drop_bit_eq_div unsigned_ucast_eq take_bit_eq_mod
        unat_div_distrib)
  moreover have "(ucast (of_nat v :: u16) :: u8) = of_nat v"
    using assms by (simp add: word_unat_eq_iff unat_of_nat unsigned_ucast_eq take_bit_eq_mod)
  ultimately show ?thesis by (simp add: wr16_def sw)
qed

lemma icmp_finalize_eq:
  assumes n: "n \<le> 1472" and reply: "unat reply + 2048 \<le> 18446744073709551616" and ihl: "m (reply + 14) = 0x45"
  defines "ck \<equiv> inet_checksum (bytes_at m (reply + 34) (2 * ((9 + n) div 2)))"
  defines "m1 \<equiv> m(reply + 36 := of_nat (ck div 256), reply + 37 := of_nat ck,
      reply + 16 := of_nat ((28 + n) div 256), reply + 17 := of_nat (28 + n))"
  defines "ik \<equiv> inet_checksum (bytes_at m1 (reply + 14) 20)"
  shows "icmp_finalize m reply (reply + 42 + of_nat n) =
    Some (m1(reply + 24 := of_nat (ik div 256), reply + 25 := of_nat ik), of_nat (42 + n))"
proof -
  have "icmp_checksum m reply (reply + 34 + of_nat (8 + n)) = Some (bswap_16 (of_nat ck))"
    using icmp_checksum_words [of reply "8 + n" m] n reply by (simp add: ck_def del: of_nat_add)
  then have c: "icmp_checksum m reply (reply + 42 + of_nat n) = Some (bswap_16 (of_nat ck))" by (simp add: add.assoc)
  have w: "(ucast (of_nat k :: u64) :: u16) = of_nat k" if "k < 65536" for k
    using that by (simp add: word_unat_eq_iff unat_of_nat unsigned_ucast_eq take_bit_eq_mod)
  have e: "reply + 42 + of_nat n - (reply + 14) = (of_nat (28 + n) :: u64)"
    "reply + 42 + of_nat n - reply = (of_nat (42 + n) :: u64)" by simp_all
  have v: "28 + n < 65536" "ck < 65536" using n by (simp_all add: ck_def)
  have nx: "reply + 16 + 1 = reply + 17" "reply + 24 + 1 = reply + 25" "reply + 36 + 1 = reply + 37" by simp_all
  have m1: "wr16 (wr16 m (reply + 36) (bswap_16 (of_nat ck))) (reply + 16) (bswap_16 (of_nat (28 + n))) = m1"
    unfolding wr16_be [OF v(1)] wr16_be [OF v(2)] nx m1_def by simp
  have "m1 (reply + 14) = 0x45" using ihl by (simp add: m1_def)
  then have "ipv4_checksum m1 reply = bswap_16 (of_nat ik)"
    by (simp add: ipv4_checksum_eq be_sum_words ik_def inet_checksum_def)
  moreover have "wr16 m1 (reply + 24) (bswap_16 (of_nat ik)) = m1(reply + 24 := of_nat (ik div 256), reply + 25 := of_nat ik)"
    using wr16_be [of ik] by (simp add: ik_def nx)
  ultimately have "ipv4_finalize (wr16 m (reply + 36) (bswap_16 (of_nat ck))) reply (reply + 42 + of_nat n)
      = m1(reply + 24 := of_nat (ik div 256), reply + 25 := of_nat ik)"
    unfolding ipv4_finalize_def Let_def e w [OF v(1)] m1 by simp
  then show ?thesis unfolding icmp_finalize_def c Let_def e using n by (simp add: w del: of_nat_add)
qed

lemma store_bytes_below:
  assumes "unat x < k" and "k + length bs < 18446744073709551616"
  shows "store_bytes m (p + of_nat k) bs (p + x) = m (p + x)"
proof (rule store_bytes_outside)
  show "\<not> in_block (p + of_nat k) (length bs) (p + x)"
  proof
    assume "in_block (p + of_nat k) (length bs) (p + x)"
    then have lt: "unat (p + x - (p + of_nat k)) < length bs" by (simp add: in_block_def)
    have "p + of_nat k + of_nat (unat (p + x - (p + of_nat k))) \<noteq> p + x"
      using assms lt by (intro offset_neq) auto
    then show False by simp
  qed
qed (use assms in simp)

lemma icmp_reply_body_bytes:
  assumes a: "apart hdr reply" and n: "n \<le> 1472" and len: "ipv4_end_get m hdr = hdr + 42 + of_nat n"
    and body: "icmp_reply_body (icmp_reply_header m hdr reply) hdr reply = (m', reply_end)"
  shows "reply_end = reply + 42 + of_nat n"
    and "bytes_at m' reply 42 = bytes_at m (hdr + 6) 6 @ [0, 0, 0, 0, 0, 0, 0x08, 0x00, 0x45, 0] @ bytes_at m (hdr + 16) 2
      @ [0, 0, 0, 0, 64, 1, 0, 0, 192, 168, 122, 42] @ bytes_at m (hdr + 26) 4 @ [0, 0, 0, 0] @ bytes_at m (hdr + 38) 4"
    and "bytes_at m' (reply + 42) n = bytes_at m (hdr + 42) n"
    and "m' (reply + 42 + of_nat n) = m (reply + 42 + of_nat n)"
proof -
  let ?h = "icmp_reply_header m hdr reply"
  let ?s = "store_bytes ?h (reply + 42) (bytes_at ?h (hdr + 42) n)"
  note out = icmp_reply_header_keeps [OF a, of _ m]
  have "ipv4_end_get ?h hdr = ipv4_end_get m hdr" by (rule icmp_reply_header_keeps_end [OF a])
  note eq = icmp_reply_body_eq [OF a n this [unfolded len] body]
  show "reply_end = reply + 42 + of_nat n" by (rule eq(1))
  have keep: "?s (reply + x) = ?h (reply + x)" if "unat x < 42" for x
    using store_bytes_below [OF that, of "bytes_at ?h (hdr + 42) n" ?h reply] n by simp
  have keep0: "?s reply = ?h reply" using keep [of 0] by simp
  have off: "i \<le> n \<Longrightarrow> unat x < 42 \<Longrightarrow> reply + 42 + of_nat i \<noteq> reply + x" for i x
    using offset_neq [of x 42 i reply] n by simp
  have "bytes_at m' (reply + 42) n = bytes_at ?s (reply + 42) n"
    by (rule bytes_at_cong) (simp add: eq(2) off del: add_left_cancel add_diff_cancel_left add.assoc)
  also have "\<dots> = bytes_at ?h (hdr + 42) n"
    using bytes_at_store_bytes [of "bytes_at ?h (hdr + 42) n" ?h "reply + 42"] n by simp
  also have "\<dots> = bytes_at m (hdr + 42) n"
  proof (rule bytes_at_cong)
    fix i assume "i < n"
    then have "unat (42 + of_nat i :: u64) < 2048" using n by (simp add: unat_word_ariths unat_of_nat take_bit_eq_mod)
    then show "?h (hdr + 42 + of_nat i) = m (hdr + 42 + of_nat i)" using out [of "42 + of_nat i"] by (simp add: add.assoc)
  qed
  finally show "bytes_at m' (reply + 42) n = bytes_at m (hdr + 42) n" .
  show "bytes_at m' reply 42 = bytes_at m (hdr + 6) 6 @ [0, 0, 0, 0, 0, 0, 0x08, 0x00, 0x45, 0] @ bytes_at m (hdr + 16) 2
      @ [0, 0, 0, 0, 64, 1, 0, 0, 192, 168, 122, 42] @ bytes_at m (hdr + 26) 4 @ [0, 0, 0, 0] @ bytes_at m (hdr + 38) 4"
    using icmp_reply_header_bytes [OF a, of m] by (simp add: eq(2) keep keep0 out add.assoc)
  have "\<not> in_block (reply + 42) n (reply + 42 + of_nat n)"
    using n by (simp add: in_block_def unat_of_nat take_bit_eq_mod)
  then have "?s (reply + 42 + of_nat n) = ?h (reply + 42 + of_nat n)" using n by (intro store_bytes_outside) simp_all
  moreover have "\<not> in_block reply 42 (reply + 42 + of_nat n)"
    using n by (simp add: in_block_def unat_word_ariths unat_of_nat take_bit_eq_mod add.assoc)
  then have "?h (reply + 42 + of_nat n) = m (reply + 42 + of_nat n)" by (rule icmp_reply_header_outside)
  ultimately show "m' (reply + 42 + of_nat n) = m (reply + 42 + of_nat n)"
    by (simp add: eq(2) off del: add_left_cancel add_diff_cancel_left add.assoc)
qed

text \<open>The bytes the checksums of an echo reply are taken over.  The code adds up whole words, so for an odd length
  it reads the byte after the message.\<close>

definition echo_message :: "mem \<Rightarrow> ptr \<Rightarrow> ptr \<Rightarrow> nat \<Rightarrow> u8 list" where
  "echo_message m pkt reply n =
    [0, 0, 0, 0] @ bytes_at m (pkt + 38) (4 + n) @ (if odd n then [m (reply + 42 + of_nat n)] else [])"

definition echo_ip_header :: "mem \<Rightarrow> ptr \<Rightarrow> nat \<Rightarrow> u8 list" where
  "echo_ip_header m pkt n =
    [0x45, 0] @ be_bytes (28 + n) @ [0, 0, 0, 0, 64, 1, 0, 0, 192, 168, 122, 42] @ bytes_at m (pkt + 26) 4"

lemma icmp_reply_bytes:
  assumes a: "apart hdr reply" and n: "n \<le> 1472" and len: "ipv4_end_get m hdr = hdr + 42 + of_nat n"
    and reply: "unat reply + 2048 \<le> 18446744073709551616"
    and body: "icmp_reply_body (icmp_reply_header m hdr reply) hdr reply = (m', reply_end)"
  shows "\<exists>m''. icmp_finalize m' reply reply_end = Some (m'', of_nat (42 + n))
    \<and> bytes_at m'' reply (42 + n) =
      bytes_at m (hdr + 6) 6 @ [0, 0, 0, 0, 0, 0, 0x08, 0x00, 0x45, 0] @ be_bytes (28 + n) @ [0, 0, 0, 0, 64, 1]
      @ be_bytes (inet_checksum (echo_ip_header m hdr n)) @ [192, 168, 122, 42] @ bytes_at m (hdr + 26) 4
      @ [0, 0] @ be_bytes (inet_checksum (echo_message m hdr reply n)) @ bytes_at m (hdr + 38) (4 + n)"
proof -
  note B = icmp_reply_body_bytes [OF a n len body]
  have at: "m' (reply + 14) = 0x45" using B(2) by (simp add: add.assoc)
  have front: "bytes_at m' (reply + 34) 8 = [0, 0, 0, 0] @ bytes_at m (hdr + 38) 4" using B(2) by (simp add: add.assoc)
  have pay: "bytes_at m (hdr + 38) (4 + n) = bytes_at m (hdr + 38) 4 @ bytes_at m (hdr + 42) n"
    using bytes_at_append [of m "hdr + 38" 4 n] by (simp only: of_nat_numeral) (simp add: add.assoc)
  have "bytes_at m' (reply + 34) (8 + n) = [0, 0, 0, 0] @ bytes_at m (hdr + 38) (4 + n)"
    using bytes_at_append [of m' "reply + 34" 8 n] front B(3) pay by (simp only: of_nat_numeral) (simp add: add.assoc)
  moreover have "bytes_at m' (reply + 34) (2 * ((9 + n) div 2)) =
      bytes_at m' (reply + 34) (8 + n) @ (if odd n then [m' (reply + 42 + of_nat n)] else [])"
    using bytes_at_append [of m' "reply + 34" "8 + n" 1]
    by (cases "even n") (auto elim!: evenE oddE simp: add.assoc)
  ultimately have msg: "bytes_at m' (reply + 34) (2 * ((9 + n) div 2)) = echo_message m hdr reply n"
    using B(4) by (simp add: echo_message_def)
  define ck where "ck = inet_checksum (echo_message m hdr reply n)"
  define m1 where "m1 = m'(reply + 36 := of_nat (ck div 256), reply + 37 := of_nat ck,
      reply + 16 := of_nat ((28 + n) div 256), reply + 17 := of_nat (28 + n))"
  define ik where "ik = inet_checksum (echo_ip_header m hdr n)"
  define m2 where "m2 = m1(reply + 24 := of_nat (ik div 256), reply + 25 := of_nat ik)"
  have "bytes_at m1 (reply + 14) 20 = echo_ip_header m hdr n"
    using B(2) by (simp add: m1_def echo_ip_header_def be_bytes_def add.assoc del: of_nat_add)
  then have fin: "icmp_finalize m' reply reply_end = Some (m2, of_nat (42 + n))"
    using icmp_finalize_eq [of n reply m', OF n reply at] by (simp only: msg B(1) ck_def m1_def ik_def m2_def)
  have front2: "bytes_at m2 reply 42 = bytes_at m (hdr + 6) 6 @ [0, 0, 0, 0, 0, 0, 0x08, 0x00, 0x45, 0] @ be_bytes (28 + n)
      @ [0, 0, 0, 0, 64, 1] @ be_bytes ik @ [192, 168, 122, 42] @ bytes_at m (hdr + 26) 4 @ [0, 0] @ be_bytes ck @ bytes_at m (hdr + 38) 4"
    using B(2) by (simp add: m1_def m2_def be_bytes_def add.assoc del: of_nat_add)
  have "i < n \<Longrightarrow> unat x < 42 \<Longrightarrow> reply + 42 + of_nat i \<noteq> reply + x" for i x
    using offset_neq [of x 42 i reply] n by simp
  then have "bytes_at m2 (reply + 42) n = bytes_at m' (reply + 42) n"
    by (intro bytes_at_cong) (simp add: m1_def m2_def del: add_left_cancel add_diff_cancel_left add.assoc)
  then have "bytes_at m2 reply (42 + n) = bytes_at m2 reply 42 @ bytes_at m (hdr + 42) n"
    using bytes_at_append [of m2 reply 42 n] B(3) by (simp only: of_nat_numeral)
  then show ?thesis using fin front2 pay by (simp add: ck_def ik_def del: bytes_at_numeral of_nat_add)
qed

lemmas word_sum_numeral = word_sum.simps(2) [of _ _ "pred_numeral k" for k, folded numeral_eq_Suc]

lemma apartI:
  assumes "unat p + 2048 \<le> unat q" and "unat q + 2048 \<le> 18446744073709551616"
  shows "apart p q"
  unfolding apart_def
proof (intro allI impI notI)
  fix i j :: nat assume ij: "i < 2048" "j < 2048" and eq: "p + of_nat i = q + of_nat j"
  have "unat (p + of_nat i) = unat p + i" "unat (q + of_nat j) = unat q + j"
    using assms ij by (simp_all add: unat_word_ariths unat_of_nat take_bit_eq_mod)
  then show False using eq assms(1) ij by simp
qed

lemma ether_bytes:
  assumes "bytes_at m p 2 = [a, b]"
  shows "bswap_16 (rd16 m p) = push_bit 8 (ucast a) OR ucast b"
proof -
  have "m p = a" "m (p + 1) = b" using assms by simp_all
  then show ?thesis
    by (intro bit_word_eqI) (auto simp: bswap_16_def rd16_def bit_simps dest: bit_imp_le_length)
qed

lemma ipv4_end_get_bytes:
  assumes "bytes_at m (hdr + 16) 2 = [of_nat ((28 + n) div 256), of_nat (28 + n)]" and "n \<le> 1472"
  shows "ipv4_end_get m hdr = hdr + 42 + of_nat n"
proof -
  have "m (hdr + 16) = of_nat ((28 + n) div 256)" "m (hdr + 17) = of_nat (28 + n)"
    using assms(1) by (simp_all add: add.assoc del: of_nat_add)
  then have "be16 m (hdr + 16) = (28 + n) div 256 * 256 + (28 + n) mod 256"
    using assms(2) by (simp add: be16_def add.assoc unat_of_nat take_bit_eq_mod del: of_nat_add)
  then have "be16 m (hdr + 16) = 28 + n" by simp
  then have "unat (bswap_16 (rd16 m (hdr + 16))) = 28 + n" by (simp only: unat_bswap_rd16)
  then have "(ucast (bswap_16 (rd16 m (hdr + 16))) :: u64) = of_nat (28 + n)"
    using assms(2) by (simp add: word_unat_eq_iff unat_of_nat unsigned_ucast_eq take_bit_eq_mod del: of_nat_add)
  then show ?thesis by (simp add: ipv4_end_get_def)
qed

section \<open>Properties\<close>

text \<open>
  C32. IPv4 checksum round trip.  After \<open>ipv4_finalize\<close> of a header whose checksum field was zero, the
  receiver's check \<open>ipv4_checksum\<close> accepts it, except when adding the carries of the sum to its
  low half carries once more: the code drops that second carry, and then the header it just
  finished is rejected.
\<close>

theorem ipv4_finalize_accepted:
  assumes "5 \<le> unat (m (hdr + 14) AND 0xF)" and "be16 m (hdr + 24) = 0"
    and "S = be_sum (wr16 m (hdr + 16) (bswap_16 (ucast (endp - (hdr + 14))))) (hdr + 14) (unat (m (hdr + 14) AND 0xF) * 2)"
  shows "ipv4_checksum (ipv4_finalize m hdr endp) hdr = 0 \<longleftrightarrow> S mod 65536 + S div 65536 < 65536"
proof -
  let ?n = "unat (m (hdr + 14) AND 0xF) * 2"
  let ?m1 = "wr16 m (hdr + 16) (bswap_16 (ucast (endp - (hdr + 14))))"
  let ?c = "of_nat (65535 - fold16 S) :: u16"
  have n: "5 < ?n" "?n \<le> 30"
    using assms(1) unat_and_mask [of "m (hdr + 14)" 4] by (simp_all add: mask_numeral)
  have S: "S \<le> 30 * 65535" using be_sum_le [of ?m1 "hdr + 14" ?n] n(2) assms(3) by linarith
  have v: "?m1 (hdr + 14) = m (hdr + 14)" by (simp add: wr16_def)
  have z: "be16 ?m1 (hdr + 24) = 0" using assms(2) by (simp add: be16_wr16_other)
  have m2: "ipv4_finalize m hdr endp = wr16 ?m1 (hdr + 24) (bswap_16 ?c)" (is "_ = ?m2")
    by (simp add: ipv4_finalize_def ipv4_checksum_eq v assms(3) Let_def)
  have v2: "?m2 (hdr + 14) = m (hdr + 14)" using v by (simp add: wr16_def)
  have "unat ?c = 65535 - fold16 S" by (simp add: unat_of_nat take_bit_eq_mod)
  then have "be_sum ?m2 (hdr + 14) ?n = S + (65535 - fold16 S)"
    using be_sum_wr16 [of 5 ?n ?m1 "hdr + 14" ?c] n z assms(3) by (simp add: add.assoc)
  moreover have "S div 65536 < 65535" using S by simp
  ultimately show ?thesis
    unfolding m2 ipv4_checksum_eq v2 complement_zero by (simp add: fold16_with_complement)
qed

theorem ipv4_finalize_accepted_witness:
  "ipv4_checksum (ipv4_finalize ((\<lambda>_. 0)(114 := 0x45, 122 := 64)) 100 140) 100 = 0"
  using ipv4_finalize_accepted [of "(\<lambda>_. 0)(114 := 0x45, 122 := 64)" 100 _ 140, OF _ _ refl]
  by (simp add: be16_def be_sum_numeral be_sum_Suc be_sum_0 wr16_def bswap_16_def)

text \<open>
  C18. ARP.  A received Ethernet frame that asks for 192.168.122.42 is answered: one packet is taken
  off the free chain and sent, 42 bytes long, and it is the ARP reply to the asking host, byte for
  byte.  No memory outside these 42 bytes changes.
\<close>

theorem arp_request_answered:
  assumes "bytes_at (net_mem st) (pkt + 12) 2 = [0x08, 0x06]"
    and "bytes_at (net_mem st) (pkt + 18) 2 = [6, 4]"
    and "bytes_at (net_mem st) (pkt + 38) 4 = [192, 168, 122, 42]"
    and "free_chain (net_q st) (reply # free)" and "apart pkt reply" and "length mac = 6"
  shows "\<exists>st'. eth_frame_received mac pkt st = Some st' \<and> net_sent st' = net_sent st @ [reply]
    \<and> free_chain (net_q st') free \<and> pkt_size (net_q st') reply = 42
    \<and> bytes_at (net_mem st') reply 42 = replicate 6 0xFF @ mac
        @ [0x08, 0x06, 0x00, 0x01, 0x08, 0x00, 6, 4, 0x00, 0x02] @ mac @ [192, 168, 122, 42]
        @ bytes_at (net_mem st) (pkt + 22) 6 @ bytes_at (net_mem st) (pkt + 28) 4
    \<and> (\<forall>a. \<not> in_block reply 42 a \<longrightarrow> net_mem st' a = net_mem st a)"
proof -
  obtain q where q: "ethq_pkt_acquire (net_q st) = (reply, q)" "free_chain q free"
    using acquire_free [OF assms(4)] by blast
  have nz: "reply \<noteq> 0" using assms(4) by (simp add: free_chain_def)
  have ty: "bswap_16 (rd16 (net_mem st) (pkt + 12)) = 0x0806" unfolding ether_bytes [OF assms(1)] by simp
  have mem: "net_mem st (pkt + 18) = 6" "net_mem st (pkt + 19) = 4" "net_mem st (pkt + 38) = 192"
    "net_mem st (pkt + 39) = 168" "net_mem st (pkt + 40) = 122" "net_mem st (pkt + 41) = 42"
    using assms(2,3) by (simp_all add: add.assoc)
  have r: "eth_frame_received mac pkt st = Some (st\<lparr> net_mem := arp_reply mac (net_mem st) pkt reply,
      net_q := q\<lparr> pkt_size := (pkt_size q)(reply := 42) \<rparr>, net_sent := net_sent st @ [reply] \<rparr>)"
    by (simp add: eth_frame_received_def arp_frame_received_def ty mem q(1) nz)
  show ?thesis
    unfolding r using arp_reply_bytes [OF assms(5,6), of "net_mem st", unfolded assms(3)] q(2) assms(6)
    by (simp add: arp_reply_outside free_chain_def del: bytes_at_numeral)
qed

theorem arp_request_answered_witness:
  "\<exists>st'. eth_frame_received [1, 2, 3, 4, 5, 6] 4096
      \<lparr> net_mem = store_bytes (\<lambda>_. 0) 4108 ([0x08, 0x06, 0, 1, 8, 0, 6, 4, 0, 1, 0xA, 0xB, 0xC, 0xD, 0xE, 0xF,
          192, 168, 122, 1, 0, 0, 0, 0, 0, 0, 192, 168, 122, 42]),
        net_q = \<lparr> ethq_pkts = 4096, ethq_first_free = 8192, pkt_next = (\<lambda>_. 0), pkt_physaddr = (\<lambda>_. 0),
          pkt_size = (\<lambda>_. 0) \<rparr>, net_sent = [] \<rparr> = Some st' \<and> net_sent st' = [8192]"
  using arp_request_answered [of "\<lparr> net_mem = store_bytes (\<lambda>_. 0) 4108 ([0x08, 0x06, 0, 1, 8, 0, 6, 4, 0, 1,
          0xA, 0xB, 0xC, 0xD, 0xE, 0xF, 192, 168, 122, 1, 0, 0, 0, 0, 0, 0, 192, 168, 122, 42]),
        net_q = \<lparr> ethq_pkts = 4096, ethq_first_free = 8192, pkt_next = (\<lambda>_. 0), pkt_physaddr = (\<lambda>_. 0),
          pkt_size = (\<lambda>_. 0) \<rparr>, net_sent = [] \<rparr>" 4096 8192 "[]" "[1, 2, 3, 4, 5, 6]"]
    apartI [of 4096 8192]
  by (auto simp: free_chain_def)


lemma checksum_low_bytes: "(16399 :: u8) = 15" "(65535 :: u8) = 255"
  by simp_all


end
