(* ===== verification/Boot_String.thy ===== *)
theory Boot_String
  imports Cstring
begin

text \<open>
  The string and memory routines of the boot loader (boot/string.cc), in the build that uses the
  string instructions.  The boot loader has its own copies of the C library routines; the lemmas
  show which of them compute what the kernel's routines of theory \<open>Cstring\<close> compute.
\<close>

section \<open>Strings\<close>

partial_function (option) boot_strlen_loop :: "mem \<Rightarrow> ptr \<Rightarrow> u64 \<Rightarrow> u64 option" where
  "boot_strlen_loop m src len =
     (if m (src + len) \<noteq> 0 then boot_strlen_loop m src (len + 1) else Some len)"

definition boot_strlen :: "mem \<Rightarrow> ptr \<Rightarrow> u64 option" where
  "boot_strlen m src = boot_strlen_loop m src 0"

partial_function (option) boot_strchr_loop :: "mem \<Rightarrow> u8 \<Rightarrow> ptr \<Rightarrow> ptr option" where
  "boot_strchr_loop m ch s =
     (let c = m s in
      if c = ch then Some s
      else if c = 0 then Some 0
      else boot_strchr_loop m ch (s + 1))"

definition boot_strchr :: "mem \<Rightarrow> ptr \<Rightarrow> u32 \<Rightarrow> ptr option" where
  "boot_strchr m s ch = boot_strchr_loop m (ucast ch) s"

text \<open>\<^verbatim>\<open>int((unsigned)*lhs)\<close> of a plain \<^verbatim>\<open>char\<close>, which is signed on x86, extends the sign.\<close>

partial_function (option) boot_strcmp :: "mem \<Rightarrow> ptr \<Rightarrow> ptr \<Rightarrow> int option" where
  "boot_strcmp m lhs rhs =
     (let cmp = sint (m lhs) - sint (m rhs)
      in if cmp = 0 \<and> m lhs \<noteq> 0 then boot_strcmp m (lhs + 1) (rhs + 1) else Some cmp)"

fun boot_strncmp_loop :: "mem \<Rightarrow> ptr \<Rightarrow> ptr \<Rightarrow> nat \<Rightarrow> int" where
  "boot_strncmp_loop m lhs rhs 0 = 0"
| "boot_strncmp_loop m lhs rhs (Suc count) =
     (let cmp = sint (m lhs) - sint (m rhs)
      in if count \<noteq> 0 \<and> cmp = 0 \<and> m lhs \<noteq> 0 then boot_strncmp_loop m (lhs + 1) (rhs + 1) count
         else cmp)"

definition boot_strncmp :: "mem \<Rightarrow> ptr \<Rightarrow> ptr \<Rightarrow> u64 \<Rightarrow> int" where
  "boot_strncmp m lhs rhs count = boot_strncmp_loop m lhs rhs (unat count)"

partial_function (option) boot_strcpy_loop :: "mem \<Rightarrow> ptr \<Rightarrow> ptr \<Rightarrow> mem option" where
  "boot_strcpy_loop m d src =
     (let c = m src; m' = m(d := c)
      in if c \<noteq> 0 then boot_strcpy_loop m' (d + 1) (src + 1) else Some m')"

definition boot_strcpy :: "mem \<Rightarrow> ptr \<Rightarrow> ptr \<Rightarrow> (mem \<times> ptr) option" where
  "boot_strcpy m dest src = map_option (\<lambda>m'. (m', dest)) (boot_strcpy_loop m dest src)"

fun boot_strncpy_fill :: "mem \<Rightarrow> ptr \<Rightarrow> u64 \<Rightarrow> nat \<Rightarrow> mem" where
  "boot_strncpy_fill m d i 0 = m"
| "boot_strncpy_fill m d i (Suc k) = boot_strncpy_fill (m(d + i := 0)) d (i + 1) k"

fun boot_strncpy_loop :: "mem \<Rightarrow> ptr \<Rightarrow> ptr \<Rightarrow> u64 \<Rightarrow> nat \<Rightarrow> mem" where
  "boot_strncpy_loop m d src i 0 = m"
| "boot_strncpy_loop m d src i (Suc k) =
     (if m (src + i) \<noteq> 0 then boot_strncpy_loop (m(d + i := m (src + i))) d src (i + 1) k
      else boot_strncpy_fill m d i (Suc k))"

definition boot_strncpy :: "mem \<Rightarrow> ptr \<Rightarrow> ptr \<Rightarrow> u64 \<Rightarrow> mem \<times> ptr" where
  "boot_strncpy m dest src n = (boot_strncpy_loop m dest src 0 (unat n), dest)"

definition boot_strcat :: "mem \<Rightarrow> ptr \<Rightarrow> ptr \<Rightarrow> (mem \<times> ptr) option" where
  "boot_strcat m dest src = do {
     len \<leftarrow> boot_strlen m dest;
     (m', _) \<leftarrow> boot_strcpy m (dest + len) src;
     Some (m', dest)
   }"

definition boot_strncat :: "mem \<Rightarrow> ptr \<Rightarrow> ptr \<Rightarrow> u64 \<Rightarrow> (mem \<times> ptr) option" where
  "boot_strncat m dest src n = do {
     len \<leftarrow> boot_strlen m dest;
     Some (boot_strncpy m (dest + len) src n)
   }"

fun boot_memchr_loop :: "mem \<Rightarrow> u8 \<Rightarrow> ptr \<Rightarrow> nat \<Rightarrow> ptr" where
  "boot_memchr_loop m ch p 0 = 0"
| "boot_memchr_loop m ch p (Suc count) = (if m p = ch then p else boot_memchr_loop m ch (p + 1) count)"

definition boot_memchr :: "mem \<Rightarrow> ptr \<Rightarrow> u32 \<Rightarrow> u64 \<Rightarrow> ptr" where
  "boot_memchr m p ch count = boot_memchr_loop m (ucast ch) p (unat count)"

fun boot_memcmp_loop :: "mem \<Rightarrow> ptr \<Rightarrow> ptr \<Rightarrow> nat \<Rightarrow> int" where
  "boot_memcmp_loop m lp rp 0 = 0"
| "boot_memcmp_loop m lp rp (Suc count) =
     (let cmp = uint (m lp) - uint (m rp)
      in if cmp = 0 \<and> count \<noteq> 0 then boot_memcmp_loop m (lp + 1) (rp + 1) count else cmp)"

definition boot_memcmp :: "mem \<Rightarrow> ptr \<Rightarrow> ptr \<Rightarrow> u64 \<Rightarrow> int" where
  "boot_memcmp m lhs rhs count = boot_memcmp_loop m lhs rhs (unat count)"

fun boot_strstr_loop :: "mem \<Rightarrow> ptr \<Rightarrow> ptr \<Rightarrow> u64 \<Rightarrow> u64 \<Rightarrow> nat \<Rightarrow> ptr" where
  "boot_strstr_loop m str substr blen i 0 = 0"
| "boot_strstr_loop m str substr blen i (Suc n) =
     (if boot_memcmp m (str + i) substr blen = 0 then str + i
      else boot_strstr_loop m str substr blen (i + 1) n)"

definition boot_strstr :: "mem \<Rightarrow> ptr \<Rightarrow> ptr \<Rightarrow> ptr option" where
  "boot_strstr m str substr =
     (if m substr = 0 then Some str
      else do {
        slen \<leftarrow> boot_strlen m str;
        blen \<leftarrow> boot_strlen m substr;
        if blen > slen then Some 0
        else let chklen = slen - blen
             in Some (boot_strstr_loop m str substr blen 0 (Suc (unat chklen)))
      })"

section \<open>Blocks of memory\<close>

text \<open>The string instructions: forward with the direction flag clear, backward with it set.\<close>

fun rep_movsl :: "mem \<Rightarrow> ptr \<Rightarrow> ptr \<Rightarrow> nat \<Rightarrow> mem" where
  "rep_movsl m d s 0 = m"
| "rep_movsl m d s (Suc n) = rep_movsl (store_bytes m d (bytes_at m s 4)) (d + 4) (s + 4) n"

fun rep_movsl_down :: "mem \<Rightarrow> ptr \<Rightarrow> ptr \<Rightarrow> nat \<Rightarrow> mem" where
  "rep_movsl_down m d s 0 = m"
| "rep_movsl_down m d s (Suc n) = rep_movsl_down (store_bytes m d (bytes_at m s 4)) (d - 4) (s - 4) n"

fun rep_movsb_down :: "mem \<Rightarrow> ptr \<Rightarrow> ptr \<Rightarrow> nat \<Rightarrow> mem" where
  "rep_movsb_down m d s 0 = m"
| "rep_movsb_down m d s (Suc n) = rep_movsb_down (m(d := m s)) (d - 1) (s - 1) n"

fun rep_stosl :: "mem \<Rightarrow> ptr \<Rightarrow> u32 \<Rightarrow> nat \<Rightarrow> mem" where
  "rep_stosl m d eax 0 = m"
| "rep_stosl m d eax (Suc n) = rep_stosl (store_bytes m d (le32 eax)) (d + 4) eax n"

fun rep_stosb :: "mem \<Rightarrow> ptr \<Rightarrow> u32 \<Rightarrow> nat \<Rightarrow> mem" where
  "rep_stosb m d eax 0 = m"
| "rep_stosb m d eax (Suc n) = rep_stosb (m(d := ucast eax)) (d + 1) eax n"

definition memcpy_rev :: "mem \<Rightarrow> ptr \<Rightarrow> ptr \<Rightarrow> u64 \<Rightarrow> mem \<times> ptr" where
  "memcpy_rev m dest src n =
    (if n AND 3 = 0 then (rep_movsl_down m (dest + n - 1) (src + n - 1) (unat (drop_bit 2 n)), dest)
     else (rep_movsb_down m (dest + n - 4) (src + n - 4) (unat n), dest))"

definition boot_memcpy :: "mem \<Rightarrow> ptr \<Rightarrow> ptr \<Rightarrow> u64 \<Rightarrow> mem \<times> ptr" where
  "boot_memcpy m dest src n =
    (let remainder = n AND 3;
         n = drop_bit 2 n;
         m = rep_movsl m dest src (unat n)
     in (rep_movsb m (dest + 4 * n) (src + 4 * n) (unat remainder), dest))"

fun boot_memmove_down :: "mem \<Rightarrow> ptr \<Rightarrow> ptr \<Rightarrow> nat \<Rightarrow> mem" where
  "boot_memmove_down m d s 0 = m"
| "boot_memmove_down m d s (Suc i) = boot_memmove_down (m(d + of_nat i := m (s + of_nat i))) d s i"

definition boot_memmove :: "mem \<Rightarrow> ptr \<Rightarrow> ptr \<Rightarrow> u64 \<Rightarrow> mem \<times> ptr" where
  "boot_memmove m d s n =
    (if n \<noteq> 0 then
       if d < s \<or> s + n \<le> d then boot_memcpy m d s n
       else if d \<noteq> s then (boot_memmove_down m d s (unat n), d)
       else (m, d)
     else (m, d))"

definition boot_memset :: "mem \<Rightarrow> ptr \<Rightarrow> u32 \<Rightarrow> u64 \<Rightarrow> mem \<times> ptr" where
  "boot_memset m dest c n =
    (let remainder = n AND 3;
         n = drop_bit 2 n;
         eax = (c AND 0xFF) * 0x01010101;
         m = rep_stosl m dest eax (unat n)
     in (rep_stosb m (dest + 4 * n) eax (unat remainder), dest))"

section \<open>Agreement with the kernel's routines\<close>

lemma option_eqI: "(\<And>r. a = Some r \<Longrightarrow> b = Some r) \<Longrightarrow> (\<And>r. b = Some r \<Longrightarrow> a = Some r) \<Longrightarrow> a = b"
  by (cases a; cases b) auto

lemma boot_strlen_eq: "boot_strlen m s = strlen m s"
proof -
  have "boot_strlen_loop m s i = Some r \<Longrightarrow> strlen_loop m s i = Some r" for i r
    by (erule boot_strlen_loop.raw_induct [rotated]) (subst strlen_loop.simps, simp split: if_splits)
  moreover have "strlen_loop m s i = Some r \<Longrightarrow> boot_strlen_loop m s i = Some r" for i r
    by (erule strlen_loop.raw_induct [rotated]) (subst boot_strlen_loop.simps, simp split: if_splits)
  ultimately show ?thesis unfolding boot_strlen_def strlen_def by (rule option_eqI)
qed

lemma boot_strcpy_eq: "boot_strcpy m d s = strcpy m d s"
proof -
  have "boot_strcpy_loop m d s = Some r \<Longrightarrow> strcpy_loop m d s = Some r" for r
    by (erule boot_strcpy_loop.raw_induct [rotated])
      (subst strcpy_loop.simps, simp add: Let_def split: if_splits)
  moreover have "strcpy_loop m d s = Some r \<Longrightarrow> boot_strcpy_loop m d s = Some r" for r
    by (erule strcpy_loop.raw_induct [rotated])
      (subst boot_strcpy_loop.simps, simp add: Let_def split: if_splits)
  ultimately have "boot_strcpy_loop m d s = strcpy_loop m d s" by (rule option_eqI)
  then show ?thesis by (simp only: boot_strcpy_def strcpy_def)
qed

lemma boot_strchr_loop_le:
  "boot_strchr_loop m c p = Some r \<Longrightarrow> \<forall>i. strchr_loop m (p - i) c i = Some r"
proof (erule boot_strchr_loop.raw_induct [rotated], rule allI)
  fix f :: "mem \<Rightarrow> u8 \<Rightarrow> ptr \<Rightarrow> ptr option" and m c p r i
  assume IH: "\<And>m c p r. f m c p = Some r \<Longrightarrow> \<forall>i. strchr_loop m (p - i) c i = Some r"
    and eq: "(let v = m p in if v = c then Some p else if v = 0 then Some 0 else f m c (p + 1)) = Some r"
  have "strchr_loop m (p - i) c (i + 1) = Some r" if "m p \<noteq> c" "m p \<noteq> 0"
    using IH [of m c "p + 1" r, THEN spec, of "i + 1"] eq that by (simp add: Let_def)
  then show "strchr_loop m (p - i) c i = Some r"
    using eq by (subst strchr_loop.simps) (simp add: Let_def split: if_splits)
qed

lemma boot_strchr_eq: "boot_strchr m s ch = strchr m s ch"
proof -
  have "strchr_loop m s c i = Some r \<Longrightarrow> boot_strchr_loop m c (s + i) = Some r" for c i r
    by (erule strchr_loop.raw_induct [rotated])
      (subst boot_strchr_loop.simps, simp add: Let_def add.assoc split: if_splits)
  from this [of _ 0] have "strchr_loop m s c 0 = Some r \<Longrightarrow> boot_strchr_loop m c s = Some r" for c r by simp
  moreover have "boot_strchr_loop m c s = Some r \<Longrightarrow> strchr_loop m s c 0 = Some r" for c r
    using boot_strchr_loop_le [of m c s r] by (metis diff_zero)
  ultimately show ?thesis unfolding boot_strchr_def strchr_def by (rule option_eqI [rotated])
qed

lemma boot_strncpy_fill_eq: "boot_strncpy_fill m d i k = strncpy_fill m d i k"
  by (induction k arbitrary: m i) simp_all

lemma boot_strncpy_loop_eq: "boot_strncpy_loop m d s i k = strncpy_loop m d s i k"
  by (induction k arbitrary: m i) (simp_all add: boot_strncpy_fill_eq)

lemma boot_strncpy_eq: "boot_strncpy m d s n = strncpy m d s n"
  by (simp add: boot_strncpy_def strncpy_def boot_strncpy_loop_eq)

lemma boot_memchr_eq: "boot_memchr m p ch n = memchr m p ch n"
proof -
  have "boot_memchr_loop m c p k = memchr_loop m c p k" for c k
    by (induction k arbitrary: p) simp_all
  then show ?thesis by (simp add: boot_memchr_def memchr_def)
qed

lemma boot_memcmp_loop_sgn: "sgn (boot_memcmp_loop m p q n) = repe_cmpsb m p q n"
proof (induction n arbitrary: p q)
  case (Suc n)
  have "uint (m p) - uint (m q) = 0 \<longleftrightarrow> m p = m q" by (simp add: word_uint_eq_iff)
  moreover have "m p < m q \<longleftrightarrow> uint (m p) < uint (m q)" by (simp add: word_less_alt)
  moreover have "n = 0 \<Longrightarrow> repe_cmpsb m (p + 1) (q + 1) n = 0" by simp
  ultimately show ?case using Suc by (auto simp: Let_def)
qed simp

lemma boot_memcmp_sgn: "sgn (boot_memcmp m p q n) = memcmp m p q n"
  by (simp add: boot_memcmp_def memcmp_def boot_memcmp_loop_sgn)

lemma boot_memcmp_0: "boot_memcmp m p q n = 0 \<longleftrightarrow> memcmp m p q n = 0"
  by (simp flip: boot_memcmp_sgn add: sgn_0_0)

lemma boot_strstr_eq: "boot_strstr m s t = strstr m s t"
proof -
  have "boot_strstr_loop m s t b i n = strstr_loop m s t b i n" for b i n
    by (induction n arbitrary: i) (simp_all add: boot_memcmp_0)
  then show ?thesis by (simp only: boot_strstr_def strstr_def boot_strlen_eq)
qed

section \<open>Copying and filling\<close>

lemma bytes_at_store_apart:
  assumes "n < 18446744073709551616" and "\<And>j. j < length bs \<Longrightarrow> \<not> in_block s n (d + of_nat j)"
  shows "bytes_at (store_bytes m d bs) s n = bytes_at m s n"
  using assms(2)
proof (induction bs arbitrary: m d)
  case (Cons b bs)
  have "\<not> in_block s n (d + 1 + of_nat j)" if "j < length bs" for j
    using Cons.prems [of "Suc j"] that by (simp add: add.assoc)
  from Cons.IH [OF this] show ?case
    using Cons.prems [of 0] assms(1) by (simp add: bytes_at_upd_outside)
qed simp

lemma bytes_at_copied:
  assumes "d = s \<or> k + r \<le> unat (d - s)" and "k + r < 18446744073709551616"
  shows "bytes_at (store_bytes m d (bytes_at m s k)) (s + of_nat k) r = bytes_at m (s + of_nat k) r"
proof (cases "d = s")
  case True
  then show ?thesis by (simp add: store_bytes_same)
next
  case False
  then have far: "k + r \<le> unat (d - s)" using assms by simp
  show ?thesis
  proof (rule bytes_at_store_apart)
    fix j assume "j < length (bytes_at m s k)"
    then have j: "j < k" by simp
    have "d + of_nat j - (s + of_nat k) = d - s - of_nat (k - j)" using j by (simp add: of_nat_diff)
    also have "unat (d - s - of_nat (k - j)) = unat (d - s) - (k - j)"
      using far j assms(2)
      by (subst unat_sub) (simp_all add: word_le_nat_alt unat_of_nat take_bit_eq_mod del: of_nat_diff)
    finally show "\<not> in_block (s + of_nat k) r (d + of_nat j)" using far j by (simp add: in_block_def)
  qed (use assms in simp)
qed

lemma rep_movsl_eq:
  "d = s \<or> 4 * n \<le> unat (d - s) \<Longrightarrow> 4 * n < 18446744073709551616 \<Longrightarrow>
   rep_movsl m d s n = store_bytes m d (bytes_at m s (4 * n))"
proof (induction n arbitrary: m d s)
  case (Suc n)
  let ?m = "store_bytes m d (bytes_at m s 4)"
  have "rep_movsl ?m (d + 4) (s + 4) n = store_bytes ?m (d + 4) (bytes_at ?m (s + 4) (4 * n))"
    using Suc.prems by (intro Suc.IH) auto
  also have "bytes_at ?m (s + 4) (4 * n) = bytes_at m (s + 4) (4 * n)"
    using bytes_at_copied [of d s 4 "4 * n" m] Suc.prems by (simp del: bytes_at_numeral)
  finally show ?case
    using bytes_at_append [of m s 4 "4 * n"] store_bytes_append [of m d "bytes_at m s 4"]
    by (simp del: bytes_at_numeral store_bytes.simps)
qed simp

lemma boot_memcpy_eq:
  assumes "d = s \<or> unat n \<le> unat (d - s)"
  shows "fst (boot_memcpy m d s n) = store_bytes m d (bytes_at m s (unat n))"
proof -
  let ?q = "unat (drop_bit 2 n)" and ?r = "unat (n AND 3)"
  have n: "unat n = 4 * ?q + ?r"
    using unat_and_mask [of n 2] unat_div_distrib [of n 4] by (simp add: drop_bit_eq_div mask_numeral)
  have lt: "4 * ?q + ?r < 18446744073709551616" using n unat_lt_64 [of n] by linarith
  have apart: "d = s \<or> 4 * ?q + ?r \<le> unat (d - s)" using assms n by linarith
  have l: "rep_movsl m d s ?q = store_bytes m d (bytes_at m s (4 * ?q))" (is "_ = ?m")
    using lt apart by (intro rep_movsl_eq) auto
  have q: "(4 * drop_bit 2 n :: u64) = of_nat (4 * ?q)" by simp
  have "fst (boot_memcpy m d s n) = rep_movsb ?m (d + of_nat (4 * ?q)) (s + of_nat (4 * ?q)) ?r"
    unfolding boot_memcpy_def Let_def l q by simp
  also have "\<dots> = store_bytes ?m (d + of_nat (4 * ?q)) (bytes_at ?m (s + of_nat (4 * ?q)) ?r)"
    using apart by (intro rep_movsb_eq) (auto simp del: of_nat_mult)
  also have "bytes_at ?m (s + of_nat (4 * ?q)) ?r = bytes_at m (s + of_nat (4 * ?q)) ?r"
    using bytes_at_copied [OF apart lt] .
  finally show ?thesis
    unfolding n bytes_at_append store_bytes_append by simp
qed

lemma store_bytes_commute:
  "length bs < 18446744073709551616 \<Longrightarrow> \<not> in_block d (length bs) a \<Longrightarrow>
   store_bytes (m(a := v)) d bs = (store_bytes m d bs)(a := v)"
proof (induction bs arbitrary: m d)
  case (Cons b bs)
  then have "a \<noteq> d" "\<not> in_block (d + 1) (length bs) a" by (auto simp: in_block_Suc)
  moreover from \<open>a \<noteq> d\<close> have "m(a := v, d := b) = m(d := b, a := v)" by (rule fun_upd_twist)
  ultimately show ?case using Cons.IH [of "d + 1" "m(d := b)"] Cons.prems(1) unfolding store_bytes.simps
    by (simp del: fun_upd_apply)
qed simp

lemma boot_memmove_down_eq:
  "d \<noteq> s \<Longrightarrow> unat (d - s) + n < 18446744073709551617 \<Longrightarrow> n < 18446744073709551616 \<Longrightarrow>
   boot_memmove_down m d s n = store_bytes m d (bytes_at m s n)"
proof (induction n arbitrary: m)
  case (Suc n)
  let ?m = "m(d + of_nat n := m (s + of_nat n))"
  have "unat (d + of_nat n - s) = unat (d - s + of_nat n)" by (simp add: algebra_simps)
  also have "\<dots> = unat (d - s) + n" using Suc.prems by (simp add: unat_word_ariths unat_of_nat take_bit_eq_mod)
  finally have "\<not> in_block s n (d + of_nat n)" by (simp add: in_block_def)
  then have r: "bytes_at ?m s n = bytes_at m s n" using Suc.prems by (intro bytes_at_upd_outside) auto
  have "\<not> in_block d n (d + of_nat n)" using Suc.prems by (simp add: in_block_def unat_of_nat take_bit_eq_mod)
  then have "store_bytes ?m d (bytes_at m s n) = (store_bytes m d (bytes_at m s n))(d + of_nat n := m (s + of_nat n))"
    using Suc.prems by (intro store_bytes_commute) auto
  moreover have "boot_memmove_down ?m d s n = store_bytes ?m d (bytes_at ?m s n)"
    using Suc.prems by (intro Suc.IH) auto
  ultimately show ?case
    using bytes_at_append [of m s n 1] store_bytes_append [of m d "bytes_at m s n" "[m (s + of_nat n)]"] r by simp
qed simp

lemma boot_memmove_eq:
  assumes "unat s + unat n < 18446744073709551616" and "unat d + unat n \<le> 18446744073709551616"
  shows "fst (boot_memmove m d s n) = store_bytes m d (bytes_at m s (unat n))"
proof -
  consider "n = 0" | "n \<noteq> 0" "d < s \<or> s + n \<le> d" | "n \<noteq> 0" "\<not> (d < s \<or> s + n \<le> d)" "d = s"
    | "n \<noteq> 0" "\<not> (d < s \<or> s + n \<le> d)" "d \<noteq> s" by blast
  then show ?thesis
  proof cases
    case 2
    have "unat n \<le> unat (d - s)"
    proof (cases "d < s")
      case True
      then show ?thesis using assms(1) unat_sub_wrap_64 [of d s] by linarith
    next
      case False
      then have "s + n \<le> d" "s \<le> d" using 2 by auto
      moreover have "unat (s + n) = unat s + unat n" using assms(1) by (simp add: unat_word_ariths)
      ultimately show ?thesis by (simp add: unat_sub word_le_nat_alt)
    qed
    with 2 show ?thesis by (simp add: boot_memmove_def boot_memcpy_eq)
  next
    case 4
    then have "unat (d - s) = unat d - unat s" "unat s \<le> unat d" by (simp_all add: unat_sub word_le_nat_alt not_less)
    then have "unat (d - s) + unat n < 18446744073709551617" using assms(2) by linarith
    with 4 show ?thesis using boot_memmove_down_eq [of d s "unat n" m] by (simp add: boot_memmove_def)
  qed (simp_all add: boot_memmove_def store_bytes_same)
qed

lemma le32_fill: "le32 (ucast b * 0x01010101) = replicate 4 b"
proof -
  let ?w = "ucast b * 0x01010101 :: u32"
  have "unat b < 2 ^ 32" using unat_lt_8 [of b] by (rule less_trans) simp
  then have "unat (ucast b :: u32) = unat b" by (simp add: unsigned_ucast_eq take_bit_nat_eq_self)
  moreover have "16843009 * unat b < 4294967296" using unat_lt_8 [of b] by linarith
  ultimately have w: "unat ?w = 16843009 * unat b" by (simp add: unat_word_ariths)
  have d: "ucast (drop_bit k ?w) = b" if "16843009 * unat b div 2 ^ k mod 256 = unat b" for k
    using that w by (simp add: word_unat_eq_iff unsigned_ucast_eq take_bit_eq_mod unat_drop_bit)
  have B: "unat b < 256" by (rule unat_lt_8)
  have "ucast (drop_bit 0 ?w) = b" "ucast (drop_bit 8 ?w) = b" "ucast (drop_bit 16 ?w) = b" "ucast (drop_bit 24 ?w) = b"
    using repunit_digit [of 0 "unat b" 1 65793] repunit_digit [of 1 "unat b" 256 257]
      repunit_digit [of 257 "unat b" 65536 1] repunit_digit [of 65793 "unat b" 16777216 0] B
    by (intro d; simp)+
  then show ?thesis by (simp add: le32_def eval_nat_numeral)
qed

lemma rep_stosl_eq:
  "rep_stosl m d (ucast b * 0x01010101) n = store_bytes m d (replicate (4 * n) b)"
proof (induction n arbitrary: m d)
  case (Suc n)
  have "replicate (4 * Suc n) b = replicate 4 b @ replicate (4 * n) b" by (simp flip: replicate_add)
  then show ?case using Suc store_bytes_append [of m d "replicate 4 b"] by (simp add: le32_fill del: replicate.simps)
qed simp

lemma rep_stosb_eq: "rep_stosb m d eax n = store_bytes m d (replicate n (ucast eax))"
  by (induction n arbitrary: m d) simp_all

lemma boot_memset_eq: "boot_memset m d c n = memset m d c n"
proof -
  let ?q = "unat (drop_bit 2 n)" and ?r = "unat (n AND 3)" and ?b = "ucast c :: u8"
  have n: "unat n = 4 * ?q + ?r"
    using unat_and_mask [of n 2] unat_div_distrib [of n 4] by (simp add: drop_bit_eq_div mask_numeral)
  have "c AND 0xFF = take_bit 8 c" by (simp add: take_bit_eq_mask mask_numeral)
  then have c: "c AND 0xFF = ucast ?b" by (intro bit_word_eqI) (auto simp: bit_simps)
  have "ucast (ucast ?b * 0x01010101 :: u32) = ?b" using le32_fill [of ?b] by (simp add: le32_def eval_nat_numeral)
  moreover have "(4 * drop_bit 2 n :: u64) = of_nat (4 * ?q)" by simp
  ultimately have "boot_memset m d c n = (store_bytes (store_bytes m d (replicate (4 * ?q) ?b)) (d + of_nat (4 * ?q)) (replicate ?r ?b), d)"
    unfolding boot_memset_def Let_def c rep_stosl_eq rep_stosb_eq by simp
  then show ?thesis
    using store_bytes_append [of m d "replicate (4 * ?q) ?b" "replicate ?r ?b"]
    unfolding memset_eq n replicate_add by simp
qed

section \<open>Properties\<close>

text \<open>
  The boot loader's copies of the library routines compute what the kernel's compute, on every
  memory: the string searches, the copies and the fill give the same result, whether or not they
  return, and \<^verbatim>\<open>memcmp\<close> has the same sign.
\<close>

theorem boot_string_agrees:
  "boot_strlen m p = strlen m p \<and> boot_strchr m p c = strchr m p c \<and> boot_strcpy m p q = strcpy m p q
    \<and> boot_strcat m p q = strcat m p q \<and> boot_strncpy m p q n = strncpy m p q n
    \<and> boot_strncat m p q n = strncat m p q n \<and> boot_memchr m p c n = memchr m p c n
    \<and> sgn (boot_memcmp m p q n) = memcmp m p q n \<and> boot_strstr m p q = strstr m p q
    \<and> boot_memset m p c n = memset m p c n"
  by (simp add: boot_strlen_eq boot_strchr_eq boot_strcpy_eq boot_strncpy_eq boot_memchr_eq boot_memcmp_sgn
      boot_strstr_eq boot_memset_eq boot_strcat_def strcat_def boot_strncat_def strncat_def)

text \<open>
  C27. \<^verbatim>\<open>memmove\<close> of the boot loader moves the bytes whatever the overlap of the two blocks, as long as
  neither wraps around the end of the address space.
\<close>

theorem boot_memmove_moves:
  assumes "unat s + unat n < 18446744073709551616" and "unat d + unat n \<le> 18446744073709551616"
  shows "bytes_at (fst (boot_memmove m d s n)) d (unat n) = bytes_at m s (unat n)
    \<and> (\<forall>a. \<not> in_block d (unat n) a \<longrightarrow> fst (boot_memmove m d s n) a = m a)"
  unfolding boot_memmove_eq [OF assms]
  using bytes_at_store_bytes [of "bytes_at m s (unat n)" m d] by (auto simp: store_bytes_outside)

theorem boot_memmove_moves_witness:
  "bytes_at (fst (boot_memmove (store_bytes (\<lambda>_. 0) 100 [1, 2, 3]) 101 100 3)) 101 3 = [1, 2, 3]"
  using boot_memmove_moves [of 100 3 101 "store_bytes (\<lambda>_. 0) 100 [1, 2, 3]"] by simp

text \<open>
  The reverse copy \<^verbatim>\<open>memcpy_rev\<close> does not copy: with a length that is a multiple of four it starts at
  the last byte instead of the last doubleword, and otherwise four bytes before the end.
\<close>

lemmas rep_movsb_down_numeral = rep_movsb_down.simps(2) [of _ _ _ "pred_numeral k" for k, folded numeral_eq_Suc]

lemma memcpy_rev_wrong:
  "bytes_at (fst (memcpy_rev (store_bytes (\<lambda>_. 0) 100 [1, 2, 3, 4]) 200 100 4)) 200 4 = [0, 0, 0, 4]"
  "bytes_at (fst (memcpy_rev (store_bytes (\<lambda>_. 0) 100 [1, 2, 3, 4, 5]) 200 100 5)) 200 5 = [1, 2, 0, 0, 0]"
  by (simp_all add: memcpy_rev_def rep_movsb_down_numeral)

text \<open>\<^verbatim>\<open>strcmp\<close> of the boot loader orders bytes as signed characters, the kernel's as unsigned ones.\<close>

lemma boot_strcmp_signed:
  "cstr m p [0x80] \<Longrightarrow> cstr m q [0x41] \<Longrightarrow> boot_strcmp m p q = Some (- 193) \<and> strcmp m p q = Some 63"
  by (subst boot_strcmp.simps, subst strcmp.simps) simp

end
