(* ===== verification/Boot_Heap.thy ===== *)
theory Boot_Heap
  imports Boot_String "HOL-Library.Multiset"
begin

text \<open>
  The heap of the boot loader (boot/malloc.cc), in the 64-bit build.  A block is a 16-byte header
  followed by its payload; the blocks tile the heap from \<open>heap_st\<close> to the sentinel at \<open>heap_en\<close>.
  The headers are a store of their own, \<open>hdr\<close>, indexed by the address of the block, and the
  payload bytes are the memory \<open>payload\<close>.  A call that panics returns \<open>Inl\<close>; \<open>None\<close> is a loop that
  does not end.
\<close>

section \<open>Blocks\<close>

abbreviation (input) FREE :: u32 where "FREE \<equiv> 0xFEEEB10C"
abbreviation (input) USED :: u32 where "USED \<equiv> 0xA10CA1ED"

record blk_hdr_t =
  b_size :: u32
  b_sig :: u32
  b_neg_size :: u32
  b_self :: u32

record boot_heap =
  hdr :: "ptr \<Rightarrow> blk_hdr_t"
  payload :: mem
  heap_st :: ptr
  heap_en :: ptr
  first_free :: ptr
  heap_free :: u64

datatype heap_panic = Corrupt_header | Bad_free

definition blk_invalid :: "ptr \<Rightarrow> boot_heap \<Rightarrow> bool" where
  "blk_invalid p s \<longleftrightarrow> b_size (hdr s p) + b_neg_size (hdr s p) \<noteq> 0 \<or> b_self (hdr s p) \<noteq> ucast p"

definition make_invalid :: "ptr \<Rightarrow> boot_heap \<Rightarrow> boot_heap" where
  "make_invalid p s =
    s\<lparr> hdr := (hdr s)(p := (hdr s p)\<lparr> b_self := 0, b_size := 0xBAD11111, b_neg_size := 0 \<rparr>) \<rparr>"

definition make_valid :: "ptr \<Rightarrow> boot_heap \<Rightarrow> boot_heap" where
  "make_valid p s = s\<lparr> hdr := (hdr s)(p := (hdr s p)\<lparr> b_self := ucast p \<rparr>) \<rparr>"

definition set_size :: "ptr \<Rightarrow> u32 \<Rightarrow> boot_heap \<Rightarrow> boot_heap" where
  "set_size p n s = s\<lparr> hdr := (hdr s)(p := (hdr s p)\<lparr> b_size := n, b_neg_size := - n \<rparr>) \<rparr>"

definition set_sig :: "ptr \<Rightarrow> u32 \<Rightarrow> boot_heap \<Rightarrow> boot_heap" where
  "set_sig p g s = s\<lparr> hdr := (hdr s)(p := (hdr s p)\<lparr> b_sig := g \<rparr>) \<rparr>"

text \<open>The three assignments that create a block header.\<close>

definition new_blk :: "ptr \<Rightarrow> u32 \<Rightarrow> u32 \<Rightarrow> boot_heap \<Rightarrow> boot_heap" where
  "new_blk p n g s = set_sig p g (make_valid p (set_size p n s))"

definition malloc_init :: "ptr \<Rightarrow> ptr \<Rightarrow> boot_heap \<Rightarrow> boot_heap" where
  "malloc_init st en s =
    (let st = (st + 15) AND - 16;
         en = en AND - 16;
         s = s\<lparr> heap_st := st, heap_en := en - 16 \<rparr>;
         s = new_blk (heap_en s) 0 USED s;
         s = s\<lparr> first_free := heap_st s \<rparr>;
         s = new_blk (heap_st s) (ucast (heap_en s - heap_st s)) FREE s
     in s\<lparr> heap_free := ucast (b_size (hdr s (heap_st s))) \<rparr>)"

definition next_blk :: "ptr \<Rightarrow> boot_heap \<Rightarrow> ptr" where
  "next_blk blk s = blk + ucast (b_size (hdr s blk))"

section \<open>Allocation\<close>

partial_function (option) malloc_coalesce :: "ptr \<Rightarrow> ptr \<Rightarrow> boot_heap \<Rightarrow> (ptr \<times> boot_heap) option" where
  "malloc_coalesce blk next s =
    (if b_sig (hdr s blk) = FREE \<and> b_sig (hdr s next) = FREE then
       (let s = set_size blk (b_size (hdr s blk) + b_size (hdr s next)) s;
            s = make_invalid next s;
            s = (if first_free s = next then s\<lparr> first_free := blk \<rparr> else s);
            next = next_blk blk s;
            s = s\<lparr> heap_free := heap_free s + 16 \<rparr>
        in malloc_coalesce blk next s)
     else Some (next, s))"

definition align_adj :: "u64 \<Rightarrow> ptr \<Rightarrow> u64" where
  "align_adj alignment blk = ((blk + 16 + alignment - 1) AND - alignment) - (blk + 16)"

definition malloc_take :: "u64 \<Rightarrow> ptr \<Rightarrow> boot_heap \<Rightarrow> ptr \<times> boot_heap" where
  "malloc_take bytes blk s =
    (let remain = ucast (b_size (hdr s blk)) - bytes;
         s = (if remain \<noteq> 0 then new_blk (blk + bytes) (ucast remain) FREE s else s);
         s = set_sig blk USED (set_size blk (ucast bytes) s)
     in (blk + 16, s))"

definition malloc_split :: "u64 \<Rightarrow> ptr \<Rightarrow> boot_heap \<Rightarrow> ptr \<times> boot_heap" where
  "malloc_split adj blk s =
    (let aligned_hdr = blk + adj;
         s = new_blk aligned_hdr (ucast (ucast (b_size (hdr s blk)) - adj)) FREE s;
         s = (if aligned_hdr < first_free s then s\<lparr> first_free := aligned_hdr \<rparr> else s)
     in (aligned_hdr, set_size blk (ucast adj) s))"

definition malloc_try :: "u64 \<Rightarrow> u64 \<Rightarrow> ptr \<Rightarrow> boot_heap \<Rightarrow> ptr option \<times> boot_heap" where
  "malloc_try bytes alignment blk s =
    (if b_sig (hdr s blk) = FREE then
       let s = (if blk < first_free s \<or> b_sig (hdr s (first_free s)) = USED then s\<lparr> first_free := blk \<rparr> else s);
           adj = align_adj alignment blk
       in if bytes + adj \<le> ucast (b_size (hdr s blk)) then
            let (blk, s) = (if adj \<noteq> 0 then malloc_split adj blk s else (blk, s));
                (p, s) = malloc_take bytes blk s
            in (Some p, s)
          else (None, s)
     else (None, s))"

partial_function (option) malloc_loop ::
    "ptr \<Rightarrow> u64 \<Rightarrow> u64 \<Rightarrow> ptr \<Rightarrow> boot_heap \<Rightarrow> (heap_panic + ptr \<times> boot_heap) option" where
  "malloc_loop start_pos bytes alignment blk s =
    (if blk_invalid (next_blk blk s) s then Some (Inl Corrupt_header)
     else do {
       (next, s) \<leftarrow> malloc_coalesce blk (next_blk blk s) s;
       case malloc_try bytes alignment blk s of
         (Some p, s) \<Rightarrow> Some (Inr (p, s))
       | (None, s) \<Rightarrow>
           (let blk = (if 0 < b_size (hdr s blk) then next else heap_st s)
            in if blk \<noteq> start_pos then malloc_loop start_pos bytes alignment blk s
               else Some (Inr (0, s))) })"

definition round_bytes :: "u64 \<Rightarrow> u64" where
  "round_bytes bytes = ((bytes + 15) AND - 16) + 16"

definition malloc_aligned :: "u64 \<Rightarrow> u64 \<Rightarrow> boot_heap \<Rightarrow> (heap_panic + ptr \<times> boot_heap) option" where
  "malloc_aligned bytes alignment s =
    (if bytes = 0 then Some (Inr (0, s))
     else if blk_invalid (first_free s) s then Some (Inl Corrupt_header)
     else malloc_loop (first_free s) (round_bytes bytes) alignment (first_free s) s)"

definition boot_malloc :: "u64 \<Rightarrow> boot_heap \<Rightarrow> (heap_panic + ptr \<times> boot_heap) option" where
  "boot_malloc bytes s = malloc_aligned bytes 16 s"

section \<open>Reallocation and release\<close>

definition realloc_move :: "ptr \<Rightarrow> u64 \<Rightarrow> u64 \<Rightarrow> boot_heap \<Rightarrow> (heap_panic + ptr \<times> boot_heap) option" where
  "realloc_move blk bytes alignment s = do {
     r \<leftarrow> malloc_aligned bytes alignment s;
     case r of
       Inl e \<Rightarrow> Some (Inl e)
     | Inr (other_blk, s) \<Rightarrow>
         (if other_blk = 0 then Some (Inr (0, s))
          else let s = s\<lparr> payload := fst (boot_memcpy (payload s) other_blk (blk + 16) (ucast (b_size (hdr s blk)) - 16)) \<rparr>;
                   s = set_sig blk FREE s;
                   s = (if blk < first_free s then s\<lparr> first_free := blk \<rparr> else s)
               in Some (Inr (other_blk, s))) }"

definition realloc_expand :: "ptr \<Rightarrow> ptr \<Rightarrow> u64 \<Rightarrow> boot_heap \<Rightarrow> ptr \<times> boot_heap" where
  "realloc_expand blk next bytes s =
    (let new_b = blk + bytes;
         s = new_blk new_b (ucast (next - new_b)) FREE s;
         s = set_size blk (ucast (new_b - blk)) s
     in (blk + 16, make_invalid next s))"

definition realloc_grow :: "ptr \<Rightarrow> ptr \<Rightarrow> u64 \<Rightarrow> u64 \<Rightarrow> boot_heap \<Rightarrow> (heap_panic + ptr \<times> boot_heap) option" where
  "realloc_grow blk next bytes alignment s =
    (if blk_invalid next s then Some (Inl Corrupt_header)
     else do {
       (next, s) \<leftarrow> (if b_sig (hdr s next) = FREE then malloc_coalesce next (next_blk next s) s
                     else Some (next, s));
       if b_sig (hdr s next) = FREE \<and> bytes \<le> ucast (b_size (hdr s blk) + b_size (hdr s next))
       then Some (Inr (realloc_expand blk next bytes s))
       else realloc_move blk bytes alignment s })"

definition realloc_shrink :: "ptr \<Rightarrow> ptr \<Rightarrow> u64 \<Rightarrow> boot_heap \<Rightarrow> ptr \<times> boot_heap" where
  "realloc_shrink blk next bytes s =
    (let new_b = blk + bytes;
         s = new_blk new_b (ucast (next - new_b)) FREE s;
         s = set_size blk (ucast (new_b - blk)) s
     in (blk + 16, s))"

definition realloc_aligned :: "ptr \<Rightarrow> u64 \<Rightarrow> u64 \<Rightarrow> boot_heap \<Rightarrow> (heap_panic + ptr \<times> boot_heap) option" where
  "realloc_aligned p bytes alignment s =
    (if p = 0 then malloc_aligned bytes alignment s
     else let blk = p - 16
          in if blk_invalid blk s then Some (Inl Corrupt_header)
             else let bytes = round_bytes bytes;
                      next = next_blk blk s
                  in if ucast (b_size (hdr s blk)) < bytes then realloc_grow blk next bytes alignment s
                     else if bytes < ucast (b_size (hdr s blk)) then Some (Inr (realloc_shrink blk next bytes s))
                     else Some (Inr (blk + 16, s)))"

definition boot_realloc :: "ptr \<Rightarrow> u64 \<Rightarrow> boot_heap \<Rightarrow> (heap_panic + ptr \<times> boot_heap) option" where
  "boot_realloc p bytes s = realloc_aligned p bytes 16 s"

definition boot_free :: "ptr \<Rightarrow> boot_heap \<Rightarrow> heap_panic + boot_heap" where
  "boot_free p s =
    (if p = 0 then Inr s
     else let blk = p - 16
          in if b_sig (hdr s blk) \<noteq> USED then Inl Bad_free
             else if blk_invalid blk s then Inl Corrupt_header
             else let s = set_sig blk FREE s
                  in Inr (if blk < first_free s then s\<lparr> first_free := blk \<rparr> else s))"

definition boot_calloc :: "u64 \<Rightarrow> u64 \<Rightarrow> boot_heap \<Rightarrow> (heap_panic + ptr \<times> boot_heap) option" where
  "boot_calloc num n s = do {
     let bytes = (ucast (num * n) :: u16);
     r \<leftarrow> boot_malloc (ucast bytes) s;
     Some (case r of
         Inl e \<Rightarrow> Inl e
       | Inr (block, s) \<Rightarrow>
           Inr (block, if block \<noteq> 0 then s\<lparr> payload := fst (boot_memset (payload s) block 0 (ucast bytes)) \<rparr> else s)) }"

definition boot_strdup :: "ptr \<Rightarrow> boot_heap \<Rightarrow> (heap_panic + ptr \<times> boot_heap) option" where
  "boot_strdup p s = do {
     len \<leftarrow> boot_strlen (payload s) p;
     r \<leftarrow> boot_malloc (len + 1) s;
     Some (case r of
         Inl e \<Rightarrow> Inl e
       | Inr (copy, s) \<Rightarrow>
           Inr (copy, if copy \<noteq> 0 then s\<lparr> payload := fst (boot_memcpy (payload s) copy p (len + 1)) \<rparr> else s)) }"

partial_function (option) malloc_validate_loop :: "ptr \<Rightarrow> boot_heap \<Rightarrow> bool option" where
  "malloc_validate_loop blk s =
    (if blk_invalid blk s \<or> (b_sig (hdr s blk) \<noteq> FREE \<and> b_sig (hdr s blk) \<noteq> USED) then Some False
     else if b_size (hdr s blk) AND 15 \<noteq> 0 then Some False
     else if blk < heap_st s \<or> heap_en s < blk then Some False
     else if blk = heap_en s then Some (b_size (hdr s blk) = 0)
     else malloc_validate_loop (next_blk blk s) s)"

definition malloc_validate :: "boot_heap \<Rightarrow> bool option" where
  "malloc_validate s = malloc_validate_loop (heap_st s) s"

definition malloc_get_heap_range :: "boot_heap \<Rightarrow> ptr \<times> ptr" where
  "malloc_get_heap_range s = (heap_st s, heap_en s + 16)"

section \<open>Layouts\<close>

text \<open>
  The abstract heap is the list of its blocks in address order, each with its size and whether it
  is free.  \<open>seg h p L\<close>: the headers from address \<open>p\<close> on are those of the blocks \<open>L\<close>.
\<close>

type_synonym layout = "(nat \<times> bool) list"

definition extent :: "layout \<Rightarrow> nat" where
  "extent L = sum_list (map fst L)"

definition blk_of :: "nat \<Rightarrow> nat \<Rightarrow> bool \<Rightarrow> blk_hdr_t" where
  "blk_of p n f =
    \<lparr> b_size = of_nat n, b_sig = (if f then FREE else USED), b_neg_size = - of_nat n, b_self = of_nat p \<rparr>"

fun seg :: "(ptr \<Rightarrow> blk_hdr_t) \<Rightarrow> nat \<Rightarrow> layout \<Rightarrow> bool" where
  "seg h p [] \<longleftrightarrow> True"
| "seg h p ((n, f) # L) \<longleftrightarrow> 16 \<le> n \<and> 16 dvd n \<and> h (of_nat p) = blk_of p n f \<and> seg h (p + n) L"

definition heap_ok :: "boot_heap \<Rightarrow> layout \<Rightarrow> bool" where
  "heap_ok s L \<longleftrightarrow> 16 dvd unat (heap_st s) \<and> seg (hdr s) (unat (heap_st s)) L
     \<and> unat (heap_en s) = unat (heap_st s) + extent L \<and> extent L < 4294967296
     \<and> hdr s (heap_en s) = blk_of (unat (heap_en s)) 0 False"

definition ff_ok :: "boot_heap \<Rightarrow> layout \<Rightarrow> bool" where
  "ff_ok s L \<longleftrightarrow> (\<exists>A B. L = A @ B \<and> (\<forall>b\<in>set A. \<not> snd b) \<and> first_free s = of_nat (unat (heap_st s) + extent A))"

fun used_of :: "nat \<Rightarrow> layout \<Rightarrow> (nat \<times> nat) list" where
  "used_of p [] = []"
| "used_of p ((n, f) # L) = (if f then used_of (p + n) L else (p, n) # used_of (p + n) L)"

lemma dropWhile_shorter [termination_simp]: "length (dropWhile P L) < Suc (length L)"
  by (simp add: length_dropWhile_le le_imp_less_Suc)

fun merge_free :: "layout \<Rightarrow> layout" where
  "merge_free [] = []"
| "merge_free ((n, f) # L) =
    (if f then (n + extent (takeWhile snd L), True) # merge_free (dropWhile snd L)
     else (n, False) # merge_free L)"

lemma extent_simps [simp]:
  "extent [] = 0" "extent ((n, f) # L) = n + extent L" "extent (A @ B) = extent A + extent B"
  by (simp_all add: extent_def)

lemma seg_append [simp]: "seg h p (A @ B) \<longleftrightarrow> seg h p A \<and> seg h (p + extent A) B"
  by (induction A arbitrary: p) (auto simp: add.assoc)

lemma used_of_append [simp]: "used_of p (A @ B) = used_of p A @ used_of (p + extent A) B"
  by (induction A arbitrary: p) (auto simp: add.assoc)

lemma extent_split_free: "extent (takeWhile snd L) + extent (dropWhile snd L) = extent L"
  by (simp flip: extent_simps(3))

lemma used_of_free: "\<forall>b\<in>set L. snd b \<Longrightarrow> used_of p L = []"
  by (induction L arbitrary: p) auto

lemma used_of_dropWhile: "used_of p L = used_of (p + extent (takeWhile snd L)) (dropWhile snd L)"
proof -
  have "used_of p (takeWhile snd L) = []" by (rule used_of_free) (auto dest: set_takeWhileD)
  then show ?thesis using used_of_append [of p "takeWhile snd L" "dropWhile snd L"] by simp
qed

lemma merge_free_extent [simp]: "extent (merge_free L) = extent L"
  using extent_split_free by (induction L rule: merge_free.induct) auto

lemma merge_free_used [simp]: "used_of p (merge_free L) = used_of p L"
proof (induction L arbitrary: p rule: merge_free.induct)
  case (2 n f L)
  then show ?case using used_of_dropWhile [of "p + n" L] by (simp add: add.assoc)
qed simp

section \<open>Headers\<close>

declare of_nat_add [simp del]

lemma of_nat_ptr_inj:
  "a < 18446744073709551616 \<Longrightarrow> b < 18446744073709551616 \<Longrightarrow> (of_nat a :: u64) = of_nat b \<longleftrightarrow> a = b"
  by (rule of_nat_inject_64)

lemma seg_upd:
  "a < 18446744073709551616 \<Longrightarrow> p + extent L \<le> 18446744073709551616 \<Longrightarrow> a < p \<or> p + extent L \<le> a \<Longrightarrow>
   seg (h(of_nat a := v)) p L \<longleftrightarrow> seg h p L"
proof (induction L arbitrary: p)
  case (Cons b L)
  obtain n f where b: "b = (n, f)" by (rule prod.exhaust)
  show ?case
  proof (cases "16 \<le> n")
    case True
    then have "p \<noteq> a" "p < 18446744073709551616" using Cons.prems b by auto
    then have "(of_nat p :: u64) \<noteq> of_nat a" using Cons.prems(1) by (simp add: of_nat_ptr_inj)
    then show ?thesis using Cons.IH [of "p + n"] Cons.prems b by auto
  qed (simp add: b)
qed simp

lemma seg_cong:
  "(\<And>a. p \<le> a \<Longrightarrow> a < p + extent L \<Longrightarrow> h (of_nat a) = h' (of_nat a)) \<Longrightarrow> seg h p L \<longleftrightarrow> seg h' p L"
proof (induction L arbitrary: p)
  case (Cons b L)
  obtain n f where b: "b = (n, f)" by (rule prod.exhaust)
  have "seg h (p + n) L \<longleftrightarrow> seg h' (p + n) L" using Cons.prems b by (intro Cons.IH) auto
  moreover have "16 \<le> n \<Longrightarrow> h (of_nat p) = h' (of_nat p)" using Cons.prems [of p] b by auto
  ultimately show ?case by (auto simp: b)
qed simp

lemma blk_of_simps [simp]:
  "b_size (blk_of p n f) = of_nat n" "b_neg_size (blk_of p n f) = - of_nat n"
  "b_self (blk_of p n f) = of_nat p" "b_sig (blk_of p n f) = FREE \<longleftrightarrow> f" "b_sig (blk_of p n f) = USED \<longleftrightarrow> \<not> f"
  by (simp_all add: blk_of_def)

lemma ucast_of_nat_down: "ucast (of_nat p :: u64) = (of_nat p :: u32)"
  by (simp add: word_unat_eq_iff unat_of_nat unsigned_ucast_eq take_bit_eq_mod mod_mod_cancel)

lemma blk_valid: "hdr s (of_nat p) = blk_of p n f \<Longrightarrow> \<not> blk_invalid (of_nat p) s"
  by (simp add: blk_invalid_def ucast_of_nat_down)

lemma ucast_size: "n < 4294967296 \<Longrightarrow> ucast (of_nat n :: u32) = (of_nat n :: u64)"
  by (simp add: word_unat_eq_iff unat_of_nat unsigned_ucast_eq take_bit_eq_mod)

lemma next_blk_of:
  "hdr s (of_nat p) = blk_of p n f \<Longrightarrow> n < 4294967296 \<Longrightarrow> next_blk (of_nat p) s = of_nat (p + n)"
  by (simp add: next_blk_def ucast_size of_nat_add)

lemma new_blk_hdr: "hdr (new_blk (of_nat p) (of_nat n) (if f then FREE else USED) s) = (hdr s)(of_nat p := blk_of p n f)"
  by (cases "hdr s (of_nat p)") (simp add: new_blk_def set_sig_def make_valid_def set_size_def blk_of_def ucast_of_nat_down)

lemma new_blk_frame [simp]:
  "heap_st (new_blk p n g s) = heap_st s" "heap_en (new_blk p n g s) = heap_en s"
  "first_free (new_blk p n g s) = first_free s" "payload (new_blk p n g s) = payload s"
  by (simp_all add: new_blk_def make_valid_def set_sig_def set_size_def)

lemma heap_ok_replace:
  assumes "heap_ok s (A @ M @ B)" and "heap_st s' = heap_st s" "heap_en s' = heap_en s"
    and "\<And>a. a < 18446744073709551616 \<Longrightarrow>
      a < unat (heap_st s) + extent A \<or> unat (heap_st s) + extent A + extent M \<le> a \<Longrightarrow>
      hdr s' (of_nat a) = hdr s (of_nat a)"
    and "seg (hdr s') (unat (heap_st s) + extent A) M'" and "extent M' = extent M"
  shows "heap_ok s' (A @ M' @ B)"
proof -
  let ?st = "unat (heap_st s)" and ?en = "unat (heap_en s)"
  have en: "?en = ?st + (extent A + (extent M + extent B))" using assms(1) by (simp add: heap_ok_def)
  have lt: "?en < 18446744073709551616" by (rule unat_lt_64)
  have "seg (hdr s') ?st A \<longleftrightarrow> seg (hdr s) ?st A" using assms(4) en lt by (intro seg_cong) auto
  moreover have "seg (hdr s') (?st + extent A + extent M) B \<longleftrightarrow> seg (hdr s) (?st + extent A + extent M) B"
    using assms(4) en lt by (intro seg_cong) auto
  moreover have "hdr s' (of_nat ?en) = hdr s (of_nat ?en)" using assms(4) [of ?en] en lt by linarith
  ultimately show ?thesis using assms(1,2,3,5,6) by (simp add: heap_ok_def add.assoc)
qed


lemma seg_dvd: "seg h p L \<Longrightarrow> 16 dvd extent L"
  by (induction h p L rule: seg.induct) auto

lemma heap_ok_at:
  assumes "heap_ok s (A @ (n, f) # B)" and "p = unat (heap_st s) + extent A"
  shows "hdr s (of_nat p) = blk_of p n f" and "16 \<le> n" and "16 dvd n" and "n < 4294967296"
    and "p + n + extent B = unat (heap_en s)" and "16 dvd p" and "p + n + extent B < 18446744073709551616"
  using assms seg_dvd [of "hdr s" "unat (heap_st s)" A] unat_lt_64 [of "heap_en s"] by (auto simp: heap_ok_def)

lemma heap_ok_sentinel:
  assumes "heap_ok s L" and "p = unat (heap_st s) + extent L"
  shows "hdr s (of_nat p) = blk_of p 0 False" and "heap_en s = of_nat p" and "p < 18446744073709551616"
proof -
  have p: "p = unat (heap_en s)" using assms by (simp add: heap_ok_def)
  then show "heap_en s = of_nat p" "p < 18446744073709551616" by simp_all
  have "hdr s (heap_en s) = blk_of (unat (heap_en s)) 0 False" using assms(1) unfolding heap_ok_def by blast
  then show "hdr s (of_nat p) = blk_of p 0 False" unfolding p by simp
qed

lemma heap_ok_next:
  assumes "heap_ok s (A @ (n, f) # B)" and "p = unat (heap_st s) + extent A"
  shows "\<not> blk_invalid (of_nat (p + n)) s" and "next_blk (of_nat p) s = of_nat (p + n)"
    and "b_sig (hdr s (of_nat (p + n))) = FREE \<longleftrightarrow> B \<noteq> [] \<and> snd (hd B)"
proof -
  show "next_blk (of_nat p) s = of_nat (p + n)"
    by (rule next_blk_of [OF heap_ok_at(1,4) [OF assms]])
  have "\<exists>m g. hdr s (of_nat (p + n)) = blk_of (p + n) m g \<and> (g \<longleftrightarrow> B \<noteq> [] \<and> snd (hd B))"
  proof (cases B)
    case Nil
    then have "hdr s (of_nat (p + n)) = blk_of (p + n) 0 False"
      using heap_ok_sentinel(1) [OF assms(1), of "p + n"] assms(2) by simp
    then show ?thesis using Nil by auto
  next
    case (Cons b B')
    obtain m g where b: "b = (m, g)" by (rule prod.exhaust)
    have "hdr s (of_nat (p + n)) = blk_of (p + n) m g"
      using heap_ok_at(1) [of s "A @ [(n, f)]" m g B' "p + n"] assms Cons b by simp
    then show ?thesis using Cons b by auto
  qed
  then obtain m g where h: "hdr s (of_nat (p + n)) = blk_of (p + n) m g" "g \<longleftrightarrow> B \<noteq> [] \<and> snd (hd B)" by blast
  show "\<not> blk_invalid (of_nat (p + n)) s" by (rule blk_valid [OF h(1)])
  show "b_sig (hdr s (of_nat (p + n))) = FREE \<longleftrightarrow> B \<noteq> [] \<and> snd (hd B)" unfolding h(1) using h(2) by simp
qed

section \<open>Coalescing\<close>

text \<open>What no operation of the allocator changes.\<close>

definition same_frame :: "boot_heap \<Rightarrow> boot_heap \<Rightarrow> bool" where
  "same_frame s s' \<longleftrightarrow> heap_st s' = heap_st s \<and> heap_en s' = heap_en s \<and> payload s' = payload s"

lemma malloc_coalesce_free:
  assumes "heap_ok s (A @ (n, True) # B)" and "p = unat (heap_st s) + extent A" and "first_free s \<le> of_nat p"
  shows "\<exists>s'. malloc_coalesce (of_nat p) (of_nat (p + n)) s = Some (of_nat (p + n + extent (takeWhile snd B)), s')
    \<and> heap_ok s' (A @ (n + extent (takeWhile snd B), True) # dropWhile snd B)
    \<and> same_frame s s' \<and> first_free s' = first_free s"
  using assms
proof (induction B arbitrary: n s)
  case Nil
  have "b_sig (hdr s (of_nat (p + n))) \<noteq> FREE" using heap_ok_next(3) [OF Nil(1,2)] by simp
  then show ?case using Nil by (subst malloc_coalesce.simps) (simp add: same_frame_def)
next
  case (Cons b B)
  obtain m g where b: "b = (m, g)" by (rule prod.exhaust)
  note at = heap_ok_at [OF Cons.prems(1,2)] and nx = heap_ok_next [OF Cons.prems(1,2)]
  show ?case
  proof (cases g)
    case False
    have "b_sig (hdr s (of_nat (p + n))) \<noteq> FREE" using nx(3) False b by simp
    then show ?thesis using Cons.prems False b by (subst malloc_coalesce.simps) (simp add: same_frame_def)
  next
    case True
    have at2: "hdr s (of_nat (p + n)) = blk_of (p + n) m True" "16 \<le> m" "16 dvd m" "m < 4294967296"
      "p + n + m + extent B < 18446744073709551616"
      using heap_ok_at [of s "A @ [(n, True)]" m True B "p + n"] Cons.prems b True by auto
    have nm: "n + m < 4294967296" using Cons.prems(1) b by (simp add: heap_ok_def)
    have ne: "first_free s \<noteq> of_nat (p + n)"
    proof
      assume "first_free s = of_nat (p + n)"
      then have "unat (of_nat (p + n) :: u64) \<le> unat (of_nat p :: u64)" using Cons.prems(3) by (simp add: word_le_nat_alt del: of_nat_add)
      then show False using at2(5) at(2) by (simp add: unat_of_nat take_bit_eq_mod del: of_nat_add)
    qed
    define s1 where "s1 = (make_invalid (of_nat (p + n)) (set_size (of_nat p) (of_nat (n + m)) s))\<lparr> heap_free := heap_free s + 16 \<rparr>"
    have pn: "(of_nat p :: u64) \<noteq> of_nat (p + n)" using at(2) at2(5) by (simp add: of_nat_ptr_inj)
    have "hdr s1 (of_nat p) = blk_of p (n + m) True"
      using at(1) pn by (simp add: s1_def make_invalid_def set_size_def blk_of_def)
    moreover have "hdr s1 a = hdr s a" if "a \<noteq> of_nat p" "a \<noteq> of_nat (p + n)" for a
      using that by (simp add: s1_def make_invalid_def set_size_def)
    ultimately have h1: "hdr s1 (of_nat p) = blk_of p (n + m) True"
      "a \<noteq> of_nat p \<Longrightarrow> a \<noteq> of_nat (p + n) \<Longrightarrow> hdr s1 a = hdr s a" for a by simp_all
    have fr: "same_frame s s1" "first_free s1 = first_free s"
      by (simp_all add: s1_def same_frame_def make_invalid_def set_size_def)
    have "heap_ok s1 (A @ [(n + m, True)] @ B)"
    proof (rule heap_ok_replace)
      show "heap_ok s (A @ [(n, True), (m, True)] @ B)" using Cons.prems(1) b True by simp
      show "seg (hdr s1) (unat (heap_st s) + extent A) [(n + m, True)]"
        using h1(1) at(2,3) at2(2,3) Cons.prems(2) by simp
      show "hdr s1 (of_nat a) = hdr s (of_nat a)" if "a < 18446744073709551616"
        "a < unat (heap_st s) + extent A \<or> unat (heap_st s) + extent A + extent [(n, True), (m, True)] \<le> a" for a
        using that at(2) at2(2,5) Cons.prems(2) by (intro h1(2)) (auto simp: of_nat_ptr_inj)
    qed (use fr in \<open>simp_all add: same_frame_def\<close>)
    then have ok1: "heap_ok s1 (A @ (n + m, True) # B)" by simp
    have "next_blk (of_nat p) s1 = of_nat (p + (n + m))" using next_blk_of [OF h1(1) nm] .
    then have "malloc_coalesce (of_nat p) (of_nat (p + n)) s = malloc_coalesce (of_nat p) (of_nat (p + (n + m))) s1"
      using at(1) at2(1) ne
      by (subst malloc_coalesce.simps) (simp add: Let_def s1_def next_blk_def make_invalid_def set_size_def of_nat_add)
    then show ?thesis
      using Cons.IH [OF ok1] Cons.prems fr b True by (simp add: same_frame_def add.assoc)
  qed
qed

lemma malloc_coalesce_used:
  "\<not> (b_sig (hdr s blk) = FREE \<and> b_sig (hdr s next) = FREE) \<Longrightarrow> malloc_coalesce blk next s = Some (next, s)"
  by (subst malloc_coalesce.simps) auto

section \<open>Trying a block\<close>

lemma align_adj_of:
  assumes "j < 64" and "p + 16 + 2 ^ j \<le> 18446744073709551616" and "16 dvd p"
  shows "unat (align_adj (2 ^ j) (of_nat p)) < 2 ^ j" and "2 ^ j dvd p + 16 + unat (align_adj (2 ^ j) (of_nat p))"
    and "16 dvd unat (align_adj (2 ^ j) (of_nat p))"
proof -
  define x where "x = p + 16"
  define y where "y = x + 2 ^ j - 1"
  have y: "y < 18446744073709551616" "x \<le> y" using assms(2) by (auto simp: x_def y_def)
  have w: "(of_nat p + 16 + 2 ^ j - 1 :: u64) = of_nat y" "(of_nat p + 16 :: u64) = of_nat x"
    by (simp_all add: x_def y_def of_nat_add of_nat_diff)
  have m: "y mod 2 ^ j < 2 ^ j" by simp
  moreover have y1: "y + 1 = x + 2 ^ j" by (simp add: y_def)
  ultimately have xr: "x \<le> y - y mod 2 ^ j" by linarith
  have "unat (of_nat y AND - (2 ^ j) :: u64) = y - y mod 2 ^ j"
    unfolding and_neg_power using y by (simp add: unat_of_nat take_bit_eq_mod)
  then have "unat ((of_nat y AND - (2 ^ j)) - of_nat x :: u64) = y - y mod 2 ^ j - x"
    using xr y by (subst unat_sub) (simp_all add: word_le_nat_alt unat_of_nat take_bit_eq_mod)
  then have adj: "unat (align_adj (2 ^ j) (of_nat p)) = y - y mod 2 ^ j - x"
    unfolding align_adj_def unfolding w(1) unfolding w(2) .
  show "unat (align_adj (2 ^ j) (of_nat p)) < 2 ^ j" unfolding adj using m by (simp add: y_def)
  have "p + 16 + (y - y mod 2 ^ j - x) = y - y mod 2 ^ j" using xr by (simp add: x_def)
  then show d: "2 ^ j dvd p + 16 + unat (align_adj (2 ^ j) (of_nat p))"
    unfolding adj by (simp add: dvd_minus_mod)
  have x16: "16 dvd x" using assms(3) by (simp add: x_def)
  show "16 dvd unat (align_adj (2 ^ j) (of_nat p))"
  proof (cases "4 \<le> j")
    case True
    then have "(2 :: nat) ^ 4 dvd 2 ^ j" by (rule le_imp_power_dvd)
    then have "16 dvd p + 16 + unat (align_adj (2 ^ j) (of_nat p))" using d by (auto intro: dvd_trans)
    then show ?thesis using assms(3) by (auto simp: dvd_add_right_iff)
  next
    case False
    then have "(2 :: nat) ^ j dvd 2 ^ 4" by (intro le_imp_power_dvd) simp
    then have "2 ^ j dvd x" using x16 by (auto intro: dvd_trans)
    then have "y mod 2 ^ j = 2 ^ j - 1" by (auto simp: y_def elim!: dvdE simp flip: add_diff_assoc)
    then show ?thesis unfolding adj by (simp add: y_def)
  qed
qed

definition fits :: "nat \<Rightarrow> nat \<Rightarrow> nat \<Rightarrow> nat \<Rightarrow> bool" where
  "fits k j p n \<longleftrightarrow> k + unat (align_adj (2 ^ j) (of_nat p)) \<le> n"

lemma malloc_try_used: "b_sig (hdr s blk) \<noteq> FREE \<Longrightarrow> malloc_try bytes al blk s = (None, s)"
  by (simp add: malloc_try_def)

lemma malloc_try_small:
  assumes "heap_ok s (A @ (n, True) # B)" and "p = unat (heap_st s) + extent A" and "\<not> fits k j p n"
    and "k + 2 ^ j \<le> 18446744073709551616" and "j < 64" and "p + 16 + 2 ^ j \<le> 18446744073709551616"
  shows "malloc_try (of_nat k) (2 ^ j) (of_nat p) s =
    (None, if of_nat p < first_free s \<or> b_sig (hdr s (first_free s)) = USED then s\<lparr> first_free := of_nat p \<rparr> else s)"
proof -
  note at = heap_ok_at [OF assms(1,2)]
  have "unat (align_adj (2 ^ j) (of_nat p)) < 2 ^ j" using align_adj_of(1) [OF assms(5,6) at(6)] .
  then have "unat (of_nat k + align_adj (2 ^ j) (of_nat p)) = k + unat (align_adj (2 ^ j) (of_nat p))"
    using assms(4) by (simp add: unat_word_ariths unat_of_nat take_bit_eq_mod)
  moreover have "unat (ucast (of_nat n :: u32) :: u64) = n"
    using at(4) by (simp add: ucast_size unat_of_nat take_bit_eq_mod)
  ultimately have "\<not> of_nat k + align_adj (2 ^ j) (of_nat p) \<le> ucast (of_nat n :: u32)"
    using assms(3) by (simp add: word_le_nat_alt fits_def)
  then show ?thesis using at(1) by (auto simp: malloc_try_def Let_def)
qed

lemma malloc_take_ok:
  assumes "heap_ok s (A @ (n, True) # B)" and "p = unat (heap_st s) + extent A" and "k \<le> n" "16 \<le> k" "16 dvd k"
  shows "\<exists>s'. malloc_take (of_nat k) (of_nat p) s = (of_nat (p + 16), s')
    \<and> heap_ok s' (A @ (k, False) # (if n = k then [] else [(n - k, True)]) @ B)
    \<and> same_frame s s' \<and> first_free s' = first_free s"
proof -
  note at = heap_ok_at [OF assms(1,2)]
  let ?rest = "if n = k then [] else [(n - k, True)]"
  define s1 where "s1 = (if n = k then s else new_blk (of_nat p + of_nat k) (of_nat (n - k)) FREE s)"
  define s2 where "s2 = set_sig (of_nat p) USED (set_size (of_nat p) (of_nat k) s1)"
  have size: "ucast (b_size (hdr s (of_nat p))) - of_nat k = (of_nat (n - k) :: u64)"
    using at(1,4) assms(3) by (simp add: ucast_size of_nat_diff)
  have z: "(of_nat (n - k) :: u64) = 0 \<longleftrightarrow> n = k"
    using at(4) assms(3) of_nat_ptr_inj [of "n - k" 0] by auto
  have take: "malloc_take (of_nat k) (of_nat p) s = (of_nat (p + 16), s2)"
    unfolding malloc_take_def size Let_def
    by (simp add: z s1_def s2_def ucast_of_nat_down of_nat_add)
  have fr: "same_frame s s2" "first_free s2 = first_free s"
    by (simp_all add: s1_def s2_def same_frame_def new_blk_def make_valid_def set_size_def set_sig_def)
  have pk: "(of_nat p :: u64) \<noteq> of_nat (p + k)" using at(7) assms(3,4) by (simp add: of_nat_ptr_inj)
  have h: "hdr s1 = (if n = k then hdr s else (hdr s)(of_nat (p + k) := blk_of (p + k) (n - k) True))"
    using new_blk_hdr [of "p + k" "n - k" True s] by (simp add: s1_def of_nat_add)
  then have h2: "hdr s2 = (hdr s1)(of_nat p := blk_of p k False)"
    using at(1) pk by (simp add: s2_def set_sig_def set_size_def blk_of_def)
  have "heap_ok s2 (A @ ((k, False) # ?rest) @ B)"
  proof (rule heap_ok_replace)
    show "heap_ok s (A @ [(n, True)] @ B)" using assms(1) by simp
    show "hdr s2 (of_nat a) = hdr s (of_nat a)" if "a < 18446744073709551616"
      "a < unat (heap_st s) + extent A \<or> unat (heap_st s) + extent A + extent [(n, True)] \<le> a" for a
    proof -
      have "a \<noteq> p" "a \<noteq> p + k \<or> n = k" using that(2) assms(2,3,4) by auto
      then show ?thesis using that(1) at(7) assms(3) by (auto simp: h h2 of_nat_ptr_inj)
    qed
    have "16 dvd n - k" using at(3) assms(5) by (rule dvd_diff_nat)
    then have "n \<noteq> k \<Longrightarrow> 16 \<le> n - k" using assms(3) by (auto dest: dvd_imp_le)
    then show "seg (hdr s2) (unat (heap_st s) + extent A) ((k, False) # ?rest)"
      using \<open>16 dvd n - k\<close> assms(4,5) pk unfolding assms(2) [symmetric] by (auto simp: h h2)
  qed (use fr assms(3) in \<open>simp_all add: same_frame_def\<close>)
  then show ?thesis using take fr by simp
qed

lemma malloc_split_ok:
  assumes "heap_ok s (A @ (n, True) # B)" and "p = unat (heap_st s) + extent A" and "d < n" "16 \<le> d" "16 dvd d"
    and "first_free s \<le> of_nat p"
  shows "\<exists>s'. malloc_split (of_nat d) (of_nat p) s = (of_nat (p + d), s')
    \<and> heap_ok s' (A @ (d, True) # (n - d, True) # B) \<and> same_frame s s' \<and> first_free s' = first_free s"
proof -
  note at = heap_ok_at [OF assms(1,2)]
  define s1 where "s1 = new_blk (of_nat p + of_nat d) (of_nat (n - d)) FREE s"
  define s2 where "s2 = set_size (of_nat p) (of_nat d) s1"
  have size: "ucast (b_size (hdr s (of_nat p))) - of_nat d = (of_nat (n - d) :: u64)"
    using at(1,4) assms(3) by (simp add: ucast_size of_nat_diff)
  have fr: "same_frame s s2" "first_free s1 = first_free s" "first_free s2 = first_free s"
    by (simp_all add: s1_def s2_def same_frame_def new_blk_def make_valid_def set_size_def set_sig_def)
  have "(of_nat p :: u64) \<le> of_nat (p + d)"
    using at(7) assms(3) by (simp add: word_le_nat_alt unat_of_nat take_bit_eq_mod)
  then have "\<not> of_nat p + of_nat d < first_free s" using assms(6) by (auto simp: of_nat_add)
  then have split: "malloc_split (of_nat d) (of_nat p) s = (of_nat (p + d), s2)"
    unfolding malloc_split_def size Let_def using fr(2)
    by (simp add: s1_def s2_def ucast_of_nat_down of_nat_add)
  have pd: "(of_nat p :: u64) \<noteq> of_nat (p + d)" using at(7) assms(3,4) by (simp add: of_nat_ptr_inj)
  have h: "hdr s1 = (hdr s)(of_nat (p + d) := blk_of (p + d) (n - d) True)"
    using new_blk_hdr [of "p + d" "n - d" True s] by (simp add: s1_def of_nat_add)
  then have h2: "hdr s2 = (hdr s1)(of_nat p := blk_of p d True)"
    using at(1) pd by (simp add: s2_def set_size_def blk_of_def)
  have "heap_ok s2 (A @ [(d, True), (n - d, True)] @ B)"
  proof (rule heap_ok_replace)
    show "heap_ok s (A @ [(n, True)] @ B)" using assms(1) by simp
    show "hdr s2 (of_nat a) = hdr s (of_nat a)" if "a < 18446744073709551616"
      "a < unat (heap_st s) + extent A \<or> unat (heap_st s) + extent A + extent [(n, True)] \<le> a" for a
    proof -
      have "a \<noteq> p" "a \<noteq> p + d" using that(2) assms(2,3,4) by auto
      then show ?thesis using that(1) at(7) assms(3) by (auto simp: h h2 of_nat_ptr_inj)
    qed
    have "16 dvd n - d" using at(3) assms(5) by (rule dvd_diff_nat)
    then have "16 \<le> n - d" using assms(3) by (auto dest: dvd_imp_le)
    then show "seg (hdr s2) (unat (heap_st s) + extent A) [(d, True), (n - d, True)]"
      using \<open>16 dvd n - d\<close> assms(4,5) pd unfolding assms(2) [symmetric] by (auto simp: h h2)
  qed (use fr assms(3) in \<open>simp_all add: same_frame_def\<close>)
  then show ?thesis using split fr by simp
qed

lemma heap_ok_first_free [simp]: "heap_ok (s\<lparr> first_free := q \<rparr>) L = heap_ok s L"
  by (simp add: heap_ok_def)

definition note_free :: "ptr \<Rightarrow> boot_heap \<Rightarrow> boot_heap" where
  "note_free blk s = (if blk < first_free s \<or> b_sig (hdr s (first_free s)) = USED then s\<lparr> first_free := blk \<rparr> else s)"

lemma note_free_simps [simp]:
  "heap_ok (note_free blk s) L = heap_ok s L" "heap_st (note_free blk s) = heap_st s"
  "heap_en (note_free blk s) = heap_en s" "payload (note_free blk s) = payload s" "hdr (note_free blk s) = hdr s"
  "first_free (note_free blk s) \<le> blk"
  by (auto simp: note_free_def)

lemma malloc_try_fits:
  assumes "heap_ok s (A @ (n, True) # B)" and "p = unat (heap_st s) + extent A" and "fits k j p n" and "16 \<le> k" "16 dvd k"
    and "j < 64" and "p + 16 + 2 ^ j \<le> 18446744073709551616"
  shows "\<exists>d s'. malloc_try (of_nat k) (2 ^ j) (of_nat p) s = (Some (of_nat (p + d + 16)), s')
    \<and> heap_ok s' (A @ (if d = 0 then [] else [(d, True)]) @ (k, False) # (if n - d = k then [] else [(n - d - k, True)]) @ B)
    \<and> 2 ^ j dvd p + d + 16 \<and> d + k \<le> n \<and> same_frame s s' \<and> first_free s' = first_free (note_free (of_nat p) s)"
proof -
  note at = heap_ok_at [OF assms(1,2)]
  define d where "d = unat (align_adj (2 ^ j) (of_nat p))"
  have adj: "align_adj (2 ^ j) (of_nat p) = of_nat d" by (simp add: d_def)
  have c: "p + d + 16 = p + 16 + d" by simp
  have "2 ^ j dvd p + 16 + d" unfolding d_def by (rule align_adj_of(2) [OF assms(6,7) at(6)])
  then have "2 ^ j dvd p + d + 16" by (subst c)
  moreover have "16 dvd d" "d + k \<le> n"
    using align_adj_of(3) [OF assms(6,7) at(6)] assms(3) unfolding fits_def d_def by simp_all
  ultimately have d: "2 ^ j dvd p + d + 16" "16 dvd d" "d + k \<le> n" by simp_all
  have "unat (of_nat k + of_nat d :: u64) = k + d"
    using d(3) at(4) by (simp add: unat_word_ariths unat_of_nat take_bit_eq_mod)
  moreover have "unat (ucast (of_nat n :: u32) :: u64) = n"
    using at(4) by (simp add: ucast_size unat_of_nat take_bit_eq_mod)
  ultimately have le: "of_nat k + of_nat d \<le> (ucast (of_nat n :: u32) :: u64)" using d(3) by (simp add: word_le_nat_alt)
  let ?s = "note_free (of_nat p) s"
  have z: "(of_nat d :: u64) = 0 \<longleftrightarrow> d = 0" using at(4) d(3) of_nat_ptr_inj [of d 0] by simp
  have tr: "malloc_try (of_nat k) (2 ^ j) (of_nat p) s =
      (let (blk, s') = (if d \<noteq> 0 then malloc_split (of_nat d) (of_nat p) ?s else (of_nat p, ?s));
           (q, s') = malloc_take (of_nat k) blk s' in (Some q, s'))"
    using at(1) le by (cases "d = 0") (simp_all add: malloc_try_def adj z note_free_def Let_def)
  show ?thesis
  proof (cases "d = 0")
    case True
    have "k \<le> n" using d(3) by simp
    obtain s' where s': "malloc_take (of_nat k) (of_nat p) ?s = (of_nat (p + 16), s')"
      "heap_ok s' (A @ (k, False) # (if n = k then [] else [(n - k, True)]) @ B)" "same_frame ?s s'" "first_free s' = first_free ?s"
      using malloc_take_ok [of ?s A n B p k, OF _ _ \<open>k \<le> n\<close> assms(4,5)] assms(1,2) by auto
    show ?thesis
      unfolding tr using True s' d by (intro exI [of _ 0] exI [of _ s']) (simp add: same_frame_def split: if_splits)
  next
    case False
    then have "16 \<le> d" using d(2) by (auto dest: dvd_imp_le)
    have "d < n" "k \<le> n - d" using d(3) assms(4) by simp_all
    obtain s1 where s1: "malloc_split (of_nat d) (of_nat p) ?s = (of_nat (p + d), s1)"
      "heap_ok s1 (A @ (d, True) # (n - d, True) # B)" "same_frame ?s s1" "first_free s1 = first_free ?s"
      using malloc_split_ok [of ?s A n B p d, OF _ _ \<open>d < n\<close> \<open>16 \<le> d\<close> d(2)] assms(1,2) by auto
    have ok1: "heap_ok s1 ((A @ [(d, True)]) @ (n - d, True) # B)" using s1(2) by simp
    have p1: "p + d = unat (heap_st s1) + extent (A @ [(d, True)])" using assms(2) s1(3) by (simp add: same_frame_def)
    obtain s' where s': "malloc_take (of_nat k) (of_nat (p + d)) s1 = (of_nat (p + d + 16), s')"
      "heap_ok s' ((A @ [(d, True)]) @ (k, False) # (if n - d = k then [] else [(n - d - k, True)]) @ B)"
      "same_frame s1 s'" "first_free s' = first_free s1"
      using malloc_take_ok [OF ok1 p1 \<open>k \<le> n - d\<close> assms(4,5)] by blast
    show ?thesis
      unfolding tr using False s1(1,3,4) s' d by (intro exI [of _ d] exI [of _ s']) (simp add: same_frame_def)
  qed
qed

section \<open>The search\<close>

definition ff_here :: "boot_heap \<Rightarrow> layout \<Rightarrow> bool" where
  "ff_here s A \<longleftrightarrow> (\<exists>A1 A2. A = A1 @ A2 \<and> first_free s = of_nat (unat (heap_st s) + extent A1)
     \<and> (\<forall>b\<in>set A1. \<not> snd b) \<and> (A2 = [] \<or> snd (hd A2)))"

definition scan_ok :: "boot_heap \<Rightarrow> layout \<Rightarrow> bool" where
  "scan_ok s A \<longleftrightarrow> (\<exists>A1 A2. A = A1 @ A2 \<and> first_free s = of_nat (unat (heap_st s) + extent A1)
     \<and> (\<forall>b\<in>set A1. \<not> snd b) \<and> ((\<forall>b\<in>set A2. \<not> snd b) \<or> snd (hd A2)))"

lemma scan_ok_le:
  assumes "scan_ok s A" and "p = unat (heap_st s) + extent A" and "p < 18446744073709551616"
  shows "first_free s \<le> of_nat p"
  using assms by (auto simp: scan_ok_def word_le_nat_alt unat_of_nat take_bit_eq_mod)

lemma ff_okI:
  "\<forall>b\<in>set A. \<not> snd b \<Longrightarrow> first_free s = of_nat (unat (heap_st s) + extent A) \<Longrightarrow> ff_ok s (A @ B)"
  unfolding ff_ok_def by blast

lemma scan_ok_ff_ok: "scan_ok s A \<Longrightarrow> ff_ok s (A @ B)"
  unfolding scan_ok_def using ff_okI [of _ s "_ @ B"] by force

lemma ff_here_ff_ok:
  "ff_here s A \<Longrightarrow> first_free s' = first_free s \<Longrightarrow> heap_st s' = heap_st s \<Longrightarrow> ff_ok s' (A @ B)"
  unfolding ff_here_def using ff_okI [of _ s' "_ @ B"] by force

lemma ff_here_scan_ok: "ff_here s A \<Longrightarrow> scan_ok s (A @ [(n, True)])"
proof -
  assume "ff_here s A"
  then obtain A1 A2 where A: "A = A1 @ A2" "first_free s = of_nat (unat (heap_st s) + extent A1)"
    "\<forall>b\<in>set A1. \<not> snd b" "A2 = [] \<or> snd (hd A2)" by (auto simp: ff_here_def)
  then have "snd (hd (A2 @ [(n, True)]))" by (cases A2) auto
  with A show ?thesis unfolding scan_ok_def by (intro exI [of _ A1] exI [of _ "A2 @ [(n, True)]"]) simp
qed

lemma scan_ok_used: "scan_ok s A \<Longrightarrow> scan_ok s (A @ [(n, False)])"
proof -
  assume "scan_ok s A"
  then obtain A1 A2 where A: "A = A1 @ A2" "first_free s = of_nat (unat (heap_st s) + extent A1)"
    "\<forall>b\<in>set A1. \<not> snd b" "(\<forall>b\<in>set A2. \<not> snd b) \<or> snd (hd A2)" by (auto simp: scan_ok_def)
  then have "(\<forall>b\<in>set (A2 @ [(n, False)]). \<not> snd b) \<or> snd (hd (A2 @ [(n, False)]))" by (cases A2) auto
  with A show ?thesis unfolding scan_ok_def by (intro exI [of _ A1] exI [of _ "A2 @ [(n, False)]"]) simp
qed

lemma note_free_here:
  assumes "heap_ok s (A @ (n, True) # B)" and "scan_ok s A" and "p = unat (heap_st s) + extent A"
  shows "ff_here (note_free (of_nat p) s) A"
proof -
  note at = heap_ok_at [OF assms(1,3)]
  have le: "\<not> of_nat p < first_free s" using scan_ok_le [OF assms(2,3)] at(7) by simp
  obtain A1 A2 where A: "A = A1 @ A2" "first_free s = of_nat (unat (heap_st s) + extent A1)"
    "\<forall>b\<in>set A1. \<not> snd b" "(\<forall>b\<in>set A2. \<not> snd b) \<or> snd (hd A2)" using assms(2) by (auto simp: scan_ok_def)
  show ?thesis
  proof (cases A2)
    case Nil
    then have "first_free s = of_nat p" using A(1,2) assms(3) by simp
    then have "note_free (of_nat p) s = s" using at(1) by (simp add: note_free_def)
    then show ?thesis using A Nil by (auto simp: ff_here_def)
  next
    case (Cons b A3)
    obtain m g where b: "b = (m, g)" by (rule prod.exhaust)
    have "hdr s (first_free s) = blk_of (unat (heap_st s) + extent A1) m g"
      using heap_ok_at(1) [of s A1 m g "A3 @ (n, True) # B"] assms(1) A Cons b by simp
    then have sig: "b_sig (hdr s (first_free s)) = USED \<longleftrightarrow> \<not> g" by simp
    show ?thesis
    proof (cases g)
      case True
      then have "note_free (of_nat p) s = s" using sig le by (simp add: note_free_def)
      then show ?thesis
        using A Cons b True unfolding ff_here_def by (intro exI [of _ A1] exI [of _ A2]) simp
    next
      case False
      then have "first_free (note_free (of_nat p) s) = of_nat p" using sig by (simp add: note_free_def)
      moreover have "\<forall>b\<in>set A. \<not> snd b" using A Cons b False by auto
      ultimately show ?thesis using assms(3) unfolding ff_here_def by (intro exI [of _ A] exI [of _ "[]"]) simp
    qed
  qed
qed

fun free_of :: "nat \<Rightarrow> layout \<Rightarrow> (nat \<times> nat) list" where
  "free_of p [] = []"
| "free_of p ((n, f) # L) = (if f then (p, n) # free_of (p + n) L else free_of (p + n) L)"

lemma size_pos: "16 \<le> n \<Longrightarrow> n < 4294967296 \<Longrightarrow> 0 < (of_nat n :: u32)"
  by (simp add: word_less_nat_alt unat_of_nat take_bit_eq_mod)

lemma malloc_loop_used:
  assumes "heap_ok s (A @ (n, False) # B)" and "p = unat (heap_st s) + extent A"
  shows "malloc_loop start bytes al (of_nat p) s =
    (if of_nat (p + n) \<noteq> start then malloc_loop start bytes al (of_nat (p + n)) s else Some (Inr (0, s)))"
proof -
  note at = heap_ok_at [OF assms] and nx = heap_ok_next [OF assms]
  have sig: "b_sig (hdr s (of_nat p)) \<noteq> FREE" using at(1) by simp
  then have "malloc_coalesce (of_nat p) (of_nat (p + n)) s = Some (of_nat (p + n), s)"
    by (intro malloc_coalesce_used) simp
  then show ?thesis
    using nx(1,2) malloc_try_used [OF sig] size_pos [OF at(2,4)] at(1)
    by (subst malloc_loop.simps) (simp add: Let_def)
qed

lemma malloc_loop_sentinel:
  assumes "heap_ok s L" and "p = unat (heap_st s) + extent L"
  shows "malloc_loop start bytes al (of_nat p) s =
    (if heap_st s \<noteq> start then malloc_loop start bytes al (heap_st s) s else Some (Inr (0, s)))"
proof -
  note at = heap_ok_sentinel [OF assms]
  have sig: "b_sig (hdr s (of_nat p)) \<noteq> FREE" using at(1) by simp
  have nx: "next_blk (of_nat p) s = of_nat p" using next_blk_of [OF at(1)] by simp
  have "malloc_coalesce (of_nat p) (of_nat p) s = Some (of_nat p, s)"
    using sig by (intro malloc_coalesce_used) simp
  then show ?thesis
    using nx blk_valid [OF at(1)] malloc_try_used [OF sig] at(1)
    by (subst malloc_loop.simps) (simp add: Let_def)
qed

lemma malloc_loop_wrap:
  "heap_ok s (A @ B @ C) \<Longrightarrow> B \<noteq> [] \<Longrightarrow> \<forall>b\<in>set B. \<not> snd b \<Longrightarrow>
   malloc_loop (of_nat (unat (heap_st s) + extent A + extent B)) bytes al (of_nat (unat (heap_st s) + extent A)) s
     = Some (Inr (0, s))"
proof (induction B arbitrary: A)
  case (Cons b B)
  obtain n where b: "b = (n, False)" using Cons.prems(3) by (cases b) auto
  let ?p = "unat (heap_st s) + extent A"
  have ok: "heap_ok s (A @ (n, False) # (B @ C))" using Cons.prems(1) b by simp
  note step = malloc_loop_used [OF ok refl]
  show ?case
  proof (cases "B = []")
    case True
    then show ?thesis using step by (simp add: b)
  next
    case False
    have "16 \<le> extent B"
    proof -
      obtain m g B' where "B = (m, g) # B'" using False by (cases B) auto
      then show ?thesis using heap_ok_at(2) [of s "A @ [(n, False)]" m g "B' @ C"] ok by simp
    qed
    then have "(of_nat (?p + n) :: u64) \<noteq> of_nat (?p + (n + extent B))"
      using heap_ok_at(7) [OF ok refl] by (simp add: of_nat_ptr_inj)
    then show ?thesis
      using Cons.IH [of "A @ [(n, False)]"] ok False Cons.prems(3) step by (simp add: b add.assoc)
  qed
qed simp

definition malloc_post :: "nat \<Rightarrow> nat \<Rightarrow> layout \<Rightarrow> layout \<Rightarrow> ptr \<Rightarrow> boot_heap \<Rightarrow> bool" where
  "malloc_post k j A B r s' \<longleftrightarrow> (\<exists>L'. heap_ok s' L' \<and> ff_ok s' L'
     \<and> (if r = 0 then L' = A @ merge_free B
           \<and> (\<forall>(p, n)\<in>set (free_of (unat (heap_st s') + extent A) (merge_free B)). \<not> fits k j p n)
        else 16 \<le> unat r \<and> 2 ^ j dvd unat r \<and> (\<exists>U V. used_of (unat (heap_st s')) (A @ B) = U @ V
           \<and> used_of (unat (heap_st s')) L' = U @ (unat r - 16, k) # V)))"

lemma malloc_postI:
  assumes "heap_ok s' L'" "ff_ok s' L'" "unat r = q + 16" "2 ^ j dvd unat r"
    and "used_of (unat (heap_st s')) (A @ B) = U @ V" "used_of (unat (heap_st s')) L' = U @ (q, k) # V"
  shows "malloc_post k j A B r s'"
proof -
  have "r \<noteq> 0" using assms(3) by auto
  then show ?thesis unfolding malloc_post_def using assms
    by (intro exI [of _ L']) (simp del: used_of_append, blast)
qed

lemma malloc_post_skip_used:
  "malloc_post k j (A @ [(n, False)]) B r s' \<Longrightarrow> malloc_post k j A ((n, False) # B) r s'"
  unfolding malloc_post_def by (cases "r = 0") (simp_all add: add.assoc)

lemma malloc_post_skip_free:
  assumes "malloc_post k j (A @ [(n + extent (takeWhile snd B), True)]) (dropWhile snd B) r s'"
    and "\<not> fits k j (unat (heap_st s') + extent A) (n + extent (takeWhile snd B))"
  shows "malloc_post k j A ((n, True) # B) r s'"
proof -
  have u: "used_of (unat (heap_st s')) ((A @ [(n + extent (takeWhile snd B), True)]) @ dropWhile snd B)
      = used_of (unat (heap_st s')) (A @ (n, True) # B)"
    using used_of_dropWhile [of "unat (heap_st s') + extent A + n" B] by (simp add: add.assoc)
  from assms(1) obtain L' where L': "heap_ok s' L'" "ff_ok s' L'"
    and post: "if r = 0 then L' = (A @ [(n + extent (takeWhile snd B), True)]) @ merge_free (dropWhile snd B)
           \<and> (\<forall>(p, n)\<in>set (free_of (unat (heap_st s') + extent (A @ [(n + extent (takeWhile snd B), True)]))
                 (merge_free (dropWhile snd B))). \<not> fits k j p n)
        else 16 \<le> unat r \<and> 2 ^ j dvd unat r \<and> (\<exists>U V. used_of (unat (heap_st s')) (A @ (n, True) # B) = U @ V
           \<and> used_of (unat (heap_st s')) L' = U @ (unat r - 16, k) # V)"
    unfolding malloc_post_def u by blast
  show ?thesis
    unfolding malloc_post_def using L' post assms(2)
    by (intro exI [of _ L']) (cases "r = 0", simp_all add: add.assoc del: used_of_append)
qed

lemma malloc_loop_free_small:
  assumes "heap_ok s (A @ (n, True) # B)" and "scan_ok s A" and "p = unat (heap_st s) + extent A"
    and "N = n + extent (takeWhile snd B)" and "\<not> fits k j p N"
    and "k + 2 ^ j \<le> 18446744073709551616" and "j < 64" and "p + 16 + 2 ^ j \<le> 18446744073709551616"
    and "of_nat (p + N) \<noteq> start"
  shows "\<exists>s'. malloc_loop start (of_nat k) (2 ^ j) (of_nat p) s = malloc_loop start (of_nat k) (2 ^ j) (of_nat (p + N)) s'
    \<and> heap_ok s' (A @ (N, True) # dropWhile snd B) \<and> scan_ok s' (A @ [(N, True)]) \<and> same_frame s s'"
proof -
  note at = heap_ok_at [OF assms(1,3)] and nx = heap_ok_next [OF assms(1,3)]
  have le: "first_free s \<le> of_nat p" using scan_ok_le [OF assms(2,3)] at(7) by simp
  obtain s1 where s1: "malloc_coalesce (of_nat p) (of_nat (p + n)) s = Some (of_nat (p + N), s1)"
    "heap_ok s1 (A @ (N, True) # dropWhile snd B)" "same_frame s s1" "first_free s1 = first_free s"
    using malloc_coalesce_free [OF assms(1,3) le] unfolding assms(4) by (auto simp: add.assoc)
  have p1: "p = unat (heap_st s1) + extent A" using assms(3) s1(3) by (simp add: same_frame_def)
  have sc: "scan_ok s1 A" using assms(2) s1(3,4) by (simp add: scan_ok_def same_frame_def)
  let ?s = "note_free (of_nat p) s1"
  have tr: "malloc_try (of_nat k) (2 ^ j) (of_nat p) s1 = (None, ?s)"
    using malloc_try_small [OF s1(2) p1 assms(5,6,7,8)] by (simp add: note_free_def)
  note at1 = heap_ok_at [OF s1(2) p1]
  have "malloc_loop start (of_nat k) (2 ^ j) (of_nat p) s = malloc_loop start (of_nat k) (2 ^ j) (of_nat (p + N)) ?s"
    using nx(1,2) s1(1) tr at1(1) size_pos [OF at1(2,4)] assms(9)
    by (subst malloc_loop.simps) (simp add: Let_def)
  moreover have "scan_ok ?s (A @ [(N, True)])" by (rule ff_here_scan_ok [OF note_free_here [OF s1(2) sc p1]])
  ultimately show ?thesis using s1(2,3) by (intro exI [of _ ?s]) (simp add: same_frame_def)
qed

lemma malloc_loop_free_fits:
  assumes "heap_ok s (A @ (n, True) # B)" and "scan_ok s A" and "p = unat (heap_st s) + extent A"
    and "fits k j p (n + extent (takeWhile snd B))" and "16 \<le> k" "16 dvd k"
    and "j < 64" and "p + 16 + 2 ^ j \<le> 18446744073709551616"
  shows "\<exists>r s'. malloc_loop start (of_nat k) (2 ^ j) (of_nat p) s = Some (Inr (r, s')) \<and> r \<noteq> 0
    \<and> malloc_post k j A ((n, True) # B) r s' \<and> same_frame s s'"
proof -
  note at = heap_ok_at [OF assms(1,3)] and nx = heap_ok_next [OF assms(1,3)]
  let ?N = "n + extent (takeWhile snd B)" and ?R = "dropWhile snd B"
  have le: "first_free s \<le> of_nat p" using scan_ok_le [OF assms(2,3)] at(7) by simp
  obtain s1 where s1: "malloc_coalesce (of_nat p) (of_nat (p + n)) s = Some (of_nat (p + ?N), s1)"
    "heap_ok s1 (A @ (?N, True) # ?R)" "same_frame s s1" "first_free s1 = first_free s"
    using malloc_coalesce_free [OF assms(1,3) le] by (auto simp: add.assoc)
  have p1: "p = unat (heap_st s1) + extent A" using assms(3) s1(3) by (simp add: same_frame_def)
  have sc: "scan_ok s1 A" using assms(2) s1(3,4) by (simp add: scan_ok_def same_frame_def)
  obtain d s' where t: "malloc_try (of_nat k) (2 ^ j) (of_nat p) s1 = (Some (of_nat (p + d + 16)), s')"
    "heap_ok s' (A @ (if d = 0 then [] else [(d, True)]) @ (k, False) # (if ?N - d = k then [] else [(?N - d - k, True)]) @ ?R)"
    "2 ^ j dvd p + d + 16" "d + k \<le> ?N" "same_frame s1 s'" "first_free s' = first_free (note_free (of_nat p) s1)"
    using malloc_try_fits [OF s1(2) p1 assms(4,5,6,7,8)] by blast
  let ?L = "A @ (if d = 0 then [] else [(d, True)]) @ (k, False) # (if ?N - d = k then [] else [(?N - d - k, True)]) @ ?R"
  have st: "heap_st s' = heap_st s" using s1(3) t(5) by (simp add: same_frame_def)
  have loop: "malloc_loop start (of_nat k) (2 ^ j) (of_nat p) s = Some (Inr (of_nat (p + d + 16), s'))"
    using nx(1,2) s1(1) t(1) by (subst malloc_loop.simps) simp
  have "p + d + 16 < 18446744073709551616" using t(4) assms(5) heap_ok_at(7) [OF s1(2) p1] by linarith
  then have r: "unat (of_nat (p + d + 16) :: u64) = p + d + 16" by (simp add: unat_of_nat take_bit_eq_mod)
  then have nz: "(of_nat (p + d + 16) :: u64) \<noteq> 0" by (auto simp: word_unat_eq_iff)
  have ff: "ff_ok s' ?L"
    using ff_here_ff_ok [OF note_free_here [OF s1(2) sc p1] t(6)] t(5) by (simp add: same_frame_def)
  have "used_of (unat (heap_st s')) ?L = used_of (unat (heap_st s)) A @ (p + d, k) # used_of (p + ?N) ?R"
    using t(4) assms(3) st by (auto simp: add.assoc)
  moreover have "used_of (unat (heap_st s')) (A @ (n, True) # B) = used_of (unat (heap_st s)) A @ used_of (p + ?N) ?R"
    using used_of_dropWhile [of "p + n" B] assms(3) st by (simp add: add.assoc)
  ultimately have "malloc_post k j A ((n, True) # B) (of_nat (p + d + 16)) s'"
    using t(3) r by (intro malloc_postI [OF t(2) ff, of _ "p + d"]) (simp_all only:)
  with loop nz s1(3) t(5) show ?thesis by (auto simp: same_frame_def)
qed

lemma malloc_loop_scan:
  assumes "heap_ok s (A @ B)" and "scan_ok s A" and "A = P @ Q" and "\<forall>b\<in>set P. \<not> snd b"
    and "16 \<le> k" "16 dvd k" and "k + 2 ^ j \<le> 18446744073709551616" and "j < 64"
    and "unat (heap_en s) + 16 + 2 ^ j \<le> 18446744073709551616"
  shows "\<exists>r s'. malloc_loop (of_nat (unat (heap_st s) + extent P)) (of_nat k) (2 ^ j) (of_nat (unat (heap_st s) + extent A)) s
      = Some (Inr (r, s')) \<and> malloc_post k j A B r s' \<and> same_frame s s'"
  using assms(1-4,9)
proof (induction B arbitrary: s A Q rule: merge_free.induct)
  case (1 s A Q)
  have ok: "heap_ok s A" using 1 by simp
  have "malloc_loop (of_nat (unat (heap_st s) + extent P)) (of_nat k) (2 ^ j) (of_nat (unat (heap_st s) + extent A)) s
      = Some (Inr (0, s))"
  proof (cases "P = []")
    case True
    then show ?thesis using malloc_loop_sentinel [OF ok refl] by simp
  next
    case False
    then show ?thesis
      using malloc_loop_sentinel [OF ok refl] malloc_loop_wrap [of s "[]" P Q] 1 by simp
  qed
  moreover have "malloc_post k j A [] 0 s"
    using ok scan_ok_ff_ok [OF 1(2), of "[]"] by (simp add: malloc_post_def)
  ultimately show ?case by (auto simp: same_frame_def)
next
  case (2 n f B s A Q)
  let ?p = "unat (heap_st s) + extent A"
  note at = heap_ok_at [OF 2(3) refl]
  have big: "?p + 16 + 2 ^ j \<le> 18446744073709551616" using 2(7) at(5) by linarith
  have ne: "(of_nat (?p + m) :: u64) \<noteq> of_nat (unat (heap_st s) + extent P)" if "16 \<le> m" "m \<le> n + extent B" for m
    using at(7) that 2(5) by (simp add: of_nat_ptr_inj)
  show ?case
  proof (cases f)
    case False
    have "\<exists>r s'. malloc_loop (of_nat (unat (heap_st s) + extent P)) (of_nat k) (2 ^ j)
        (of_nat (unat (heap_st s) + extent (A @ [(n, f)]))) s = Some (Inr (r, s'))
      \<and> malloc_post k j (A @ [(n, f)]) B r s' \<and> same_frame s s'"
      using 2(3-7) False scan_ok_used [OF 2(4)] by (intro 2(2) [of _ _ "Q @ [(n, f)]"]) auto
    then show ?thesis
      using malloc_loop_used [of s A n B ?p] 2(3) False ne [OF at(2)] malloc_post_skip_used [of k j A n B]
      by (auto simp: add.assoc)
  next
    case True
    let ?N = "n + extent (takeWhile snd B)"
    have N: "16 \<le> ?N" "?N \<le> n + extent B" using at(2) extent_split_free [of B] by linarith+
    have ok: "heap_ok s (A @ (n, True) # B)" using 2(3) True by simp
    show ?thesis
    proof (cases "fits k j ?p ?N")
      case fit: True
      from malloc_loop_free_fits [OF ok 2(4) refl this assms(5,6,8) big, of "of_nat (unat (heap_st s) + extent P)"] True
      show ?thesis by auto
    next
      case False
      obtain s' where s': "malloc_loop (of_nat (unat (heap_st s) + extent P)) (of_nat k) (2 ^ j) (of_nat ?p) s
          = malloc_loop (of_nat (unat (heap_st s) + extent P)) (of_nat k) (2 ^ j) (of_nat (?p + ?N)) s'"
        "heap_ok s' (A @ (?N, True) # dropWhile snd B)" "scan_ok s' (A @ [(?N, True)])" "same_frame s s'"
        using malloc_loop_free_small [OF ok 2(4) refl refl False assms(7,8) big ne [OF N]] by blast
      have fr: "heap_st s' = heap_st s" "heap_en s' = heap_en s" using s'(4) by (simp_all add: same_frame_def)
      have "\<exists>r t. malloc_loop (of_nat (unat (heap_st s') + extent P)) (of_nat k) (2 ^ j)
          (of_nat (unat (heap_st s') + extent (A @ [(?N, True)]))) s' = Some (Inr (r, t))
        \<and> malloc_post k j (A @ [(?N, True)]) (dropWhile snd B) r t \<and> same_frame s' t"
        using True s' 2(5-7) fr by (intro 2(1) [of _ _ "Q @ [(?N, True)]"]) auto
      then show ?thesis
        using s'(1,4) fr False True malloc_post_skip_free [of k j A n B] by (auto simp: same_frame_def add.assoc)
    qed
  qed
qed

section \<open>The operations\<close>

definition blk_bytes :: "nat \<Rightarrow> nat" where
  "blk_bytes n = (n + 15) div 16 * 16 + 16"

lemma blk_bytes_facts: "16 \<le> blk_bytes n" "16 dvd blk_bytes n" "n + 16 \<le> blk_bytes n" "blk_bytes n \<le> n + 31"
  by (auto simp: blk_bytes_def)

lemma round_bytes_of:
  assumes "unat bytes + 31 < 18446744073709551616"
  shows "round_bytes bytes = of_nat (blk_bytes (unat bytes))"
proof -
  have n: "unat (bytes + 15) = unat bytes + 15" using assms by (simp add: unat_word_ariths)
  have "unat ((bytes + 15) AND - 16) = unat bytes + 15 - (unat bytes + 15) mod 16"
    using and_neg_power [of "bytes + 15" 4] n by simp
  also have "\<dots> = (unat bytes + 15) div 16 * 16" by (simp add: minus_mod_eq_div_mult)
  finally have u: "unat ((bytes + 15) AND - 16) = (unat bytes + 15) div 16 * 16" .
  have "(of_nat (unat ((bytes + 15) AND - 16)) :: u64) = (bytes + 15) AND - 16" by simp
  then have "(bytes + 15) AND - 16 = of_nat ((unat bytes + 15) div 16 * 16)" unfolding u by (rule sym)
  then show ?thesis by (simp add: round_bytes_def blk_bytes_def of_nat_add)
qed

lemma merge_free_used_prefix: "\<forall>b\<in>set P. \<not> snd b \<Longrightarrow> merge_free (P @ B) = P @ merge_free B"
  by (induction P) auto

lemma free_of_append [simp]: "free_of p (A @ B) = free_of p A @ free_of (p + extent A) B"
  by (induction A arbitrary: p) (auto simp: add.assoc)

lemma free_of_used: "\<forall>b\<in>set P. \<not> snd b \<Longrightarrow> free_of p P = []"
  by (induction P arbitrary: p) auto

lemma heap_ok_block_valid:
  assumes "heap_ok s (A @ B)"
  shows "\<not> blk_invalid (of_nat (unat (heap_st s) + extent A)) s"
proof (cases B)
  case Nil
  then show ?thesis using blk_valid [OF heap_ok_sentinel(1) [OF _ refl]] assms by simp
next
  case (Cons b C)
  obtain n f where "b = (n, f)" by (rule prod.exhaust)
  then show ?thesis using blk_valid [OF heap_ok_at(1) [OF _ refl]] assms Cons by blast
qed

lemma malloc_aligned_ok:
  assumes "heap_ok s L" and "ff_ok s L" and "bytes \<noteq> 0" and "j < 64"
    and "unat bytes + 31 + 2 ^ j \<le> 18446744073709551616" and "unat (heap_en s) + 16 + 2 ^ j \<le> 18446744073709551616"
  shows "\<exists>r s' L'. malloc_aligned bytes (2 ^ j) s = Some (Inr (r, s')) \<and> same_frame s s' \<and> heap_ok s' L' \<and> ff_ok s' L'
    \<and> (if r = 0 then L' = merge_free L \<and> (\<forall>(p, n)\<in>set (free_of (unat (heap_st s)) L'). \<not> fits (blk_bytes (unat bytes)) j p n)
       else 16 \<le> unat r \<and> 2 ^ j dvd unat r \<and> (\<exists>U V. used_of (unat (heap_st s)) L = U @ V
         \<and> used_of (unat (heap_st s)) L' = U @ (unat r - 16, blk_bytes (unat bytes)) # V))"
proof -
  let ?k = "blk_bytes (unat bytes)"
  obtain P B where L: "L = P @ B" "\<forall>b\<in>set P. \<not> snd b" "first_free s = of_nat (unat (heap_st s) + extent P)"
    using assms(2) by (auto simp: ff_ok_def)
  have ok: "heap_ok s (P @ B)" using assms(1) L(1) by simp
  have "scan_ok s P" unfolding scan_ok_def using L(2,3) by (intro exI [of _ P] exI [of _ "[]"]) simp
  moreover have "?k + 2 ^ j \<le> 18446744073709551616" using assms(5) blk_bytes_facts(4) [of "unat bytes"] by linarith
  ultimately obtain r s' where r: "malloc_loop (of_nat (unat (heap_st s) + extent P)) (of_nat ?k) (2 ^ j)
      (of_nat (unat (heap_st s) + extent P)) s = Some (Inr (r, s'))" "malloc_post ?k j P B r s'" "same_frame s s'"
    using malloc_loop_scan [of s P B P "[]" ?k j, OF ok _ _ L(2) blk_bytes_facts(1,2) _ assms(4,6)] by auto
  have "0 < (2 :: nat) ^ j" by simp
  then have "unat bytes + 31 < 18446744073709551616" using assms(5) by linarith
  then have "malloc_aligned bytes (2 ^ j) s = Some (Inr (r, s'))"
    using assms(3) heap_ok_block_valid [OF ok] r(1) L(3) round_bytes_of by (simp add: malloc_aligned_def)
  moreover have st: "heap_st s' = heap_st s" using r(3) by (simp add: same_frame_def)
  ultimately show ?thesis
    using r(2,3) L(1,2) unfolding malloc_post_def
    by (cases "r = 0") (auto simp: merge_free_used_prefix free_of_used)
qed

lemma used_of_split:
  "used_of p L = U @ (q, n) # V \<Longrightarrow>
   \<exists>A B. L = A @ (n, False) # B \<and> q = p + extent A \<and> used_of p A = U \<and> used_of (q + n) B = V"
proof (induction L arbitrary: p U)
  case (Cons b L)
  obtain m f where b: "b = (m, f)" by (rule prod.exhaust)
  show ?case
  proof (cases "\<not> f \<and> U = []")
    case True
    then show ?thesis using Cons.prems b by (intro exI [of _ "[]"] exI [of _ L]) auto
  next
    case False
    then obtain U' where U: "used_of (p + m) L = U' @ (q, n) # V" "U = (if f then U' else (p, m) # U')"
      using Cons.prems b by (cases f; cases U) auto
    obtain A B where "L = A @ (n, False) # B" "q = p + m + extent A" "used_of (p + m) A = U'" "used_of (q + n) B = V"
      using Cons.IH [OF U(1)] by blast
    then show ?thesis using U(2) b by (intro exI [of _ "(m, f) # A"] exI [of _ B]) auto
  qed
qed simp

lemma ff_ok_free:
  assumes "ff_ok s (A @ (n, False) # B)" and "heap_ok s (A @ (n, False) # B)" and "p = unat (heap_st s) + extent A"
    and "heap_st s' = heap_st s" and "first_free s' = (if of_nat p < first_free s then of_nat p else first_free s)"
  shows "ff_ok s' (A @ (n, True) # B)"
proof -
  obtain P Q where P: "A @ (n, False) # B = P @ Q" "\<forall>b\<in>set P. \<not> snd b" "first_free s = of_nat (unat (heap_st s) + extent P)"
    using assms(1) by (auto simp: ff_ok_def)
  note at = heap_ok_at [OF assms(2,3)]
  have "unat (heap_st s) + extent P \<le> unat (heap_en s)" using assms(2) P(1) by (simp add: heap_ok_def)
  then have lt: "unat (heap_st s) + extent P < 18446744073709551616" using unat_lt_64 [of "heap_en s"] by linarith
  then have less: "of_nat p < first_free s \<longleftrightarrow> p < unat (heap_st s) + extent P"
    using at(7) by (simp add: P(3) word_less_nat_alt unat_of_nat take_bit_eq_mod)
  from P(1) obtain C where "A = P @ C \<and> Q = C @ (n, False) # B \<or> A @ C = P \<and> (n, False) # B = C @ Q"
    by (auto simp: append_eq_append_conv2)
  then show ?thesis
  proof
    assume C: "A = P @ C \<and> Q = C @ (n, False) # B"
    then have "first_free s' = of_nat (unat (heap_st s') + extent P)" using assms(3-5) P(3) less by simp
    then have "ff_ok s' (P @ (C @ (n, True) # B))" using P(2) by (intro ff_okI)
    then show ?thesis using C by simp
  next
    assume C: "A @ C = P \<and> (n, False) # B = C @ Q"
    then have "\<forall>b\<in>set A. \<not> snd b" using P(2) by auto
    moreover have "first_free s' = of_nat (unat (heap_st s') + extent A)"
    proof (cases C)
      case Nil
      then show ?thesis using C P(3) assms(3-5) less by auto
    next
      case (Cons c C')
      then have "c = (n, False)" using C by simp
      then have "p < unat (heap_st s) + extent P" using C Cons assms(3) at(2) by auto
      then show ?thesis using less assms(3-5) by simp
    qed
    ultimately show ?thesis by (rule ff_okI)
  qed
qed

lemma set_sig_free_ok:
  assumes "heap_ok s (A @ (n, False) # B)" and "p = unat (heap_st s) + extent A"
  shows "heap_ok (set_sig (of_nat p) FREE s) (A @ (n, True) # B)"
proof -
  note at = heap_ok_at [OF assms]
  have h: "hdr (set_sig (of_nat p) FREE s) = (hdr s)(of_nat p := blk_of p n True)"
    using at(1) by (simp add: set_sig_def blk_of_def)
  have "heap_ok (set_sig (of_nat p) FREE s) (A @ [(n, True)] @ B)"
  proof (rule heap_ok_replace)
    show "heap_ok s (A @ [(n, False)] @ B)" using assms(1) by simp
    show "hdr (set_sig (of_nat p) FREE s) (of_nat a) = hdr s (of_nat a)" if "a < 18446744073709551616"
      "a < unat (heap_st s) + extent A \<or> unat (heap_st s) + extent A + extent [(n, False)] \<le> a" for a
    proof -
      have "a \<noteq> p" using that(2) assms(2) at(2) by auto
      then show ?thesis using that(1) at(7) by (simp add: h of_nat_ptr_inj)
    qed
    show "seg (hdr (set_sig (of_nat p) FREE s)) (unat (heap_st s) + extent A) [(n, True)]"
      unfolding assms(2) [symmetric] using at(2,3) by (simp add: h)
  qed (simp_all add: set_sig_def)
  then show ?thesis by simp
qed

lemma boot_free_ok:
  assumes "heap_ok s L" and "ff_ok s L" and "used_of (unat (heap_st s)) L = U @ (q, n) # V"
  shows "\<exists>s' L'. boot_free (of_nat (q + 16)) s = Inr s' \<and> same_frame s s' \<and> heap_ok s' L' \<and> ff_ok s' L'
    \<and> used_of (unat (heap_st s)) L' = U @ V"
proof -
  obtain A B where L: "L = A @ (n, False) # B" "q = unat (heap_st s) + extent A" "used_of (unat (heap_st s)) A = U"
    "used_of (q + n) B = V" using used_of_split [OF assms(3)] by blast
  have ok: "heap_ok s (A @ (n, False) # B)" using assms(1) L(1) by simp
  note at = heap_ok_at [OF ok L(2)]
  let ?s = "set_sig (of_nat q) FREE s"
  let ?t = "if of_nat q < first_free s then ?s\<lparr> first_free := of_nat q \<rparr> else ?s"
  have nz: "(of_nat (q + 16) :: u64) \<noteq> 0" "(of_nat (q + 16) :: u64) - 16 = of_nat q"
    using at(2,7) of_nat_ptr_inj [of "q + 16" 0] by (simp_all add: of_nat_add)
  have ff: "first_free ?s = first_free s" by (simp add: set_sig_def)
  have "boot_free (of_nat (q + 16)) s = Inr ?t"
    using nz at(1) blk_valid [OF at(1)] ff by (simp add: boot_free_def Let_def)
  moreover have "heap_ok ?t (A @ (n, True) # B)" using set_sig_free_ok [OF ok L(2)] by simp
  moreover have "ff_ok ?t (A @ (n, True) # B)"
    using assms(2) L(1) ff by (intro ff_ok_free [OF _ ok L(2)]) (simp_all add: set_sig_def)
  moreover have "used_of (unat (heap_st s)) (A @ (n, True) # B) = U @ V" using L by simp
  moreover have "same_frame s ?t" by (simp add: same_frame_def set_sig_def)
  ultimately show ?thesis by blast
qed

section \<open>Start and validation\<close>

lemma malloc_init_ok:
  assumes "unat st + 63 \<le> unat en" and "unat en < 4294967296"
  shows "\<exists>n. heap_ok (malloc_init st en s) [(n, True)] \<and> ff_ok (malloc_init st en s) [(n, True)]
    \<and> unat (heap_en (malloc_init st en s)) < 4294967296 \<and> unat st \<le> unat (heap_st (malloc_init st en s))
    \<and> unat (heap_en (malloc_init st en s)) + 16 \<le> unat en"
proof -
  define a where "a = (unat st + 15) div 16 * 16"
  define b where "b = unat en div 16 * 16 - 16"
  have ab: "unat st \<le> a" "a + 16 \<le> b" "b + 16 \<le> unat en" "16 dvd a" "16 dvd b"
    using assms(1) by (auto simp: a_def b_def)
  have "unat (st + 15) = unat st + 15" using assms by (simp add: unat_word_ariths)
  then have "unat ((st + 15) AND - 16) = a"
    using and_neg_power [of "st + 15" 4] by (simp add: a_def minus_mod_eq_div_mult)
  moreover have "(of_nat (unat ((st + 15) AND - 16)) :: u64) = (st + 15) AND - 16" by simp
  ultimately have wa: "(st + 15) AND - 16 = of_nat a" by simp
  have "unat (en AND - 16) = b + 16"
    using and_neg_power [of en 4] ab by (simp add: b_def minus_mod_eq_div_mult)
  moreover have "(of_nat (unat (en AND - 16)) :: u64) = en AND - 16" by simp
  ultimately have "of_nat b + 16 = en AND - 16" by (simp add: of_nat_add)
  then have wb: "(en AND - 16) - 16 = of_nat b" by (metis add_diff_cancel_right')
  have ne: "(of_nat a :: u64) \<noteq> of_nat b" using ab assms(2) by (simp add: of_nat_ptr_inj)
  have sz: "ucast (of_nat b - of_nat a :: u64) = (of_nat (b - a) :: u32)"
    using ucast_of_nat_down [of "b - a"] ab(2) by (simp add: of_nat_diff)
  let ?s = "malloc_init st en s"
  have st: "heap_st ?s = of_nat a" "heap_en ?s = of_nat b" "first_free ?s = of_nat a"
    by (simp_all add: malloc_init_def Let_def wa wb)
  have h: "hdr ?s = (hdr s)(of_nat b := blk_of b 0 False, of_nat a := blk_of a (b - a) True)"
    using new_blk_hdr [of b 0 False] new_blk_hdr [of a "b - a" True]
    by (simp add: malloc_init_def Let_def wa wb sz)
  have u: "unat (of_nat a :: u64) = a" "unat (of_nat b :: u64) = b"
    using ab assms(2) by (simp_all add: unat_of_nat take_bit_eq_mod)
  have "16 \<le> b - a" "b - a < 4294967296" using ab assms(2) by linarith+
  then have "heap_ok ?s [(b - a, True)]"
    using ab ne by (simp add: heap_ok_def st u h dvd_diff_nat)
  moreover have "ff_ok ?s [(b - a, True)]"
    using ff_okI [of "[]" ?s "[(b - a, True)]"] by (simp add: st u)
  ultimately show ?thesis using ab assms(2) by (intro exI [of _ "b - a"]) (simp add: st u)
qed

lemma malloc_validate_loop_ok:
  "heap_ok s (A @ B) \<Longrightarrow> malloc_validate_loop (of_nat (unat (heap_st s) + extent A)) s = Some True"
proof (induction B arbitrary: A)
  case Nil
  then have ok: "heap_ok s A" by simp
  note at = heap_ok_sentinel [OF ok refl]
  have "\<not> of_nat (unat (heap_st s) + extent A) < heap_st s"
    using at(3) by (simp add: word_less_nat_alt unat_of_nat take_bit_eq_mod)
  then show ?case using at(1,2) blk_valid [OF at(1)]
    by (subst malloc_validate_loop.simps) simp
next
  case (Cons b B)
  obtain n f where b: "b = (n, f)" by (rule prod.exhaust)
  have ok: "heap_ok s (A @ (n, f) # B)" using Cons.prems b by simp
  let ?p = "unat (heap_st s) + extent A"
  note at = heap_ok_at [OF ok refl] and nx = heap_ok_next [OF ok refl]
  have en: "heap_en s = of_nat (?p + n + extent B)" using at(5) by simp
  have "\<not> of_nat ?p < heap_st s" "\<not> heap_en s < of_nat ?p" "of_nat ?p \<noteq> heap_en s"
    using at(2,7) unfolding en by (simp_all add: word_less_nat_alt unat_of_nat take_bit_eq_mod of_nat_ptr_inj)
  moreover have "(of_nat n :: u32) AND 15 = 0"
    using unat_and_mask [of "of_nat n :: u32" 4] at(3,4) by (simp add: word_unat_eq_iff unat_of_nat take_bit_eq_mod mask_numeral)
  moreover have "malloc_validate_loop (of_nat (?p + n)) s = Some True"
    using Cons.IH [of "A @ [(n, f)]"] ok by (simp add: add.assoc)
  ultimately show ?case using at(1) blk_valid [OF at(1)] nx(2)
    by (subst malloc_validate_loop.simps) (cases f, simp_all)
qed

lemma malloc_validate_ok: "heap_ok s L \<Longrightarrow> malloc_validate s = Some True"
  using malloc_validate_loop_ok [of s "[]" L] by (simp add: malloc_validate_def)

lemma used_of_within:
  "seg h p L \<Longrightarrow> (a, m) \<in> set (used_of p L) \<Longrightarrow> p \<le> a \<and> 16 \<le> m \<and> a + m \<le> p + extent L"
  by (induction h p L rule: seg.induct) (auto split: if_splits)

lemma used_of_apart: "seg h p L \<Longrightarrow> sorted_wrt (\<lambda>x y. fst x + snd x \<le> fst y) (used_of p L)"
proof (induction h p L rule: seg.induct)
  case (2 h p n f L)
  then show ?case using used_of_within [of h "p + n" L] by fastforce
qed simp

text \<open>Growing a block never happens in place: the block after the merged free ones is not free.\<close>

lemma realloc_grow_moves:
  assumes "heap_ok s (A @ (n, False) # B)" and "ff_ok s (A @ (n, False) # B)" and "p = unat (heap_st s) + extent A"
  shows "\<exists>s1 B1. realloc_grow (of_nat p) (of_nat (p + n)) bytes al s = realloc_move (of_nat p) bytes al s1
    \<and> heap_ok s1 (A @ (n, False) # B1) \<and> ff_ok s1 (A @ (n, False) # B1)
    \<and> used_of (p + n) B1 = used_of (p + n) B \<and> same_frame s s1"
proof (cases "B \<noteq> [] \<and> snd (hd B)")
  case False
  then have "b_sig (hdr s (of_nat (p + n))) \<noteq> FREE" using heap_ok_next(3) [OF assms(1,3)] by simp
  then have "realloc_grow (of_nat p) (of_nat (p + n)) bytes al s = realloc_move (of_nat p) bytes al s"
    using heap_ok_next(1) [OF assms(1,3)] by (simp add: realloc_grow_def)
  then show ?thesis using assms by (auto simp: same_frame_def)
next
  case True
  then obtain m B' where B: "B = (m, True) # B'" by (cases B) auto
  have ok: "heap_ok s ((A @ [(n, False)]) @ (m, True) # B')" using assms(1) B by simp
  have q: "p + n = unat (heap_st s) + extent (A @ [(n, False)])" using assms(3) by simp
  note at = heap_ok_at [OF ok q] and nx = heap_ok_next [OF ok q]
  obtain P Q where P: "A @ (n, False) # B = P @ Q" "\<forall>b\<in>set P. \<not> snd b" "first_free s = of_nat (unat (heap_st s) + extent P)"
    using assms(2) by (auto simp: ff_ok_def)
  have pre: "\<exists>C. A @ [(n, False)] = P @ C"
  proof -
    define D where "D = A @ [(n, False)]"
    have "D @ (m, True) # B' = P @ Q" using P(1) B by (simp add: D_def)
    then obtain C where "D = P @ C \<or> D @ C = P \<and> (m, True) # B' = C @ Q"
      by (auto simp: append_eq_append_conv2)
    moreover have "C = []" if "D @ C = P" "(m, True) # B' = C @ Q"
      using that P(2) by (cases C) auto
    ultimately show ?thesis unfolding D_def by auto
  qed
  then obtain C where C: "A @ [(n, False)] = P @ C" by blast
  then have "extent P + extent C = extent A + n" using extent_simps(3) [of P C] by (metis extent_simps add.right_neutral)
  then have "first_free s \<le> of_nat (p + n)"
    using P(3) assms(3) at(7) by (simp add: word_le_nat_alt unat_of_nat take_bit_eq_mod)
  from malloc_coalesce_free [OF ok q this] obtain s1 where s1:
    "malloc_coalesce (of_nat (p + n)) (of_nat (p + n + m)) s = Some (of_nat (p + n + m + extent (takeWhile snd B')), s1)"
    "heap_ok s1 ((A @ [(n, False)]) @ (m + extent (takeWhile snd B'), True) # dropWhile snd B')"
    "same_frame s s1" "first_free s1 = first_free s" by blast
  have q1: "p + n = unat (heap_st s1) + extent (A @ [(n, False)])" using q s1(3) by (simp add: same_frame_def)
  have "\<not> (dropWhile snd B' \<noteq> [] \<and> snd (hd (dropWhile snd B')))" by (induction B') auto
  then have "b_sig (hdr s1 (of_nat (p + n + m + extent (takeWhile snd B')))) \<noteq> FREE"
    using heap_ok_next(3) [OF s1(2) q1] by (simp add: add.assoc)
  then have eq: "realloc_grow (of_nat p) (of_nat (p + n)) bytes al s = realloc_move (of_nat p) bytes al s1"
    using heap_ok_next(1,3) [OF assms(1,3)] B nx(2) s1(1) by (simp add: realloc_grow_def)
  let ?B = "(m + extent (takeWhile snd B'), True) # dropWhile snd B'"
  have "ff_ok s1 (P @ (C @ ?B))" using P(2,3) s1(3,4) by (intro ff_okI) (simp_all add: same_frame_def)
  then have "ff_ok s1 (A @ (n, False) # ?B)" using C by (metis append.assoc append_Cons append_Nil)
  moreover have "used_of (p + n) ?B = used_of (p + n) B" using used_of_dropWhile [of "p + n + m" B'] B by (simp add: add.assoc)
  ultimately show ?thesis using eq s1(2,3) by (intro exI [of _ s1] exI [of _ ?B]) simp
qed

lemma copy_room:
  fixes r :: ptr
  assumes "p + n \<le> unat r - 16 \<or> unat r - 16 + k \<le> p" and "16 \<le> unat r" and "16 \<le> k"
    and "p + n < 18446744073709551616" and "16 \<le> n"
  shows "n - 16 \<le> unat (r - of_nat (p + 16))"
proof -
  have u: "unat (of_nat (p + 16) :: u64) = p + 16" using assms(4,5) by (simp add: unat_of_nat take_bit_eq_mod)
  show ?thesis
  proof (cases "r < of_nat (p + 16)")
    case True
    then show ?thesis using unat_sub_wrap_64 [OF True] u assms(4) by linarith
  next
    case False
    then have le: "(of_nat (p + 16) :: u64) \<le> r" by (simp only: not_less)
    then have "p + 16 \<le> unat r" using u unfolding word_le_nat_alt by simp
    then have "p + n \<le> unat r - 16" using assms(1,3) by linarith
    then show ?thesis using unat_sub [OF le] u by linarith
  qed
qed

lemma insert_beside:
  assumes "X @ b # Y = U @ V"
  shows "\<exists>X' Y' U' V'. U @ c # V = X' @ b # Y' \<and> X' @ Y' = U' @ c # V' \<and> U' @ V' = X @ Y \<and> (c \<in> set X' \<or> c \<in> set Y')"
proof -
  from assms obtain W where "X = U @ W \<and> V = W @ b # Y \<or> U = X @ b # W \<and> Y = W @ V"
    by (auto simp: append_eq_append_conv2 Cons_eq_append_conv)
  then show ?thesis
  proof
    assume W: "X = U @ W \<and> V = W @ b # Y"
    then show ?thesis
      by (intro exI [of _ "U @ c # W"] exI [of _ Y] exI [of _ U] exI [of _ "W @ Y"]) simp
  next
    assume W: "U = X @ b # W \<and> Y = W @ V"
    then show ?thesis
      by (intro exI [of _ X] exI [of _ "W @ c # V"] exI [of _ "X @ W"] exI [of _ V]) simp
  qed
qed

lemma realloc_move_ok:
  assumes "heap_ok s (A @ (n, False) # B)" and "ff_ok s (A @ (n, False) # B)" and "p = unat (heap_st s) + extent A"
    and "bytes \<noteq> 0" and "j < 64" and "unat bytes + 31 + 2 ^ j \<le> 18446744073709551616"
    and "unat (heap_en s) + 16 + 2 ^ j \<le> 18446744073709551616"
  shows "\<exists>r s' L'. realloc_move (of_nat p) bytes (2 ^ j) s = Some (Inr (r, s')) \<and> heap_ok s' L' \<and> ff_ok s' L'
    \<and> heap_st s' = heap_st s \<and> heap_en s' = heap_en s
    \<and> (if r = 0 then used_of (unat (heap_st s)) L' = used_of (unat (heap_st s)) (A @ (n, False) # B) \<and> payload s' = payload s
       else 16 \<le> unat r \<and> 2 ^ j dvd unat r
         \<and> payload s' = store_bytes (payload s) r (bytes_at (payload s) (of_nat (p + 16)) (n - 16))
         \<and> (\<exists>U V. used_of (unat (heap_st s)) A @ used_of (p + n) B = U @ V
               \<and> used_of (unat (heap_st s)) L' = U @ (unat r - 16, blk_bytes (unat bytes)) # V))"
proof -
  let ?k = "blk_bytes (unat bytes)"
  obtain r s1 L1 where r: "malloc_aligned bytes (2 ^ j) s = Some (Inr (r, s1))" "same_frame s s1" "heap_ok s1 L1" "ff_ok s1 L1"
    and post: "if r = 0 then L1 = merge_free (A @ (n, False) # B)
         \<and> (\<forall>(p, n)\<in>set (free_of (unat (heap_st s)) L1). \<not> fits ?k j p n)
       else 16 \<le> unat r \<and> 2 ^ j dvd unat r \<and> (\<exists>U V. used_of (unat (heap_st s)) (A @ (n, False) # B) = U @ V
         \<and> used_of (unat (heap_st s)) L1 = U @ (unat r - 16, ?k) # V)"
    using malloc_aligned_ok [OF assms(1,2,4,5,6,7)] by blast
  show ?thesis
  proof (cases "r = 0")
    case True
    then show ?thesis using r post by (auto simp: realloc_move_def same_frame_def)
  next
    case False
    obtain U V where UV: "used_of (unat (heap_st s)) (A @ (n, False) # B) = U @ V"
      "used_of (unat (heap_st s)) L1 = U @ (unat r - 16, ?k) # V" using False post by auto
    let ?c = "(unat r - 16, ?k)"
    have "used_of (unat (heap_st s)) A @ (p, n) # used_of (p + n) B = U @ V" using UV(1) assms(3) by simp
    from insert_beside [OF this, of ?c] obtain X Y U' V' where X: "used_of (unat (heap_st s)) L1 = X @ (p, n) # Y"
      "X @ Y = U' @ ?c # V'" "U' @ V' = used_of (unat (heap_st s)) A @ used_of (p + n) B" "?c \<in> set X \<or> ?c \<in> set Y"
      using UV(2) by auto
    have fr: "heap_st s1 = heap_st s" "heap_en s1 = heap_en s" "payload s1 = payload s" using r(2) by (simp_all add: same_frame_def)
    from used_of_split [OF X(1)] obtain A1 B1 where L1: "L1 = A1 @ (n, False) # B1" "p = unat (heap_st s) + extent A1"
      "used_of (unat (heap_st s)) A1 = X" "used_of (p + n) B1 = Y" by blast
    have ok1: "heap_ok s1 (A1 @ (n, False) # B1)" and p1: "p = unat (heap_st s1) + extent A1" using r(3) L1 fr by simp_all
    note at = heap_ok_at [OF ok1 p1]
    have "seg (hdr s1) (unat (heap_st s)) L1" using r(3) fr by (simp add: heap_ok_def)
    from used_of_apart [OF this] X(4) have apart: "p + n \<le> unat r - 16 \<or> unat r - 16 + ?k \<le> p"
      unfolding X(1) by (fastforce simp: sorted_wrt_append)
    have r16: "16 \<le> unat r" "2 ^ j dvd unat r" using False post by simp_all
    have len: "ucast (b_size (hdr s1 (of_nat p))) - 16 = (of_nat (n - 16) :: u64)"
      using at(1,2,4) by (simp add: ucast_size of_nat_diff)
    have "unat (of_nat (n - 16) :: u64) = n - 16" using at(4) by (simp add: unat_of_nat take_bit_eq_mod)
    then have cp: "fst (boot_memcpy (payload s) r (of_nat (p + 16)) (of_nat (n - 16)))
        = store_bytes (payload s) r (bytes_at (payload s) (of_nat (p + 16)) (n - 16))"
      using boot_memcpy_eq [of r "of_nat (p + 16)" "of_nat (n - 16)" "payload s"]
        copy_room [OF apart r16(1) blk_bytes_facts(1) _ at(2)] at(7) by simp
    let ?s2 = "set_sig (of_nat p) FREE (s1\<lparr> payload := fst (boot_memcpy (payload s) r (of_nat (p + 16)) (of_nat (n - 16))) \<rparr>)"
    let ?t = "if of_nat p < first_free ?s2 then ?s2\<lparr> first_free := of_nat p \<rparr> else ?s2"
    have "realloc_move (of_nat p) bytes (2 ^ j) s = Some (Inr (r, ?t))"
      using r(1) False len fr(3) by (simp add: realloc_move_def Let_def of_nat_add)
    moreover have ok2: "heap_ok (s1\<lparr> payload := m \<rparr>) (A1 @ (n, False) # B1)" for m using ok1 by (simp add: heap_ok_def)
    have "heap_ok ?t (A1 @ (n, True) # B1)" using set_sig_free_ok [OF ok2, of p] p1 by simp
    moreover have "ff_ok ?t (A1 @ (n, True) # B1)"
      using r(4) L1(1) by (intro ff_ok_free [OF _ ok1 p1]) (simp_all add: set_sig_def)
    moreover have "payload ?t = store_bytes (payload s) r (bytes_at (payload s) (of_nat (p + 16)) (n - 16))"
      by (simp add: set_sig_def cp)
    moreover have "used_of (unat (heap_st s)) (A1 @ (n, True) # B1) = U' @ ?c # V'" using L1 X(2) by simp
    moreover have "heap_st ?t = heap_st s" "heap_en ?t = heap_en s" using fr by (simp_all add: set_sig_def)
    ultimately show ?thesis
      using False r16 X(3) by (intro exI [of _ r] exI [of _ ?t] exI [of _ "A1 @ (n, True) # B1"]) (simp del: used_of_append, metis)
  qed
qed

section \<open>Clients of an allocator\<close>

text \<open>
  A client keeps the pointers it was given with the sizes it asked for.  It asks for memory with an
  alignment of \<open>2 ^ j\<close>, or gives its \<open>i\<close>-th pointer back.
\<close>

datatype heap_op = Malloc u64 nat | Free nat

fun heap_op_ok :: "heap_op \<Rightarrow> bool" where
  "heap_op_ok (Malloc bytes j) \<longleftrightarrow> bytes \<noteq> 0 \<and> unat bytes < 4294967296 \<and> j < 32"
| "heap_op_ok (Free i) \<longleftrightarrow> True"

fun client_step :: "(u64 \<Rightarrow> nat \<Rightarrow> 's \<Rightarrow> (heap_panic + ptr \<times> 's) option) \<Rightarrow> (ptr \<Rightarrow> 's \<Rightarrow> heap_panic + 's)
    \<Rightarrow> heap_op \<Rightarrow> (ptr \<times> u64) list \<times> 's \<Rightarrow> ((ptr \<times> u64) list \<times> 's) option" where
  "client_step alloc release (Malloc bytes j) (ps, s) =
    (case alloc bytes j s of
       Some (Inr (r, s')) \<Rightarrow> Some (if r = 0 then ps else (r, bytes) # ps, s')
     | _ \<Rightarrow> None)"
| "client_step alloc release (Free i) (ps, s) =
    (if i < length ps then
       (case release (fst (ps ! i)) s of
          Inr s' \<Rightarrow> Some (take i ps @ drop (Suc i) ps, s')
        | Inl _ \<Rightarrow> None)
     else Some (ps, s))"

definition blk_for :: "ptr \<times> u64 \<Rightarrow> nat \<times> nat" where
  "blk_for b = (unat (fst b) - 16, blk_bytes (unat (snd b)))"

locale block_allocator =
  fixes holds :: "'s \<Rightarrow> (nat \<times> nat) list \<Rightarrow> bool"
    and alloc :: "u64 \<Rightarrow> nat \<Rightarrow> 's \<Rightarrow> (heap_panic + ptr \<times> 's) option"
    and release :: "ptr \<Rightarrow> 's \<Rightarrow> heap_panic + 's"
  assumes alloc_returns: "holds s W \<Longrightarrow> heap_op_ok (Malloc bytes j) \<Longrightarrow>
      \<exists>r s' W'. alloc bytes j s = Some (Inr (r, s')) \<and> holds s' W'
        \<and> (if r = 0 then W' = W
           else 16 \<le> unat r \<and> (\<exists>U V. W = U @ V \<and> W' = U @ (unat r - 16, blk_bytes (unat bytes)) # V))"
    and release_returns: "holds s (U @ (q, n) # V) \<Longrightarrow> \<exists>s'. release (of_nat (q + 16)) s = Inr s' \<and> holds s' (U @ V)"
    and blocks_apart: "holds s W \<Longrightarrow> sorted_wrt (\<lambda>x y. fst x + snd x \<le> fst y) W \<and> (\<forall>x\<in>set W. 0 < snd x)"
begin

lemma step_keeps:
  assumes "holds s W" and "mset (map blk_for ps) = mset W" and "\<forall>b\<in>set ps. 16 \<le> unat (fst b)" and "heap_op_ok op"
  shows "\<exists>ps' s' W'. client_step alloc release op (ps, s) = Some (ps', s') \<and> holds s' W'
    \<and> mset (map blk_for ps') = mset W' \<and> (\<forall>b\<in>set ps'. 16 \<le> unat (fst b))"
proof (cases op)
  case (Malloc bytes j)
  obtain r s' W' where r: "alloc bytes j s = Some (Inr (r, s'))" "holds s' W'"
    and post: "if r = 0 then W' = W else 16 \<le> unat r \<and> (\<exists>U V. W = U @ V \<and> W' = U @ (unat r - 16, blk_bytes (unat bytes)) # V)"
    using alloc_returns [OF assms(1)] assms(4) Malloc by blast
  show ?thesis
  proof (cases "r = 0")
    case True
    then show ?thesis using Malloc r post assms(2,3) by auto
  next
    case False
    then have "mset (map blk_for ((r, bytes) # ps)) = mset W'" using post assms(2) by (auto simp: blk_for_def)
    then show ?thesis using Malloc r post assms(3) False by (intro exI [of _ "(r, bytes) # ps"]) auto
  qed
next
  case (Free i)
  show ?thesis
  proof (cases "i < length ps")
    case True
    let ?ps = "take i ps @ drop (Suc i) ps"
    have ps: "ps = take i ps @ ps ! i # drop (Suc i) ps" using True by (rule id_take_nth_drop)
    have m: "mset (map blk_for ps) = add_mset (blk_for (ps ! i)) (mset (map blk_for ?ps))" by (subst ps) simp
    then have "blk_for (ps ! i) \<in> set W" using assms(2) by (metis mset_eq_setD union_single_eq_member set_mset_mset)
    then obtain U V where W: "W = U @ blk_for (ps ! i) # V" by (meson split_list)
    have "16 \<le> unat (fst (ps ! i))" using assms(3) True by simp
    then have q: "of_nat (unat (fst (ps ! i)) - 16 + 16) = fst (ps ! i)" by simp
    obtain s' where s': "release (fst (ps ! i)) s = Inr s'" "holds s' (U @ V)"
      using release_returns [of s U "unat (fst (ps ! i)) - 16"] assms(1) W q by (auto simp: blk_for_def)
    moreover have "mset (map blk_for ?ps) = mset (U @ V)" using m assms(2) W by simp
    moreover have "\<forall>b\<in>set ?ps. 16 \<le> unat (fst b)" using assms(3) by (auto dest: in_set_takeD in_set_dropD)
    ultimately show ?thesis using Free True by (intro exI [of _ ?ps] exI [of _ s'] exI [of _ "U @ V"]) simp
  next
    case False
    then show ?thesis using Free assms by auto
  qed
qed

lemma run_keeps:
  "holds s W \<Longrightarrow> mset (map blk_for ps) = mset W \<Longrightarrow> \<forall>b\<in>set ps. 16 \<le> unat (fst b) \<Longrightarrow> \<forall>op\<in>set ops. heap_op_ok op \<Longrightarrow>
   \<exists>ps' s' W'. fold_call (client_step alloc release) ops (ps, s) = Some (ps', s') \<and> holds s' W'
    \<and> mset (map blk_for ps') = mset W' \<and> (\<forall>b\<in>set ps'. 16 \<le> unat (fst b))"
proof (induction ops arbitrary: s W ps)
  case (Cons op ops)
  obtain ps1 s1 W1 where "client_step alloc release op (ps, s) = Some (ps1, s1)" "holds s1 W1"
    "mset (map blk_for ps1) = mset W1" "\<forall>b\<in>set ps1. 16 \<le> unat (fst b)"
    using step_keeps [OF Cons.prems(1-3)] Cons.prems(4) by (metis list.set_intros(1))
  then show ?case using Cons.IH [of s1 W1 ps1] Cons.prems(4) by simp
qed auto

lemma payloads_apart:
  assumes "holds s W" and "mset (map blk_for ps) = mset W" and "\<forall>b\<in>set ps. 16 \<le> unat (fst b)"
    and "i < length ps" "j < length ps" "i \<noteq> j"
  shows "unat (fst (ps ! i)) + unat (snd (ps ! i)) \<le> unat (fst (ps ! j))
    \<or> unat (fst (ps ! j)) + unat (snd (ps ! j)) \<le> unat (fst (ps ! i))"
proof -
  let ?x = "blk_for (ps ! i)" and ?y = "blk_for (ps ! j)"
  have W: "sorted_wrt (\<lambda>x y. fst x + snd x \<le> fst y) W" "\<forall>x\<in>set W. 0 < snd x" using blocks_apart [OF assms(1)] by auto
  have "distinct W" using W by (induction W) fastforce+
  then have "distinct (map blk_for ps)" using assms(2) by (metis mset_eq_imp_distinct_iff)
  then have "?x \<noteq> ?y" using assms(4-6) by (auto simp: distinct_conv_nth)
  moreover have "?x \<in> set W" "?y \<in> set W" using assms(2,4,5) by (metis mset_eq_setD image_eqI list.set_map nth_mem)+
  ultimately have "fst ?x + snd ?x \<le> fst ?y \<or> fst ?y + snd ?y \<le> fst ?x" using W(1)
    by (induction W) auto
  moreover have "16 \<le> unat (fst (ps ! i))" "16 \<le> unat (fst (ps ! j))" using assms(3-5) by simp_all
  ultimately show ?thesis
    using blk_bytes_facts(3) [of "unat (snd (ps ! i))"] blk_bytes_facts(3) [of "unat (snd (ps ! j))"]
    unfolding blk_for_def fst_conv snd_conv by linarith
qed

end

definition boot_holds :: "boot_heap \<Rightarrow> (nat \<times> nat) list \<Rightarrow> bool" where
  "boot_holds s W \<longleftrightarrow> (\<exists>L. heap_ok s L \<and> ff_ok s L \<and> W = used_of (unat (heap_st s)) L) \<and> unat (heap_en s) < 4294967296"

definition malloc_pow :: "u64 \<Rightarrow> nat \<Rightarrow> boot_heap \<Rightarrow> (heap_panic + ptr \<times> boot_heap) option" where
  "malloc_pow bytes j s = malloc_aligned bytes (2 ^ j) s"

lemma small_power: "j < 32 \<Longrightarrow> (2 :: nat) ^ j \<le> 4294967296"
  using power_increasing [of j 32 "2 :: nat"] by simp

interpretation bh: block_allocator boot_holds malloc_pow boot_free
proof
  fix s W bytes j assume h: "boot_holds s W" and op: "heap_op_ok (Malloc bytes j)"
  obtain L where L: "heap_ok s L" "ff_ok s L" "W = used_of (unat (heap_st s)) L" and en: "unat (heap_en s) < 4294967296"
    using h by (auto simp: boot_holds_def)
  have b: "bytes \<noteq> 0" "j < 64" "unat bytes + 31 + 2 ^ j \<le> 18446744073709551616" "unat (heap_en s) + 16 + 2 ^ j \<le> 18446744073709551616"
    using op en small_power [of j] by auto
  show "\<exists>r s' W'. malloc_pow bytes j s = Some (Inr (r, s')) \<and> boot_holds s' W' \<and> (if r = 0 then W' = W
      else 16 \<le> unat r \<and> (\<exists>U V. W = U @ V \<and> W' = U @ (unat r - 16, blk_bytes (unat bytes)) # V))"
    using malloc_aligned_ok [OF L(1,2) b] L(3) en by (fastforce simp: malloc_pow_def boot_holds_def same_frame_def split: if_splits)
next
  fix s U q n V assume "boot_holds s (U @ (q, n) # V)"
  then show "\<exists>s'. boot_free (of_nat (q + 16)) s = Inr s' \<and> boot_holds s' (U @ V)"
    using boot_free_ok [of s _ U q n V] by (fastforce simp: boot_holds_def same_frame_def)
next
  fix s W assume "boot_holds s W"
  then obtain L where "seg (hdr s) (unat (heap_st s)) L" "W = used_of (unat (heap_st s)) L"
    by (auto simp: boot_holds_def heap_ok_def)
  then show "sorted_wrt (\<lambda>x y. fst x + snd x \<le> fst y) W \<and> (\<forall>x\<in>set W. 0 < snd x)"
    using used_of_apart used_of_within by fastforce
qed

section \<open>Properties\<close>

text \<open>
  C10. Allocation.  On a well-formed heap whose \<open>first_free\<close> has no free block below it,
  \<open>malloc_aligned\<close> returns, without a panic.  It gives null only when no run of adjacent free
  blocks has room for the block at the alignment asked for, and then it has only merged free blocks.
  Otherwise the new block is aligned and is added to the blocks in use, none of which changes.
\<close>

theorem malloc_aligned_correct:
  assumes "heap_ok s L" and "ff_ok s L" and "bytes \<noteq> 0" and "j < 64"
    and "unat bytes + 31 + 2 ^ j \<le> 18446744073709551616" and "unat (heap_en s) + 16 + 2 ^ j \<le> 18446744073709551616"
  shows "\<exists>r s' L'. malloc_aligned bytes (2 ^ j) s = Some (Inr (r, s')) \<and> heap_ok s' L' \<and> ff_ok s' L'
    \<and> payload s' = payload s \<and> heap_st s' = heap_st s
    \<and> (if r = 0 then L' = merge_free L \<and> (\<forall>(p, n)\<in>set (free_of (unat (heap_st s)) L').
           n < blk_bytes (unat bytes) + unat (align_adj (2 ^ j) (of_nat p)))
       else 2 ^ j dvd unat r \<and> (\<exists>U V. used_of (unat (heap_st s)) L = U @ V
         \<and> used_of (unat (heap_st s)) L' = U @ (unat r - 16, blk_bytes (unat bytes)) # V))"
  using malloc_aligned_ok [OF assms] unfolding same_frame_def fits_def not_le by fastforce

text \<open>A heap of 4 KB with one free block.\<close>

definition demo_heap :: boot_heap where
  "demo_heap = malloc_init 0x1000 0x2000 \<lparr> hdr = (\<lambda>_. blk_of 0 0 False), payload = (\<lambda>_. 0), heap_st = 0, heap_en = 0,
     first_free = 0, heap_free = 0 \<rparr>"

lemma demo_heap_ok: "heap_ok demo_heap [(0xFF0, True)]" "ff_ok demo_heap [(0xFF0, True)]" "heap_en demo_heap = 0x1FF0"
  "heap_st demo_heap = 0x1000"
proof -
  show st: "heap_st demo_heap = 0x1000" and en: "heap_en demo_heap = 0x1FF0"
    by (simp_all add: demo_heap_def malloc_init_def Let_def)
  show ok: "heap_ok demo_heap [(0xFF0, True)]"
    by (simp add: heap_ok_def st en)
      (simp add: demo_heap_def malloc_init_def Let_def blk_of_def new_blk_def make_valid_def set_sig_def set_size_def)
  show "ff_ok demo_heap [(0xFF0, True)]"
    using ff_okI [of "[]" demo_heap "[(0xFF0, True)]"] by (simp add: st) (simp add: demo_heap_def malloc_init_def Let_def)
qed

theorem malloc_aligned_correct_witness:
  "\<exists>r s' L'. malloc_aligned 100 64 demo_heap = Some (Inr (r, s')) \<and> heap_ok s' L'"
  using malloc_aligned_correct [OF demo_heap_ok(1,2), of 100 6] demo_heap_ok(3) by (auto simp: split: if_splits)

text \<open>
  C9. Clients.  From \<open>malloc_init\<close> on, whatever a client asks for and gives back, every call
  returns, no call panics, the heap passes \<open>malloc_validate\<close>, and the blocks of bytes the client
  holds are pairwise disjoint.
\<close>

theorem boot_heap_clients_safe:
  assumes "unat st + 63 \<le> unat en" and "unat en < 4294967296" and "\<forall>op\<in>set ops. heap_op_ok op"
  shows "\<exists>ps s. fold_call (client_step malloc_pow boot_free) ops ([], malloc_init st en s0) = Some (ps, s)
    \<and> malloc_validate s = Some True
    \<and> (\<forall>i<length ps. \<forall>j<length ps. i \<noteq> j \<longrightarrow>
          unat (fst (ps ! i)) + unat (snd (ps ! i)) \<le> unat (fst (ps ! j))
          \<or> unat (fst (ps ! j)) + unat (snd (ps ! j)) \<le> unat (fst (ps ! i)))"
proof -
  obtain n where n: "heap_ok (malloc_init st en s0) [(n, True)]" "ff_ok (malloc_init st en s0) [(n, True)]"
    "unat (heap_en (malloc_init st en s0)) < 4294967296"
    using malloc_init_ok [OF assms(1,2)] by blast
  then have "boot_holds (malloc_init st en s0) []" unfolding boot_holds_def by fastforce
  then obtain ps s W where r: "fold_call (client_step malloc_pow boot_free) ops ([], malloc_init st en s0) = Some (ps, s)"
    "boot_holds s W" "mset (map blk_for ps) = mset W" "\<forall>b\<in>set ps. 16 \<le> unat (fst b)"
    using bh.run_keeps [of "malloc_init st en s0" "[]" "[]", OF _ _ _ assms(3)] by auto
  have "malloc_validate s = Some True" using r(2) malloc_validate_ok by (auto simp: boot_holds_def)
  then show ?thesis using r(1) bh.payloads_apart [OF r(2-4)] by blast
qed

theorem boot_heap_clients_safe_witness:
  "\<exists>ps s. fold_call (client_step malloc_pow boot_free) [Malloc 100 4, Malloc 50 6, Free 1, Malloc 7 4]
     ([], malloc_init 0x1000 0x2000 demo_heap) = Some (ps, s) \<and> malloc_validate s = Some True"
  using boot_heap_clients_safe [of "0x1000" "0x2000" "[Malloc 100 4, Malloc 50 6, Free 1, Malloc 7 4]" demo_heap] by auto

text \<open>
  C22. Growing.  \<open>realloc_aligned\<close> of a block to more than its size always moves it: the branch that
  expands in place is never taken, since the block it looks at follows the merged free blocks and
  is not free.  It returns; when it gives null nothing is lost, and otherwise the new block holds
  the old bytes and the old block is free.
\<close>

theorem realloc_grow_correct:
  assumes "heap_ok s L" and "ff_ok s L" and "used_of (unat (heap_st s)) L = U @ (q, n) # V"
    and "n < blk_bytes (unat bytes)" and "unat bytes < 4294967296" and "j < 32" and "unat (heap_en s) < 4294967296"
  shows "\<exists>r s' L'. realloc_aligned (of_nat (q + 16)) bytes (2 ^ j) s = Some (Inr (r, s')) \<and> heap_ok s' L' \<and> ff_ok s' L'
    \<and> (if r = 0 then used_of (unat (heap_st s)) L' = U @ (q, n) # V \<and> payload s' = payload s
       else 2 ^ j dvd unat r \<and> bytes_at (payload s') r (n - 16) = bytes_at (payload s) (of_nat (q + 16)) (n - 16)
         \<and> (\<exists>U' V'. U @ V = U' @ V'
              \<and> used_of (unat (heap_st s)) L' = U' @ (unat r - 16, blk_bytes (blk_bytes (unat bytes))) # V'))"
proof -
  let ?k = "blk_bytes (unat bytes)"
  obtain A B where L: "L = A @ (n, False) # B" "q = unat (heap_st s) + extent A" "used_of (unat (heap_st s)) A = U"
    "used_of (q + n) B = V" using used_of_split [OF assms(3)] by blast
  have ok: "heap_ok s (A @ (n, False) # B)" and ff: "ff_ok s (A @ (n, False) # B)" using assms(1,2) L(1) by simp_all
  note at = heap_ok_at [OF ok L(2)] and nx = heap_ok_next [OF ok L(2)]
  have k: "?k \<le> unat bytes + 31" by (rule blk_bytes_facts(4))
  have nz: "(of_nat (q + 16) :: u64) \<noteq> 0" "(of_nat (q + 16) :: u64) - 16 = of_nat q"
    using at(2,7) of_nat_ptr_inj [of "q + 16" 0] by (simp_all add: of_nat_add)
  have uk: "unat (of_nat ?k :: u64) = ?k" using k assms(5) by (simp add: unat_of_nat take_bit_eq_mod)
  have "ucast (of_nat n :: u32) < (of_nat ?k :: u64)"
    using assms(4) at(4) uk by (simp add: ucast_size word_less_nat_alt unat_of_nat take_bit_eq_mod)
  then have g: "realloc_aligned (of_nat (q + 16)) bytes (2 ^ j) s = realloc_grow (of_nat q) (of_nat (q + n)) (of_nat ?k) (2 ^ j) s"
    using nz at(1) blk_valid [OF at(1)] nx(2) round_bytes_of [of bytes] assms(5) by (simp add: realloc_aligned_def Let_def)
  obtain s1 B1 where s1: "realloc_grow (of_nat q) (of_nat (q + n)) (of_nat ?k) (2 ^ j) s = realloc_move (of_nat q) (of_nat ?k) (2 ^ j) s1"
    "heap_ok s1 (A @ (n, False) # B1)" "ff_ok s1 (A @ (n, False) # B1)" "used_of (q + n) B1 = used_of (q + n) B" "same_frame s s1"
    using realloc_grow_moves [OF ok ff L(2)] by blast
  have fr: "heap_st s1 = heap_st s" "heap_en s1 = heap_en s" "payload s1 = payload s" using s1(5) by (simp_all add: same_frame_def)
  have b: "(of_nat ?k :: u64) \<noteq> 0" "j < 64" "unat (of_nat ?k :: u64) + 31 + 2 ^ j \<le> 18446744073709551616"
    "unat (heap_en s1) + 16 + 2 ^ j \<le> 18446744073709551616"
    using uk k assms(5-7) fr small_power [of j] blk_bytes_facts(1) [of "unat bytes"] by (auto simp: word_unat_eq_iff)
  have q1: "q = unat (heap_st s1) + extent A" using L(2) fr by simp
  obtain r s' L' where r: "realloc_move (of_nat q) (of_nat ?k) (2 ^ j) s1 = Some (Inr (r, s'))" "heap_ok s' L'" "ff_ok s' L'"
    and post: "if r = 0 then used_of (unat (heap_st s)) L' = used_of (unat (heap_st s)) (A @ (n, False) # B1) \<and> payload s' = payload s
       else 16 \<le> unat r \<and> 2 ^ j dvd unat r
         \<and> payload s' = store_bytes (payload s) r (bytes_at (payload s) (of_nat (q + 16)) (n - 16))
         \<and> (\<exists>U V. used_of (unat (heap_st s)) A @ used_of (q + n) B1 = U @ V
               \<and> used_of (unat (heap_st s)) L' = U @ (unat r - 16, blk_bytes ?k) # V)"
    using realloc_move_ok [OF s1(2,3) q1 b] unfolding fr uk by blast
  have "bytes_at (store_bytes (payload s) r (bytes_at (payload s) (of_nat (q + 16)) (n - 16))) r (n - 16)
      = bytes_at (payload s) (of_nat (q + 16)) (n - 16)"
    using bytes_at_store_bytes [of "bytes_at (payload s) (of_nat (q + 16)) (n - 16)" "payload s" r] at(7) by simp
  then show ?thesis using g s1(1,4) r post L(2-4) by (intro exI [of _ r] exI [of _ s'] exI [of _ L']) auto
qed

text \<open>The same heap with a block of 32 bytes in use.\<close>

definition demo_used :: boot_heap where
  "demo_used = \<lparr> hdr = (\<lambda>_. blk_of 0 0 False)(0x1000 := blk_of 0x1000 32 False, 0x1020 := blk_of 0x1020 0xFD0 True,
     0x1FF0 := blk_of 0x1FF0 0 False), payload = (\<lambda>_. 0), heap_st = 0x1000, heap_en = 0x1FF0,
     first_free = 0x1000, heap_free = 0 \<rparr>"

theorem realloc_grow_correct_witness:
  "\<exists>r s' L'. realloc_aligned 0x1010 100 16 demo_used = Some (Inr (r, s')) \<and> heap_ok s' L'"
proof -
  have "heap_ok demo_used [(32, False), (0xFD0, True)]" by (simp add: heap_ok_def demo_used_def)
  moreover have "ff_ok demo_used [(32, False), (0xFD0, True)]"
    using ff_okI [of "[]" demo_used "[(32, False), (0xFD0, True)]"] by (simp add: demo_used_def)
  ultimately show ?thesis
    using realloc_grow_correct [of demo_used "[(32, False), (0xFD0, True)]" "[]" 4096 32 "[]" 100 4]
    by (auto simp: demo_used_def blk_bytes_def)
qed

text \<open>
  A heap of two blocks, in use and free, on which the search has lost the block where it started.
\<close>

definition search_lost :: "ptr \<Rightarrow> boot_heap \<Rightarrow> bool" where
  "search_lost blk s \<longleftrightarrow> blk \<in> {4096, 4128, 8176} \<and> heap_st s = 4096 \<and> first_free s = 4128
     \<and> hdr s 4096 = blk_of 4096 32 False \<and> hdr s 4128 = blk_of 4128 4048 True \<and> hdr s 8176 = blk_of 8176 0 False"

lemmas heap_eval = Let_def new_blk_def make_valid_def set_sig_def set_size_def make_invalid_def
  blk_invalid_def round_bytes_def next_blk_def malloc_try_def align_adj_def malloc_take_def blk_of_def
  boot_malloc_def malloc_aligned_def boot_free_def boot_realloc_def realloc_aligned_def realloc_shrink_def

lemmas loop_eval = malloc_loop.simps [of _ _ _ 4096] malloc_loop.simps [of _ _ _ 4368] malloc_loop.simps [of _ _ _ 4640]
  malloc_loop.simps [of _ _ _ 8176] malloc_coalesce.simps

lemma search_lost_step:
  assumes "search_lost blk s"
  shows "\<exists>blk'. search_lost blk' s \<and> blk' \<noteq> 4368 \<and> \<not> blk_invalid (next_blk blk s) s
    \<and> (\<exists>nx. malloc_coalesce blk (next_blk blk s) s = Some (nx, s) \<and> malloc_try 8208 16 blk s = (None, s)
        \<and> blk' = (if 0 < b_size (hdr s blk) then nx else heap_st s))"
proof -
  from assms consider "blk = 4096" | "blk = 4128" | "blk = 8176" by (auto simp: search_lost_def)
  then show ?thesis
    using assms
    by cases (auto simp: search_lost_def heap_eval malloc_coalesce.simps)
qed

lemma search_lost_forever:
  "malloc_loop start bytes al blk s = Some r \<Longrightarrow> start = 4368 \<longrightarrow> bytes = 8208 \<longrightarrow> al = 16 \<longrightarrow> \<not> search_lost blk s"
proof (erule malloc_loop.raw_induct [rotated], intro impI notI)
  fix f :: "ptr \<Rightarrow> u64 \<Rightarrow> u64 \<Rightarrow> ptr \<Rightarrow> boot_heap \<Rightarrow> (heap_panic + ptr \<times> boot_heap) option" and start bytes al blk s r
  assume IH: "\<And>start bytes al blk s r. f start bytes al blk s = Some r \<Longrightarrow>
      start = 4368 \<longrightarrow> bytes = 8208 \<longrightarrow> al = 16 \<longrightarrow> \<not> search_lost blk s"
    and args: "start = 4368" "bytes = 8208" "al = 16" and lost: "search_lost blk s"
    and eq: "(if blk_invalid (next_blk blk s) s then Some (Inl Corrupt_header)
     else do {
       (next, s) \<leftarrow> malloc_coalesce blk (next_blk blk s) s;
       case malloc_try bytes al blk s of
         (None, s) \<Rightarrow>
           (let blk = (if 0 < b_size (hdr s blk) then next else heap_st s)
            in if blk \<noteq> start then f start bytes al blk s
               else Some (Inr (0, s)))
       | (Some p, s) \<Rightarrow> Some (Inr (p, s)) }) = Some r"
  obtain blk' nx where n: "search_lost blk' s" "blk' \<noteq> 4368" "\<not> blk_invalid (next_blk blk s) s"
    "malloc_coalesce blk (next_blk blk s) s = Some (nx, s)" "malloc_try 8208 16 blk s = (None, s)"
    "blk' = (if 0 < b_size (hdr s blk) then nx else heap_st s)" using search_lost_step [OF lost] by blast
  have "f start bytes al blk' s = Some r"
    using eq n(2-6) args by (simp add: Let_def split: if_splits)
  then show False using IH args n(1) by blast
qed


declare of_nat_add [simp]

end
