(* ===== verification/Physmap.thy ===== *)
theory Physmap
  imports Dgos_Prelude "HOL-Library.Multiset"
begin

text \<open>
  The physical memory map of the boot loader (boot/physmap.cc and boot/include/physmem_data.h): an
  array of address ranges sorted by base, with its range allocator.  The array is a function from
  indices, so the slots past \<open>physalloc_count\<close> keep their stale contents, as in memory.  A failing
  \<^verbatim>\<open>assert\<close> of the boot loader only prints, so it is no branch of the model.  \<open>None\<close> is a panic or an
  access outside the array.  The heap is represented by \<open>room\<close>, the number of entries for which
  \<^verbatim>\<open>realloc\<close> still succeeds.
\<close>

section \<open>Ranges\<close>

record physmem_range_t =
  r_base :: u64
  r_size :: u64
  r_type :: u32
  r_valid :: u32

abbreviation (input) NORMAL :: u32 where "NORMAL \<equiv> 1"
abbreviation (input) UNUSABLE :: u32 where "UNUSABLE \<equiv> 2"
abbreviation (input) ALLOCATED :: u32 where "ALLOCATED \<equiv> 6"
abbreviation (input) NORMAL_2M :: u32 where "NORMAL_2M \<equiv> 8"
abbreviation (input) NORMAL_1G :: u32 where "NORMAL_1G \<equiv> 9"

definition r_end :: "physmem_range_t \<Rightarrow> u64" where
  "r_end r = r_base r + r_size r"

definition set_end :: "u64 \<Rightarrow> physmem_range_t \<Rightarrow> physmem_range_t" where
  "set_end en r = r\<lparr> r_size := en - r_base r \<rparr>"

definition set_start :: "u64 \<Rightarrow> physmem_range_t \<Rightarrow> physmem_range_t" where
  "set_start start r = r\<lparr> r_size := r_size r + (r_base r - start), r_base := start \<rparr>"

definition is_normal :: "physmem_range_t \<Rightarrow> bool" where
  "is_normal r \<longleftrightarrow> r_type r = NORMAL \<or> r_type r = NORMAL_1G \<or> r_type r = NORMAL_2M"

definition mk_range :: "u64 \<Rightarrow> u64 \<Rightarrow> u32 \<Rightarrow> physmem_range_t" where
  "mk_range b n t = \<lparr> r_base = b, r_size = n, r_type = t, r_valid = 1 \<rparr>"

record boot_phys_alloc_t =
  a_base :: u64
  a_size :: u64

definition phys_block :: "u64 \<Rightarrow> u64 \<Rightarrow> boot_phys_alloc_t" where
  "phys_block b n = \<lparr> a_base = b, a_size = n \<rparr>"

definition a_end :: "boot_phys_alloc_t \<Rightarrow> u64" where
  "a_end a = a_base a + a_size a"

record physmap =
  ranges :: "nat \<Rightarrow> physmem_range_t"
  physalloc_count :: nat
  physalloc_capacity :: nat
  physalloc_20bit_st :: u32
  physalloc_64bit_st :: u32
  physalloc_20bit_1st :: u32
  physmap_top :: u64
  room :: nat

definition no_ranges :: "nat \<Rightarrow> physmap" where
  "no_ranges n = \<lparr> ranges = (\<lambda>_. \<lparr> r_base = 0, r_size = 0, r_type = 0, r_valid = 0 \<rparr>), physalloc_count = 0,
     physalloc_capacity = 0, physalloc_20bit_st = 0, physalloc_64bit_st = 0, physalloc_20bit_1st = 0, physmap_top = 0,
     room = n \<rparr>"

definition upd_range :: "nat \<Rightarrow> (physmem_range_t \<Rightarrow> physmem_range_t) \<Rightarrow> physmap \<Rightarrow> physmap" where
  "upd_range i f s = s\<lparr> ranges := (ranges s)(i := f (ranges s i)) \<rparr>"

fun freespace_loop :: "nat \<Rightarrow> nat \<Rightarrow> physmap \<Rightarrow> u64 \<Rightarrow> u64" where
  "freespace_loop 0 i s tot = tot"
| "freespace_loop (Suc n) i s tot =
    freespace_loop n (Suc i) s (tot + (if is_normal (ranges s i) then r_size (ranges s i) else 0))"

definition physmap_check_freespace :: "physmap \<Rightarrow> u64" where
  "physmap_check_freespace s = freespace_loop (physalloc_count s) 0 s 0"

definition physmap_get :: "physmap \<Rightarrow> nat \<times> (nat \<Rightarrow> physmem_range_t)" where
  "physmap_get s = (physalloc_count s, ranges s)"

definition physmap_top_addr :: "physmap \<Rightarrow> u64" where
  "physmap_top_addr s = physmap_top s"

section \<open>The array\<close>

definition bool_word :: "bool \<Rightarrow> u32" where
  "bool_word b = (if b then 1 else 0)"

definition physmap_realloc :: "nat \<Rightarrow> physmap \<Rightarrow> physmap option" where
  "physmap_realloc capacity_hint s =
    (let capacity_hint = (if capacity_hint < 32 then 32 else capacity_hint)
     in if room s < capacity_hint then None else Some (s\<lparr> physalloc_capacity := capacity_hint \<rparr>))"

definition physmap_grow :: "physmap \<Rightarrow> physmap option" where
  "physmap_grow s = physmap_realloc (physalloc_capacity s * 2) s"

text \<open>For an index past the entries \<open>physmap_delete\<close> prints the failed assertion and goes on: the length of its
  \<^verbatim>\<open>memmove\<close> then wraps around, so it runs outside the array.  That access is the \<open>None\<close> of the model.\<close>

definition physmap_delete :: "nat \<Rightarrow> physmap \<Rightarrow> physmap option" where
  "physmap_delete index s =
    (if index < physalloc_count s then
       let s = s\<lparr> physalloc_64bit_st := physalloc_64bit_st s - bool_word (index < unat (physalloc_64bit_st s)) \<rparr>;
           s = s\<lparr> physalloc_20bit_1st := physalloc_20bit_1st s - bool_word (index < unat (physalloc_20bit_st s)) \<rparr>;
           s = s\<lparr> physalloc_20bit_st := physalloc_20bit_st s - bool_word (index < unat (physalloc_20bit_st s)) \<rparr>;
           s = s\<lparr> physalloc_count := physalloc_count s - 1 \<rparr>
       in Some (s\<lparr> ranges := (\<lambda>k. if index \<le> k \<and> k < physalloc_count s then ranges s (Suc k) else ranges s k) \<rparr>)
     else None)"

definition physmap_insert_at :: "nat \<Rightarrow> physmem_range_t \<Rightarrow> physmap \<Rightarrow> physmap option" where
  "physmap_insert_at index entry s =
    (if index \<le> physalloc_count s then do {
       s \<leftarrow> (if physalloc_capacity s \<le> physalloc_count s + 1 then physmap_grow s else Some s);
       let s = s\<lparr> ranges := (\<lambda>k. if index < k \<and> k \<le> physalloc_count s then ranges s (k - 1) else ranges s k) \<rparr>;
       let s = s\<lparr> ranges := (ranges s)(index := entry) \<rparr>;
       let s = s\<lparr> physalloc_count := physalloc_count s + 1 \<rparr>;
       let s = s\<lparr> physalloc_20bit_st := physalloc_20bit_st s + bool_word (r_base entry < 0x100000) \<rparr>;
       let s = s\<lparr> physalloc_20bit_1st := physalloc_20bit_1st s + bool_word (r_base entry < 0x100000) \<rparr>;
       Some (s\<lparr> physalloc_64bit_st := physalloc_64bit_st s + bool_word (r_base entry < 0x100000000) \<rparr>) }
     else None)"

function search_loop :: "physmap \<Rightarrow> u64 \<Rightarrow> nat \<Rightarrow> nat \<Rightarrow> nat" where
  "search_loop s b st en =
    (if st < en then
       let mid = (en - st) div 2 + st
       in search_loop s b (if r_base (ranges s mid) < b then mid + 1 else st) (if r_base (ranges s mid) < b then en else mid)
     else st)"
  by pat_completeness auto
termination
  by (relation "measure (\<lambda>(s, b, st, en). en - st)") auto

declare search_loop.simps [simp del]

definition physmap_find_insertion_point :: "u64 \<Rightarrow> physmap \<Rightarrow> nat" where
  "physmap_find_insertion_point b s =
    (if physalloc_count s = 0
        \<or> r_base (ranges s (physalloc_count s - 1)) + r_size (ranges s (physalloc_count s - 1)) \<le> b
     then physalloc_count s
     else search_loop s b 0 (physalloc_count s))"

section \<open>Validation\<close>

datatype map_error = Not_sorted | Same_base | Overlap | Uncoalesced | Wrong_20bit_st | Wrong_64bit_st
  | Misaligned_base | Misaligned_size

definition validate_pair :: "physmem_range_t \<Rightarrow> physmem_range_t \<Rightarrow> map_error option" where
  "validate_pair prev rng =
    (if r_base rng < r_base prev then Some Not_sorted
     else if r_base prev = r_base rng then Some Same_base
     else if r_base rng < r_end prev then Some Overlap
     else None)"

definition validate_entry :: "nat \<Rightarrow> physmap \<Rightarrow> map_error option" where
  "validate_entry i s =
    (let rng = ranges s i
     in if i < unat (physalloc_20bit_st s) \<and> 0x100000 \<le> r_base rng then Some Wrong_20bit_st
        else if i < unat (physalloc_64bit_st s) \<and> 0x100000000 \<le> r_base rng then Some Wrong_64bit_st
        else if is_normal rng \<and> r_base rng AND - 4096 \<noteq> r_base rng then Some Misaligned_base
        else if is_normal rng \<and> r_size rng AND - 4096 \<noteq> r_size rng then Some Misaligned_size
        else None)"

partial_function (option) map_validate_loop :: "bool \<Rightarrow> nat \<Rightarrow> physmap \<Rightarrow> (map_error option \<times> physmap) option" where
  "map_validate_loop fixup i s =
    (if i < physalloc_count s then
       (let prev = ranges s (i - 1); rng = ranges s i;
            err = (if 0 < i then validate_pair prev rng else None)
        in if err \<noteq> None then Some (err, s)
           else if 0 < i \<and> r_type prev = r_type rng \<and> r_end prev = r_base rng then
             if fixup then
               Option.bind (physmap_delete i (upd_range (i - 1) (\<lambda>p. p\<lparr> r_size := r_end rng - r_base p \<rparr>) s))
                 (\<lambda>s. map_validate_loop fixup i s)
             else Some (Some Uncoalesced, s)
           else if validate_entry i s \<noteq> None then Some (validate_entry i s, s)
           else map_validate_loop fixup (Suc i) s)
     else Some (None, s))"

definition physmap_validate :: "bool \<Rightarrow> physmap \<Rightarrow> (map_error option \<times> physmap) option" where
  "physmap_validate fixup s = map_validate_loop fixup 0 s"

definition physmap_insert :: "physmem_range_t \<Rightarrow> bool \<Rightarrow> physmap \<Rightarrow> (nat \<times> physmap) option" where
  "physmap_insert entry validate s = do {
     let index = physmap_find_insertion_point (r_base entry) s;
     s \<leftarrow> physmap_insert_at index entry s;
     s \<leftarrow> (if validate then map_option snd (physmap_validate True s) else Some s);
     Some (index, s) }"

definition physmap_replace :: "nat \<Rightarrow> physmem_range_t \<Rightarrow> physmap \<Rightarrow> (nat \<times> physmap) option" where
  "physmap_replace index entry s = do { s \<leftarrow> physmap_delete index s; physmap_insert entry True s }"

section \<open>Allocating one page\<close>

definition high_take :: "nat \<Rightarrow> physmap \<Rightarrow> (boot_phys_alloc_t \<times> physmap) option" where
  "high_take i s =
    (let rng = ranges s (i - 1);
         taken_en = r_end rng;
         taken_st = taken_en - 4096
     in if i < physalloc_count s \<and> r_base (ranges s i) = r_end rng \<and> r_type (ranges s i) = ALLOCATED
        then Some (phys_block taken_st 4096, upd_range i (set_start taken_st) (upd_range (i - 1) (set_end taken_st) s))
        else do {
          s \<leftarrow> physmap_insert_at i (mk_range taken_st 4096 ALLOCATED) (upd_range (i - 1) (set_end taken_st) s);
          Some (phys_block taken_st 4096, s) })"

fun alloc_high_loop :: "nat \<Rightarrow> physmap \<Rightarrow> (boot_phys_alloc_t \<times> physmap) option" where
  "alloc_high_loop 0 s = None"
| "alloc_high_loop (Suc i) s = (if r_type (ranges s i) \<noteq> NORMAL then alloc_high_loop i s else high_take (Suc i) s)"

definition alloc_high :: "physmap \<Rightarrow> (boot_phys_alloc_t \<times> physmap) option" where
  "alloc_high s = alloc_high_loop (physalloc_count s) s"

section \<open>Freeing\<close>

definition free_search :: "boot_phys_alloc_t \<Rightarrow> physmap \<Rightarrow> nat" where
  "free_search freed s =
    (let st = search_loop s (a_base freed) (unat (physalloc_20bit_1st s)) (unat (physalloc_64bit_st s))
     in if 0 < st \<and> a_base freed < r_base (ranges s st) then st - 1 else st)"

definition punch_hole :: "nat \<Rightarrow> boot_phys_alloc_t \<Rightarrow> physmap \<Rightarrow> physmap option" where
  "punch_hole st freed s = do {
     let after = mk_range (a_end freed) (r_end (ranges s st) - a_end freed) ALLOCATED;
     let s = upd_range st (\<lambda>b. b\<lparr> r_size := a_base freed - r_base b \<rparr>) s;
     s \<leftarrow> physmap_insert_at (st + 1) (mk_range (a_base freed) (a_size freed) NORMAL) s;
     physmap_insert_at (st + 2) after s }"

definition free_insert :: "nat \<Rightarrow> boot_phys_alloc_t \<Rightarrow> physmap \<Rightarrow> physmap option" where
  "free_insert st freed s =
    (let prev_en = (if 0 < st \<and> st < physalloc_count s then r_end (ranges s (st - 1)) else 0);
         next_st = (if st < physalloc_count s then r_base (ranges s st) else - 1);
         adjacent_to_prev = (0 < st \<and> st < physalloc_count s \<and> r_type (ranges s (st - 1)) = NORMAL \<and> prev_en = a_base freed);
         adjacent_to_next = (st < physalloc_count s \<and> a_end freed = next_st \<and> r_type (ranges s st) = NORMAL)
     in if adjacent_to_prev \<and> \<not> adjacent_to_next then
          Some (upd_range (st - 1) (\<lambda>b. b\<lparr> r_size := r_size b + a_size freed \<rparr>) s)
        else if \<not> adjacent_to_prev \<and> adjacent_to_next then
          Some (upd_range st (\<lambda>b. b\<lparr> r_base := r_base b - a_size freed, r_size := r_size b + a_size freed \<rparr>) s)
        else if adjacent_to_prev \<and> adjacent_to_next then
          physmap_delete st (upd_range (st - 1) (\<lambda>b. b\<lparr> r_size := r_size b + a_size freed \<rparr>) s)
        else physmap_insert_at st (mk_range (a_base freed) (a_size freed) NORMAL) s)"

definition free_finish :: "nat \<Rightarrow> boot_phys_alloc_t \<Rightarrow> physmap \<Rightarrow> physmap option" where
  "free_finish st freed s = do {
     s \<leftarrow> free_insert st freed s;
     map_option snd (physmap_validate False s) }"

definition free_phys :: "boot_phys_alloc_t \<Rightarrow> physmap \<Rightarrow> physmap option" where
  "free_phys freed s =
    (let freed = freed\<lparr> a_size := (a_size freed + (4096 - 1)) AND - 4096 \<rparr>;
         st = free_search freed s;
         block = ranges s st;
         found = (st < physalloc_count s \<and> r_type block = ALLOCATED)
     in if found \<and> r_base block = a_base freed \<and> r_size block = a_size freed then
          Option.bind (physmap_delete st s) (free_finish st freed)
        else if found \<and> r_end block = a_end freed then
          free_finish st freed (upd_range st (\<lambda>b. b\<lparr> r_size := a_base freed - r_base b \<rparr>) s)
        else if found \<and> r_base block = a_base freed then
          free_finish st freed (upd_range st (\<lambda>b. b\<lparr> r_size := r_size b - a_size freed, r_base := r_base b + a_size freed \<rparr>) s)
        else if found \<and> r_base block < a_base freed \<and> a_end freed < r_base block + r_size block then
          punch_hole st freed s
        else free_finish st freed s)"

section \<open>Allocating\<close>

definition realign_of :: "u64 \<Rightarrow> u64 \<Rightarrow> physmem_range_t \<Rightarrow> u64" where
  "realign_of sz for_addr entry1 =
    (if 0x4000 \<le> sz then (if for_addr \<noteq> 0 then (for_addr - r_base entry1) AND 0x3000 else 0) else 0)"

partial_function (option) absorb_loop :: "nat \<Rightarrow> physmap \<Rightarrow> physmap option" where
  "absorb_loop i s =
    (if i < physalloc_count s \<and> r_type (ranges s (i - 1)) = r_type (ranges s i)
        \<and> r_end (ranges s (i - 1)) = r_base (ranges s i)
     then Option.bind (physmap_delete i (upd_range (i - 1) (\<lambda>p. p\<lparr> r_size := r_size p + r_size (ranges s i) \<rparr>) s))
       (absorb_loop i)
     else Some s)"

text \<open>The previous entry is allocated and reaches the free one; no result means to keep looking.\<close>

definition alloc_extend :: "nat \<Rightarrow> u64 \<Rightarrow> u64 \<Rightarrow> bool \<Rightarrow> physmap \<Rightarrow> (u64 \<times> physmap) option option" where
  "alloc_extend i sz realign insist s =
    (let entry1 = ranges s i
     in if sz < r_size entry1 then
          Some (Some (sz - realign,
            upd_range i (\<lambda>e. e\<lparr> r_base := r_base e + sz, r_size := r_size e - sz \<rparr>)
              (upd_range (i - 1) (\<lambda>p. p\<lparr> r_size := r_size p + sz \<rparr>) s)))
        else if insist then Some None
        else do {
          s \<leftarrow> physmap_delete i (upd_range (i - 1) (\<lambda>p. p\<lparr> r_size := r_size p + r_size entry1 \<rparr>) s);
          s \<leftarrow> absorb_loop i s;
          Some (Some (r_size entry1 - realign, s)) })"

definition alloc_split :: "nat \<Rightarrow> u64 \<Rightarrow> u64 \<Rightarrow> physmap \<Rightarrow> (u64 \<times> physmap) option" where
  "alloc_split i sz realign s = do {
     let entry1 = ranges s i;
     (n, s) \<leftarrow> (if sz < r_size entry1 then do {
         s \<leftarrow> physmap_insert_at (i + 1) (mk_range (r_base entry1 + sz) (r_size entry1 - sz) NORMAL)
            (upd_range i (\<lambda>e. e\<lparr> r_size := sz, r_type := ALLOCATED \<rparr>) s);
         Some (sz - realign, s) }
       else Some (r_size entry1 - realign, upd_range i (\<lambda>e. e\<lparr> r_type := ALLOCATED \<rparr>) s));
     Some (n, s\<lparr> physalloc_20bit_1st := of_nat (i + 1) \<rparr>) }"

fun alloc_phys_loop :: "nat \<Rightarrow> nat \<Rightarrow> u64 \<Rightarrow> u64 \<Rightarrow> bool \<Rightarrow> boot_phys_alloc_t \<Rightarrow> boot_phys_alloc_t \<Rightarrow> physmap
    \<Rightarrow> (boot_phys_alloc_t \<times> boot_phys_alloc_t \<times> physmap) option" where
  "alloc_phys_loop 0 i sz for_addr insist result unwanted s = Some (result, unwanted, s)"
| "alloc_phys_loop (Suc n) i sz for_addr insist result unwanted s =
    (let entry1 = ranges s i; realign = realign_of sz for_addr entry1
     in if r_type entry1 \<noteq> NORMAL \<or> r_size entry1 \<le> realign
        then alloc_phys_loop n (Suc i) sz for_addr insist result unwanted s
        else let sz = sz + realign;
                 result = result\<lparr> a_base := r_base entry1 + realign \<rparr>;
                 unwanted = phys_block (r_base entry1) realign;
                 prev = ranges s (i - 1)
             in if 0 < i \<and> r_type prev = ALLOCATED \<and> r_end prev = r_base entry1 then
                  Option.bind (alloc_extend i sz realign insist s)
                    (\<lambda>r. case r of
                       None \<Rightarrow> alloc_phys_loop n (Suc i) sz for_addr insist result unwanted s
                     | Some (m, s) \<Rightarrow> Some (result\<lparr> a_size := m \<rparr>, unwanted, s))
                else do {
                  (m, s) \<leftarrow> alloc_split i sz realign s;
                  Some (result\<lparr> a_size := m \<rparr>, unwanted, s) })"

definition alloc_phys :: "u64 \<Rightarrow> u64 \<Rightarrow> bool \<Rightarrow> physmap \<Rightarrow> (boot_phys_alloc_t \<times> physmap) option" where
  "alloc_phys sz for_addr insist s =
    (if sz \<le> 4096 then alloc_high s
     else do {
       let sz = (sz + 4095) AND - 4096;
       let s = (if physalloc_20bit_1st s = 0 then s\<lparr> physalloc_20bit_1st := physalloc_20bit_st s \<rparr> else s);
       let i = unat (physalloc_20bit_1st s);
       (result, unwanted, s) \<leftarrow> alloc_phys_loop (unat (physalloc_64bit_st s) - i) i sz for_addr insist
          (phys_block 0 0) (phys_block 0 0) s;
       s \<leftarrow> map_option snd (physmap_validate False s);
       s \<leftarrow> (if a_size unwanted \<noteq> 0 then free_phys unwanted s else Some s);
       Some (result, s) })"

section \<open>Taking a range\<close>

partial_function (option) bulldoze :: "nat \<Rightarrow> u64 \<Rightarrow> physmap \<Rightarrow> physmap option" where
  "bulldoze index en s =
    (if index < physalloc_count s \<and> r_end (ranges s index) \<le> en
     then Option.bind (physmap_delete index s) (bulldoze index en)
     else Some s)"

definition take_prev :: "nat \<Rightarrow> u64 \<Rightarrow> physmap \<Rightarrow> (nat \<times> physmap) option" where
  "take_prev index b s = do {
     let s = upd_range (index - 1) (\<lambda>p. p\<lparr> r_size := b - r_base p \<rparr>) s;
     if r_size (ranges s (index - 1)) = 0 then do {
       s \<leftarrow> physmap_delete (index - 1) s;
       Some (index - 1, s) }
     else Some (index, s) }"

definition physmap_take_range :: "u64 \<Rightarrow> u64 \<Rightarrow> u32 \<Rightarrow> physmap \<Rightarrow> (nat \<times> physmap) option" where
  "physmap_take_range b sz ty s = do {
     let en = b + sz;
     let index = physmap_find_insertion_point b s;
     s \<leftarrow> bulldoze index en s;
     let s = (if r_base (ranges s index) < en then upd_range index (set_start en) s else s);
     let entry = mk_range b sz ty;
     if 0 < index then do {
       let prev_end = r_end (ranges s (index - 1));
       if prev_end < en then do {
         (index, s) \<leftarrow> take_prev index b s;
         s \<leftarrow> physmap_insert_at index entry s;
         Some (index, s) }
       else do {
         let prev = index - 1;
         (index, s) \<leftarrow> take_prev index b s;
         s \<leftarrow> (if en - prev_end \<noteq> 0
                then physmap_insert_at index (mk_range en (en - prev_end) (r_type (ranges s prev))) s else Some s);
         s \<leftarrow> physmap_insert_at index entry s;
         Some (index, s) } }
     else do {
       s \<leftarrow> physmap_insert_at index entry s;
       Some (index, s) } }"

section \<open>Large pages\<close>

text \<open>\<^verbatim>\<open>uintptr_t\<close> is narrower than the \<^verbatim>\<open>uint64_t\<close> of the entries in one of the two builds of this file: it has 32 bits in
  the BIOS loader and 64 bits in the EFI loader.  Its width is the type variable \<open>'w\<close>.\<close>

definition round_up :: "'w::len word \<Rightarrow> 'w word \<Rightarrow> 'w word" where
  "round_up n align = (n + (align - 1)) AND - align"

definition round_dn :: "'w::len word \<Rightarrow> 'w word \<Rightarrow> 'w word" where
  "round_dn n align = n AND - align"

definition oneGB :: "'w::len word" where "oneGB = push_bit 30 1"

definition twoMB :: "'w::len word" where "twoMB = push_bit 21 1"

partial_function (option) align_normal_loop :: "nat \<Rightarrow> physmap \<Rightarrow> physmap option" where
  "align_normal_loop i s =
    (if i < physalloc_count s then
       let rng = ranges s i;
           st = (r_base rng + (4096 - 1)) AND - 4096;
           en = r_end rng AND - 4096
       in if r_type rng \<noteq> NORMAL then align_normal_loop (Suc i) s
          else if r_base rng \<noteq> st \<or> r_end rng \<noteq> en then
            if st < en then align_normal_loop (Suc i) (upd_range i (\<lambda>r. r\<lparr> r_base := st, r_size := en - st \<rparr>) s)
            else Option.bind (physmap_delete i s) (align_normal_loop i)
          else align_normal_loop (Suc i) s
     else Some s)"

definition physmap_align_normal :: "physmap \<Rightarrow> physmap option" where
  "physmap_align_normal s = align_normal_loop 0 s"

text \<open>The pieces of one free range, as base, size and type; an empty piece is not inserted.\<close>

definition split_pieces :: "'w::len word \<Rightarrow> 'w word \<Rightarrow> (u64 \<times> u64 \<times> u32) list" where
  "split_pieces A F =
    (let B = round_up A twoMB;
         E = round_dn F twoMB;
         C = round_up B oneGB;
         D = round_dn E oneGB
     in if C < D
        then [(ucast A, ucast (if B > A then B - A else 0), NORMAL), (ucast B, ucast (if C > B then C - B else 0), NORMAL_2M),
              (ucast C, ucast (if D > C then D - C else 0), NORMAL_1G), (ucast D, ucast (if E > D then E - D else 0), NORMAL_2M),
              (ucast E, ucast (if F > E then F - E else 0), NORMAL)]
        else [(ucast A, ucast (if B > A then B - A else 0), NORMAL), (ucast B, ucast (if E > B then E - B else 0), NORMAL_2M),
              (ucast C, 0, NORMAL_1G), (ucast D, 0, NORMAL_2M), (ucast E, ucast (if F > E then F - E else 0), NORMAL)])"

fun insert_pieces :: "(u64 \<times> u64 \<times> u32) list \<Rightarrow> nat \<Rightarrow> physmap \<Rightarrow> (nat \<times> physmap) option" where
  "insert_pieces [] i s = Some (i, s)"
| "insert_pieces ((b, n, t) # ps) i s =
    (if drop_bit 12 n \<noteq> 0
     then Option.bind (physmap_insert_at i (mk_range b n t) s) (insert_pieces ps (Suc i))
     else insert_pieces ps i s)"

partial_function (option) split_large_loop :: "'w::len itself \<Rightarrow> nat \<Rightarrow> physmap \<Rightarrow> physmap option" where
  "split_large_loop w i s =
    (if i < physalloc_count s then
       let rng = ranges s i; A = (ucast (r_base rng) :: 'w word); F = (ucast (r_end rng) :: 'w word)
       in if r_type rng \<noteq> NORMAL then split_large_loop w (Suc i) s
          else if round_dn F twoMB \<le> round_up A twoMB then split_large_loop w (Suc i) s
          else Option.bind (physmap_delete i s) (\<lambda>s.
            Option.bind (insert_pieces (split_pieces A F) i s) (\<lambda>(i, s). split_large_loop w i s))
     else Some s)"

definition physmap_split_large :: "'w::len itself \<Rightarrow> physmap \<Rightarrow> physmap option" where
  "physmap_split_large w s = split_large_loop w 0 s"

section \<open>Building the map\<close>

text \<open>The memory map call of the BIOS (INT 15h, AX = E820h) is a parameter: from the buffer and the continuation
  value in \<^verbatim>\<open>ebx\<close> to the buffer, \<^verbatim>\<open>ebx\<close>, \<^verbatim>\<open>eax\<close> and the carry flag after the call.\<close>

type_synonym bios = "physmem_range_t \<Rightarrow> u32 \<Rightarrow> physmem_range_t \<times> u32 \<times> u32 \<times> bool"

definition ah_if_carry :: "u32 \<Rightarrow> bool \<Rightarrow> u32" where
  "ah_if_carry eax flags_CF = (if flags_CF then drop_bit 8 eax AND 0xFF else 0)"

definition get_e820_region :: "bios \<Rightarrow> u32 \<Rightarrow> bool \<times> physmem_range_t \<times> u32" where
  "get_e820_region e820 continuation =
    (case e820 \<lparr> r_base = 0, r_size = 0, r_type = 0, r_valid = 1 \<rparr> continuation of
       (entry, ebx, eax, flags_CF) \<Rightarrow> (ah_if_carry eax flags_CF = 0, entry, ebx))"

partial_function (option) ram_regions_loop :: "bios \<Rightarrow> bool \<Rightarrow> u32 \<Rightarrow> physmap \<Rightarrow> physmap option" where
  "ram_regions_loop e820 first continuation s =
    (if continuation \<noteq> 0 \<or> first then
       case get_e820_region e820 continuation of (ok, entry, continuation) \<Rightarrow>
         if \<not> ok then Some s
         else if r_valid entry = 0 then ram_regions_loop e820 False continuation s
         else Option.bind (physmap_insert entry False s) (\<lambda>(index, s). ram_regions_loop e820 False continuation s)
     else Some s)"

definition get_ram_regions :: "bios \<Rightarrow> physmap \<Rightarrow> physmap option" where
  "get_ram_regions e820 s = ram_regions_loop e820 True 0 s"

partial_function (option) init_coalesce :: "nat \<Rightarrow> nat \<Rightarrow> physmap \<Rightarrow> physmap option" where
  "init_coalesce i cnt s =
    (if i < cnt then
       let prev = ranges s (i - 1); curr = ranges s i
       in if r_type prev \<noteq> r_type curr then init_coalesce (Suc i) cnt s
          else if r_end prev = r_base curr then
            Option.bind (physmap_delete i (upd_range (i - 1) (\<lambda>p. p\<lparr> r_size := r_size p + r_size curr \<rparr>) s))
              (init_coalesce i cnt)
          else init_coalesce (Suc i) cnt s
     else Some s)"

definition align_entry :: "physmem_range_t \<Rightarrow> physmem_range_t" where
  "align_entry r =
    (if r_type r \<noteq> NORMAL then r
     else let st = (r_base r + 4095) AND - 4096;
              en = (r_base r + r_size r) AND - 4096
          in if st < en then r\<lparr> r_base := st, r_size := en - st \<rparr> else r\<lparr> r_type := UNUSABLE \<rparr>)"

definition init_align :: "nat \<Rightarrow> physmap \<Rightarrow> physmap" where
  "init_align cnt s = s\<lparr> ranges := (\<lambda>k. if k < cnt then align_entry (ranges s k) else ranges s k) \<rparr>"

definition init_top :: "nat \<Rightarrow> physmap \<Rightarrow> physmap" where
  "init_top cnt s = s\<lparr> physmap_top :=
     fold (\<lambda>i top. if r_type (ranges s i) = NORMAL \<and> top < r_end (ranges s i) then r_end (ranges s i) else top) [0..<cnt] 0 \<rparr>"

definition fixup_top :: "physmap \<Rightarrow> physmap" where
  "fixup_top s = s\<lparr> physmap_top :=
     fold (\<lambda>i top. if r_valid (ranges s i) \<noteq> 0 \<and> top < r_end (ranges s i) then r_end (ranges s i) else top)
       [1..<physalloc_count s] (physmap_top s) \<rparr>"

text \<open>The current entry lies inside the previous one.\<close>

definition fixup_inside :: "nat \<Rightarrow> physmap \<Rightarrow> physmap option" where
  "fixup_inside i s =
    (let prev = ranges s (i - 1); curr = ranges s i
     in if r_type curr = NORMAL then physmap_delete i s
        else do {
          let entry1 = mk_range (r_base prev) (r_base curr - r_base prev) (r_type prev);
          let entry2 = mk_range (r_end curr) (r_end prev - r_end curr) (r_type prev);
          s \<leftarrow> physmap_delete i s;
          s \<leftarrow> physmap_delete (i - 1) s;
          s \<leftarrow> (if r_size entry1 \<noteq> 0 then map_option snd (physmap_insert entry1 True s) else Some s);
          (if r_size entry2 \<noteq> 0 then map_option snd (physmap_insert entry2 True s) else Some s) })"

definition fixup_align :: "physmem_range_t \<Rightarrow> physmem_range_t" where
  "fixup_align r =
    (let r = (if r_base r AND 4095 \<noteq> 0 then
                let adj = ((r_base r + 4096) AND - 4096) - r_base r
                in r\<lparr> r_base := r_base r + adj, r_size := r_size r - adj \<rparr>
              else r)
     in r\<lparr> r_size := r_size r AND - 4096 \<rparr>)"

text \<open>One pair of neighbours; the flag says whether the map was changed so that the scan restarts.\<close>

definition fixup_pair :: "nat \<Rightarrow> physmap \<Rightarrow> (bool \<times> physmap) option" where
  "fixup_pair i s =
    (let prev = ranges s (i - 1); curr = ranges s i;
         prev_end = r_end prev; curr_end = r_end curr;
         prev_normal = (r_type prev = NORMAL); curr_normal = (r_type curr = NORMAL)
     in if r_base prev \<le> r_base curr \<and> curr_end \<le> prev_end then map_option (Pair True) (fixup_inside i s)
        else if r_base curr < prev_end \<and> \<not> prev_normal \<and> curr_normal then
          map_option (\<lambda>(_, s). (True, s)) (physmap_replace i (mk_range prev_end (curr_end - prev_end) (r_type curr)) s)
        else if r_base curr < prev_end \<and> prev_normal \<and> \<not> curr_normal then
          map_option (\<lambda>(_, s). (True, s))
            (physmap_replace (i - 1) (mk_range (r_base prev) (r_base curr - r_base prev) (r_type prev)) s)
        else let s = (if prev_normal then upd_range (i - 1) fixup_align s else s);
                 s = (if curr_normal then upd_range i fixup_align s else s);
                 prev = ranges s (i - 1); curr = ranges s i
             in if r_size prev = 0 then map_option (Pair True) (physmap_delete (i - 1) s)
                else if r_size curr = 0 then map_option (Pair True) (physmap_delete i s)
                else if prev_normal \<and> curr_normal \<and> prev_end = r_base curr then do {
                  let entry1 = mk_range (r_base prev) (curr_end - r_base prev) (r_type prev);
                  s \<leftarrow> physmap_delete i s;
                  (_, s) \<leftarrow> physmap_replace (i - 1) entry1 s;
                  Some (True, s) }
                else Some (False, s))"

fun fixup_scan :: "nat \<Rightarrow> nat \<Rightarrow> physmap \<Rightarrow> (bool \<times> physmap) option" where
  "fixup_scan 0 i s = Some (False, s)"
| "fixup_scan (Suc n) i s = do {
     (did_something, s) \<leftarrow> fixup_pair i s;
     (if did_something then Some (True, s) else fixup_scan n (Suc i) s) }"

partial_function (option) fixup_loop :: "physmap \<Rightarrow> physmap option" where
  "fixup_loop s =
    Option.bind (fixup_scan (physalloc_count s - 1) 1 (fixup_top s))
      (\<lambda>(did_something, s). if did_something then fixup_loop s else Some s)"

definition physmap_init :: "bios \<Rightarrow> physmap \<Rightarrow> physmap option" where
  "physmap_init e820 s = do {
     s \<leftarrow> get_ram_regions e820 s;
     let cnt = physalloc_count s;
     s \<leftarrow> init_coalesce 1 cnt s;
     fixup_loop (init_top cnt (init_align cnt s)) }"

section \<open>The map as a list\<close>

definition entries :: "physmap \<Rightarrow> physmem_range_t list" where
  "entries s = map (ranges s) [0..<physalloc_count s]"

lemma length_entries [simp]: "length (entries s) = physalloc_count s"
  by (simp add: entries_def)

lemma nth_entries [simp]: "i < physalloc_count s \<Longrightarrow> entries s ! i = ranges s i"
  by (simp add: entries_def)

lemma entries_cong:
  "(\<And>k. k < physalloc_count s \<Longrightarrow> ranges s k = ranges s' k) \<Longrightarrow> physalloc_count s = physalloc_count s' \<Longrightarrow> entries s = entries s'"
  by (simp add: entries_def)

lemma entries_upd_range [simp]:
  "i < physalloc_count s \<Longrightarrow> entries (upd_range i f s) = (entries s)[i := f (ranges s i)]"
  by (rule nth_equalityI) (auto simp: upd_range_def nth_list_update entries_def)

text \<open>An update outside the array or of another field keeps the list.\<close>

lemma entries_20bit_1st [simp]: "entries (s\<lparr> physalloc_20bit_1st := w \<rparr>) = entries s"
  by (simp add: entries_def)

lemma upd_range_fields [simp]:
  "physalloc_count (upd_range i f s) = physalloc_count s" "physalloc_capacity (upd_range i f s) = physalloc_capacity s"
  "room (upd_range i f s) = room s" "physalloc_20bit_st (upd_range i f s) = physalloc_20bit_st s"
  "physalloc_64bit_st (upd_range i f s) = physalloc_64bit_st s" "physalloc_20bit_1st (upd_range i f s) = physalloc_20bit_1st s"
  "ranges (upd_range i f s) i = f (ranges s i)" "j \<noteq> i \<Longrightarrow> ranges (upd_range i f s) j = ranges s j"
  by (simp_all add: upd_range_def)

text \<open>The storage: the array has room for one more entry than it holds, once it exists.  \<open>m\<close> bounds the
  number of entries for which the heap has memory.\<close>

definition storage_ok :: "nat \<Rightarrow> physmap \<Rightarrow> bool" where
  "storage_ok m s \<longleftrightarrow> (physalloc_count s < physalloc_capacity s \<or> physalloc_count s = 0 \<and> physalloc_capacity s = 0)
     \<and> 2 * m + 32 \<le> room s \<and> m < 4294967295"

definition first_64 :: "physmap \<Rightarrow> nat" where
  "first_64 s = unat (physalloc_64bit_st s)"

definition below :: "u64 \<Rightarrow> physmem_range_t list \<Rightarrow> nat" where
  "below b es = length (filter (\<lambda>r. r_base r < b) es)"

definition counters_ok :: "physmap \<Rightarrow> bool" where
  "counters_ok s \<longleftrightarrow> physalloc_20bit_st s = of_nat (below 0x100000 (entries s))
     \<and> physalloc_64bit_st s = of_nat (below 0x100000000 (entries s))"

lemma below_append [simp]: "below b (xs @ ys) = below b xs + below b ys"
  by (simp add: below_def)

lemma below_simps [simp]: "below b [] = 0" "below b (r # rs) = (if r_base r < b then Suc (below b rs) else below b rs)"
  by (simp_all add: below_def)

lemma below_le: "below b es \<le> length es"
  by (simp add: below_def)

subsection \<open>Deleting and inserting an entry\<close>

lemma diff_eq_Suc_dest: "(a :: nat) - b = Suc c \<Longrightarrow> a = b + Suc c"
  by simp

lemma delete_spec:
  assumes "i < physalloc_count s"
  obtains s' where "physmap_delete i s = Some s'" "entries s' = take i (entries s) @ drop (Suc i) (entries s)"
    "physalloc_count s' = physalloc_count s - 1" "physalloc_capacity s' = physalloc_capacity s" "room s' = room s"
    "physalloc_64bit_st s' = physalloc_64bit_st s - bool_word (i < unat (physalloc_64bit_st s))"
    "physalloc_20bit_st s' = physalloc_20bit_st s - bool_word (i < unat (physalloc_20bit_st s))"
    "physalloc_20bit_1st s' = physalloc_20bit_1st s - bool_word (i < unat (physalloc_20bit_st s))"
    "ranges s' = (\<lambda>k. if i \<le> k \<and> k < physalloc_count s - 1 then ranges s (Suc k) else ranges s k)"
proof -
  obtain s' where s': "physmap_delete i s = Some s'" using assms by (simp add: physmap_delete_def Let_def)
  have f: "physalloc_count s' = physalloc_count s - 1" "physalloc_capacity s' = physalloc_capacity s" "room s' = room s"
    "physalloc_64bit_st s' = physalloc_64bit_st s - bool_word (i < unat (physalloc_64bit_st s))"
    "physalloc_20bit_st s' = physalloc_20bit_st s - bool_word (i < unat (physalloc_20bit_st s))"
    "physalloc_20bit_1st s' = physalloc_20bit_1st s - bool_word (i < unat (physalloc_20bit_st s))"
    "ranges s' = (\<lambda>k. if i \<le> k \<and> k < physalloc_count s - 1 then ranges s (Suc k) else ranges s k)"
    using s' assms by (auto simp: physmap_delete_def Let_def)
  have "entries s' = take i (entries s) @ drop (Suc i) (entries s)"
    by (rule nth_equalityI) (use assms f in \<open>auto simp: nth_append entries_def min_def\<close>)
  with that s' f show thesis by blast
qed

lemma insert_at_spec:
  assumes "i \<le> physalloc_count s" and "storage_ok m s" and "physalloc_count s < m"
  obtains s' where "physmap_insert_at i e s = Some s'" "entries s' = take i (entries s) @ e # drop i (entries s)"
    "physalloc_count s' = Suc (physalloc_count s)" "storage_ok m s'" "physmap_top s' = physmap_top s"
    "physalloc_64bit_st s' = physalloc_64bit_st s + bool_word (r_base e < 0x100000000)"
    "physalloc_20bit_st s' = physalloc_20bit_st s + bool_word (r_base e < 0x100000)"
    "physalloc_20bit_1st s' = physalloc_20bit_1st s + bool_word (r_base e < 0x100000)"
    "ranges s' = (\<lambda>k. if k = i then e else if i < k \<and> k \<le> physalloc_count s then ranges s (k - 1) else ranges s k)"
proof -
  have st: "2 * (Suc (physalloc_count s)) \<le> room s" "32 \<le> room s" using assms(2,3) by (auto simp: storage_ok_def)
  obtain s1 where s1: "(if physalloc_capacity s \<le> physalloc_count s + 1 then physmap_grow s else Some s) = Some s1"
    "entries s1 = entries s" "physalloc_count s1 = physalloc_count s" "Suc (physalloc_count s) < physalloc_capacity s1"
    "room s1 = room s" "physmap_top s1 = physmap_top s" "physalloc_64bit_st s1 = physalloc_64bit_st s"
    "physalloc_20bit_st s1 = physalloc_20bit_st s" "physalloc_20bit_1st s1 = physalloc_20bit_1st s" "ranges s1 = ranges s"
  proof (cases "physalloc_capacity s \<le> physalloc_count s + 1")
    case True
    then have "max 32 (physalloc_capacity s * 2) \<le> room s" "Suc (physalloc_count s) < max 32 (physalloc_capacity s * 2)"
      using st assms(2) by (auto simp: storage_ok_def)
    then show thesis using that [of "s\<lparr> physalloc_capacity := max 32 (physalloc_capacity s * 2) \<rparr>"] True
      by (auto simp: physmap_grow_def physmap_realloc_def Let_def entries_def max_def split: if_splits)
  next
    case False
    then show thesis using that [of s] by simp
  qed
  obtain s' where s': "physmap_insert_at i e s = Some s'" using assms(1) s1(1) by (simp add: physmap_insert_at_def)
  have f: "physalloc_count s' = Suc (physalloc_count s)" "physmap_top s' = physmap_top s"
    "physalloc_capacity s' = physalloc_capacity s1" "room s' = room s"
    "physalloc_64bit_st s' = physalloc_64bit_st s + bool_word (r_base e < 0x100000000)"
    "physalloc_20bit_st s' = physalloc_20bit_st s + bool_word (r_base e < 0x100000)"
    "physalloc_20bit_1st s' = physalloc_20bit_1st s + bool_word (r_base e < 0x100000)"
    "ranges s' = (\<lambda>k. if k = i then e else if i < k \<and> k \<le> physalloc_count s then ranges s (k - 1) else ranges s k)"
    using s' assms(1) s1 by (auto simp: physmap_insert_at_def Let_def)
  have "entries s' = take i (entries s) @ e # drop i (entries s)"
    by (rule nth_equalityI) (use assms(1) f in \<open>auto simp: nth_append min_def nth_Cons split: nat.splits dest!: diff_eq_Suc_dest\<close>)
  moreover have "storage_ok m s'" using assms(2) f s1(4) by (auto simp: storage_ok_def)
  ultimately show thesis using that s' f by blast
qed

lemma storage_ok_delete:
  "storage_ok m s \<Longrightarrow> i < physalloc_count s \<Longrightarrow> physmap_delete i s = Some s' \<Longrightarrow> storage_ok m s'"
  by (auto simp: physmap_delete_def Let_def storage_ok_def)

subsection \<open>The sorted insertion\<close>

definition base_sorted :: "nat \<Rightarrow> nat \<Rightarrow> physmap \<Rightarrow> bool" where
  "base_sorted lo hi s \<longleftrightarrow> (\<forall>i j. lo \<le> i \<and> i < j \<and> j < hi \<longrightarrow> r_base (ranges s i) \<le> r_base (ranges s j))"

definition splits_at :: "physmap \<Rightarrow> u64 \<Rightarrow> nat \<Rightarrow> nat \<Rightarrow> nat \<Rightarrow> nat \<Rightarrow> bool" where
  "splits_at s b lo p q hi \<longleftrightarrow> lo \<le> p \<and> p \<le> q \<and> q \<le> hi \<and> (\<forall>k. lo \<le> k \<and> k < p \<longrightarrow> r_base (ranges s k) < b)
     \<and> (\<forall>k. q \<le> k \<and> k < hi \<longrightarrow> b \<le> r_base (ranges s k))"

lemma search_loop_splits:
  "base_sorted lo hi s \<Longrightarrow> splits_at s b lo st en hi \<Longrightarrow>
    splits_at s b lo (search_loop s b st en) (search_loop s b st en) hi"
proof (induction s b st en rule: search_loop.induct)
  case (1 s b st en)
  show ?case
  proof (cases "st < en")
    case False
    then have "search_loop s b st en = st" by (subst search_loop.simps) simp
    then show ?thesis using "1.prems" False by (simp add: splits_at_def)
  next
    case True
    define mid where "mid = (en - st) div 2 + st"
    have m: "st \<le> mid" "mid < en" using True by (simp_all add: mid_def)
    let ?st = "if r_base (ranges s mid) < b then mid + 1 else st" and ?en = "if r_base (ranges s mid) < b then en else mid"
    have le: "r_base (ranges s i) \<le> r_base (ranges s j)" if "lo \<le> i" "i \<le> j" "j < hi" for i j
      using that "1.prems"(1) unfolding base_sorted_def by (cases "i = j") auto
    have mh: "lo \<le> mid" "mid < hi" using "1.prems"(2) m by (auto simp: splits_at_def)
    have "splits_at s b lo ?st ?en hi"
    proof (cases "r_base (ranges s mid) < b")
      case True
      then have "r_base (ranges s k) < b" if "lo \<le> k" "k < Suc mid" for k using le [of k mid] that mh by (simp add: less_Suc_eq_le)
      then show ?thesis using True "1.prems"(2) m by (simp add: splits_at_def)
    next
      case False
      then have "b \<le> r_base (ranges s k)" if "mid \<le> k" "k < hi" for k using le [of mid k] that mh by (simp add: not_less)
      then show ?thesis using False "1.prems"(2) m mh by (simp add: splits_at_def)
    qed
    then have "splits_at s b lo (search_loop s b ?st ?en) (search_loop s b ?st ?en) hi"
      by (intro "1.IH" [OF True mid_def "1.prems"(1)])
    moreover have "search_loop s b st en = search_loop s b ?st ?en"
      by (subst search_loop.simps) (simp add: True Let_def flip: mid_def)
    ultimately show ?thesis by simp
  qed
qed

definition no_wrap :: "physmem_range_t \<Rightarrow> bool" where
  "no_wrap r \<longleftrightarrow> unat (r_base r) + unat (r_size r) < 18446744073709551616"

lemma unat_r_end: "no_wrap r \<Longrightarrow> unat (r_end r) = unat (r_base r) + unat (r_size r)"
  by (simp add: no_wrap_def r_end_def unat_word_ariths)

lemma sorted_entries: "sorted (map r_base (entries s)) \<longleftrightarrow> base_sorted 0 (physalloc_count s) s"
  by (auto simp: sorted_wrt_iff_nth_less base_sorted_def)

lemma find_insertion_point_splits:
  fixes b :: u64
  assumes "sorted (map r_base (entries s))" and "\<forall>r\<in>set (entries s). no_wrap r"
  defines "p \<equiv> physmap_find_insertion_point b s"
  shows "p \<le> physalloc_count s" and "\<forall>r\<in>set (take p (entries s)). r_base r \<le> b" and "\<forall>r\<in>set (drop p (entries s)). b \<le> r_base r"
proof -
  let ?n = "physalloc_count s"
  have "p \<le> ?n \<and> (\<forall>k<p. r_base (ranges s k) \<le> b) \<and> (\<forall>k. p \<le> k \<and> k < ?n \<longrightarrow> b \<le> r_base (ranges s k))"
  proof (cases "?n = 0 \<or> r_base (ranges s (?n - 1)) + r_size (ranges s (?n - 1)) \<le> b")
    case True
    have "r_base (ranges s k) \<le> b" if k: "k < ?n" for k
    proof -
      have "ranges s (?n - 1) \<in> set (entries s)" using k by (simp add: entries_def)
      then have "no_wrap (ranges s (?n - 1))" using assms(2) by blast
      moreover have "r_end (ranges s (?n - 1)) \<le> b" using True k by (simp add: r_end_def)
      ultimately have "r_base (ranges s (?n - 1)) \<le> b" using unat_r_end by (force simp: word_le_nat_alt)
      moreover have "r_base (ranges s k) \<le> r_base (ranges s (?n - 1))"
        using assms(1) k unfolding sorted_entries base_sorted_def by (cases "k = ?n - 1") auto
      ultimately show ?thesis by simp
    qed
    then show ?thesis using True by (auto simp: p_def physmap_find_insertion_point_def)
  next
    case False
    have "splits_at s b 0 (search_loop s b 0 ?n) (search_loop s b 0 ?n) ?n"
      by (rule search_loop_splits) (use assms(1) in \<open>auto simp: sorted_entries splits_at_def\<close>)
    moreover have "p = search_loop s b 0 ?n" using False by (simp add: p_def physmap_find_insertion_point_def)
    ultimately show ?thesis by (auto simp: splits_at_def)
  qed
  then show "p \<le> ?n" and "\<forall>r\<in>set (take p (entries s)). r_base r \<le> b" and "\<forall>r\<in>set (drop p (entries s)). b \<le> r_base r"
    by (auto simp: set_conv_nth)
qed

lemma mset_insert_at: "mset (take i xs @ x # drop i xs) = add_mset x (mset xs)"
proof -
  have "mset (take i xs) + mset (drop i xs) = mset xs" by (subst mset_append [symmetric]) simp
  then show ?thesis by simp
qed

lemma insert_counters:
  assumes "counters_ok s" and "entries s' = take i (entries s) @ e # drop i (entries s)"
    and "physalloc_64bit_st s' = physalloc_64bit_st s + bool_word (r_base e < 0x100000000)"
    and "physalloc_20bit_st s' = physalloc_20bit_st s + bool_word (r_base e < 0x100000)"
  shows "counters_ok s'"
proof -
  have "of_nat (below b (entries s)) = of_nat (below b (take i (entries s))) + (of_nat (below b (drop i (entries s))) :: u32)" for b
    by (simp flip: below_append of_nat_add)
  then show ?thesis using assms by (simp add: counters_ok_def bool_word_def)
qed

lemma physmap_insert_spec:
  assumes "sorted (map r_base (entries s))" and "\<forall>r\<in>set (entries s). no_wrap r" and "counters_ok s"
    and "storage_ok m s" and "physalloc_count s < m"
  obtains i s' where "physmap_insert e False s = Some (i, s')" "mset (entries s') = add_mset e (mset (entries s))"
    "sorted (map r_base (entries s'))" "counters_ok s'" "storage_ok m s'" "physalloc_count s' = Suc (physalloc_count s)"
    "physmap_top s' = physmap_top s"
proof -
  let ?i = "physmap_find_insertion_point (r_base e) s"
  note p = find_insertion_point_splits [OF assms(1,2), of "r_base e"]
  obtain s' where s': "physmap_insert_at ?i e s = Some s'" "entries s' = take ?i (entries s) @ e # drop ?i (entries s)"
    "physalloc_count s' = Suc (physalloc_count s)" "storage_ok m s'" "physmap_top s' = physmap_top s"
    "physalloc_64bit_st s' = physalloc_64bit_st s + bool_word (r_base e < 0x100000000)"
    "physalloc_20bit_st s' = physalloc_20bit_st s + bool_word (r_base e < 0x100000)"
    by (rule insert_at_spec [OF p(1) assms(4,5), of e]) blast
  have "sorted (map r_base (take ?i (entries s) @ drop ?i (entries s)))" using assms(1) by simp
  then have "sorted (map r_base (entries s'))"
    using p(2,3) unfolding s'(2) map_append sorted_append by auto
  moreover have "mset (entries s') = add_mset e (mset (entries s))"
    unfolding s'(2) by (simp only: mset_insert_at)
  ultimately show thesis
    using that [of ?i s'] s' insert_counters [OF assms(3) s'(2,6,7)] by (simp add: physmap_insert_def Let_def)
qed

section \<open>Rounding\<close>

lemma unat_round_dn: "unat (round_dn n (2 ^ j)) = unat n - unat n mod 2 ^ j"
  by (simp add: round_dn_def and_neg_power)

lemma unat_round_up:
  fixes n :: "'w::len word"
  assumes "j < LENGTH('w)" and "unat n + 2 ^ j \<le> 2 ^ LENGTH('w)"
  shows "unat (round_up n (2 ^ j)) = unat n + 2 ^ j - 1 - (unat n + 2 ^ j - 1) mod 2 ^ j"
proof -
  have "unat (of_nat (2 ^ j) :: 'w word) = 2 ^ j" using assms(1) by (simp only: unat_of_nat take_bit_eq_mod) simp
  then have "unat (2 ^ j :: 'w word) = 2 ^ j" by simp
  then have "unat (2 ^ j - 1 :: 'w word) = 2 ^ j - 1" by (simp add: unat_sub word_le_nat_alt)
  moreover have "0 < (2 :: nat) ^ j" by simp
  ultimately have "unat (n + (2 ^ j - 1)) = unat n + 2 ^ j - 1"
    using assms(2) unat_add_lem [of n "2 ^ j - 1"] by linarith
  then show ?thesis by (simp add: round_up_def and_neg_power)
qed

lemma round_facts:
  fixes n :: "'w::len word"
  shows "2 ^ j dvd unat (round_dn n (2 ^ j))" and "unat (round_dn n (2 ^ j)) \<le> unat n" and "unat n < unat (round_dn n (2 ^ j)) + 2 ^ j"
    and "j < LENGTH('w) \<Longrightarrow> unat n + 2 ^ j \<le> 2 ^ LENGTH('w) \<Longrightarrow>
      2 ^ j dvd unat (round_up n (2 ^ j)) \<and> unat n \<le> unat (round_up n (2 ^ j)) \<and> unat (round_up n (2 ^ j)) < unat n + 2 ^ j"
proof -
  have m: "x mod 2 ^ j < 2 ^ j" "x mod 2 ^ j \<le> x" "2 ^ j dvd x - x mod 2 ^ j" for x :: nat by (simp_all add: dvd_minus_mod)
  show "2 ^ j dvd unat (round_dn n (2 ^ j))" "unat (round_dn n (2 ^ j)) \<le> unat n" "unat n < unat (round_dn n (2 ^ j)) + 2 ^ j"
    unfolding unat_round_dn using m [of "unat n"] by linarith+
  show "2 ^ j dvd unat (round_up n (2 ^ j)) \<and> unat n \<le> unat (round_up n (2 ^ j)) \<and> unat (round_up n (2 ^ j)) < unat n + 2 ^ j"
    if "j < LENGTH('w)" "unat n + 2 ^ j \<le> 2 ^ LENGTH('w)"
    unfolding unat_round_up [OF that] using m [of "unat n + 2 ^ j - 1"] by linarith
qed

definition page_aligned :: "u64 \<Rightarrow> bool" where
  "page_aligned w \<longleftrightarrow> 4096 dvd unat w"

lemma page_aligned_and [simp]: "page_aligned w \<Longrightarrow> w AND 4095 = 0"
  using unat_and_mask [of w 12] by (simp add: page_aligned_def mask_numeral dvd_eq_mod_eq_0 unsigned_eq_0_iff)

lemma page_aligned_dn [simp]: "page_aligned w \<Longrightarrow> w AND - 4096 = w"
  using and_neg_power [of w 12] by (simp add: word_unat_eq_iff) (simp add: page_aligned_def dvd_eq_mod_eq_0)

lemma page_aligned_add: "page_aligned a \<Longrightarrow> page_aligned b \<Longrightarrow> page_aligned (a + b)"
  by (simp add: page_aligned_def unat_word_ariths dvd_mod)

lemma page_aligned_up [simp]: "page_aligned w \<Longrightarrow> (w + 4095) AND - 4096 = w"
proof -
  assume w: "page_aligned w"
  then obtain k where k: "unat w = 4096 * k" by (auto simp: page_aligned_def)
  then have "k < 4503599627370496" using unat_lt_64 [of w] by linarith
  then have b: "unat w + 2 ^ 12 \<le> 18446744073709551616" using k by simp
  have "unat (round_up w (2 ^ 12)) = unat w" using unat_round_up [of 12 w] b by (simp add: k)
  then show ?thesis by (simp add: round_up_def word_unat_eq_iff)
qed

section \<open>Building the map\<close>

fun reports :: "bios \<Rightarrow> u32 \<Rightarrow> physmem_range_t list \<Rightarrow> bool" where
  "reports e820 c [] \<longleftrightarrow> \<not> fst (get_e820_region e820 c)"
| "reports e820 c (r # rs) \<longleftrightarrow>
    (case get_e820_region e820 c of (ok, entry, c) \<Rightarrow> ok \<and> entry = r \<and> (if c = 0 then rs = [] else reports e820 c rs))"

lemma ram_regions_loop_spec:
  assumes "reports e820 c rs" and "c \<noteq> 0 \<or> first" and "sorted (map r_base (entries s))"
    and "\<forall>r\<in>set (entries s) \<union> set rs. no_wrap r" and "counters_ok s" and "storage_ok m s"
    and "physalloc_count s + length rs \<le> m"
  shows "\<exists>s'. ram_regions_loop e820 first c s = Some s' \<and> sorted (map r_base (entries s'))
    \<and> mset (entries s') = mset (entries s) + mset (filter (\<lambda>r. r_valid r \<noteq> 0) rs) \<and> counters_ok s' \<and> storage_ok m s'"
  using assms
proof (induction rs arbitrary: c first s)
  case Nil
  then show ?case by (subst ram_regions_loop.simps) (auto split: prod.splits)
next
  case (Cons r rs)
  obtain c' where c': "get_e820_region e820 c = (True, r, c')" "if c' = 0 then rs = [] else reports e820 c' rs"
    using Cons.prems(1) by (auto split: prod.splits)
  have rest: "\<exists>s'. ram_regions_loop e820 False c' t = Some s' \<and> sorted (map r_base (entries s'))
      \<and> mset (entries s') = mset (entries t) + mset (filter (\<lambda>r. r_valid r \<noteq> 0) rs) \<and> counters_ok s' \<and> storage_ok m s'"
    if "sorted (map r_base (entries t))" "\<forall>r\<in>set (entries t). no_wrap r" "counters_ok t" "storage_ok m t"
      "physalloc_count t + length rs \<le> m" for t
  proof (cases "c' = 0")
    case True
    then show ?thesis using that c'(2) by (subst ram_regions_loop.simps) simp
  next
    case False
    then show ?thesis using that c'(2) Cons.prems(4) by (intro Cons.IH) auto
  qed
  show ?case
  proof (cases "r_valid r = 0")
    case True
    then have "ram_regions_loop e820 first c s = ram_regions_loop e820 False c' s"
      using c'(1) Cons.prems(2) by (subst ram_regions_loop.simps) auto
    then show ?thesis using rest [of s] Cons.prems True by auto
  next
    case False
    obtain i t where t: "physmap_insert r False s = Some (i, t)" "mset (entries t) = add_mset r (mset (entries s))"
      "sorted (map r_base (entries t))" "counters_ok t" "storage_ok m t" "physalloc_count t = Suc (physalloc_count s)"
      by (rule physmap_insert_spec [OF Cons.prems(3) _ Cons.prems(5,6), of r]) (use Cons.prems(4,7) in auto)
    have "ram_regions_loop e820 first c s = ram_regions_loop e820 False c' t"
      using c'(1) Cons.prems(2) False t(1) by (subst ram_regions_loop.simps) auto
    moreover have "set (entries t) = insert r (set (entries s))" using t(2) by (metis set_mset_add_mset_insert set_mset_mset)
    ultimately show ?thesis using rest [of t] t Cons.prems(4,7) False by auto
  qed
qed

text \<open>Entries that follow one another without overlap, and maps that need no fixing.\<close>

definition apart :: "physmem_range_t list \<Rightarrow> bool" where
  "apart es \<longleftrightarrow> sorted_wrt (\<lambda>a b. unat (r_base a) + unat (r_size a) \<le> unat (r_base b)) es
     \<and> (\<forall>r\<in>set es. no_wrap r \<and> r_size r \<noteq> 0)"

definition normal_aligned :: "physmem_range_t \<Rightarrow> bool" where
  "normal_aligned r \<longleftrightarrow> (r_type r = NORMAL \<longrightarrow> page_aligned (r_base r) \<and> page_aligned (r_size r))"

fun coalesced :: "physmem_range_t list \<Rightarrow> bool" where
  "coalesced (a # b # es) \<longleftrightarrow> \<not> (r_type a = r_type b \<and> r_end a = r_base b) \<and> coalesced (b # es)"
| "coalesced _ \<longleftrightarrow> True"

definition clean_map :: "physmem_range_t list \<Rightarrow> bool" where
  "clean_map es \<longleftrightarrow> apart es \<and> (\<forall>r\<in>set es. normal_aligned r) \<and> coalesced es"

lemma coalesced_nth:
  "coalesced es \<Longrightarrow> Suc i < length es \<Longrightarrow> r_type (es ! i) = r_type (es ! Suc i) \<Longrightarrow> r_end (es ! i) \<noteq> r_base (es ! Suc i)"
proof (induction es arbitrary: i rule: coalesced.induct)
  case (1 a b es)
  then show ?case by (cases i) auto
qed simp_all

lemma apart_nth:
  "apart es \<Longrightarrow> i < j \<Longrightarrow> j < length es \<Longrightarrow> unat (r_base (es ! i)) + unat (r_size (es ! i)) \<le> unat (r_base (es ! j))"
  by (auto simp: apart_def sorted_wrt_iff_nth_less)

lemma apart_sizes: "apart es \<Longrightarrow> r \<in> set es \<Longrightarrow> 0 < unat (r_size r) \<and> no_wrap r"
  by (auto simp: apart_def unat_gt_0)

lemma apart_bases: "apart es \<Longrightarrow> sorted (map r_base es) \<and> inj_on r_base (set es)"
proof -
  assume a: "apart es"
  have lt: "r_base (es ! i) < r_base (es ! j)" if "i < j" "j < length es" for i j
    using apart_nth [OF a that] apart_sizes [OF a, of "es ! i"] that by (simp add: word_less_nat_alt)
  then have "sorted (map r_base es)" by (auto simp: sorted_wrt_iff_nth_less less_imp_le)
  moreover have "inj_on r_base (set es)"
    by (rule inj_onI) (metis in_set_conv_nth lt nat_neq_iff order_less_irrefl)
  ultimately show ?thesis by blast
qed

lemma upd_range_same: "f (ranges s i) = ranges s i \<Longrightarrow> upd_range i f s = s"
  by (simp add: upd_range_def)

lemma clean_pair:
  assumes "clean_map (entries s)" and "0 < i" and "i < physalloc_count s"
  shows "fixup_pair i s = Some (False, s)" and "r_type (ranges s (i - 1)) = r_type (ranges s i) \<Longrightarrow> r_end (ranges s (i - 1)) \<noteq> r_base (ranges s i)"
proof -
  let ?p = "ranges s (i - 1)" and ?c = "ranges s i"
  have a: "apart (entries s)" and co: "coalesced (entries s)" using assms(1) by (simp_all add: clean_map_def)
  have e: "entries s ! (i - 1) = ?p" "entries s ! i = ?c" using assms by simp_all
  have mem: "?p \<in> set (entries s)" "?c \<in> set (entries s)" using assms(2,3) e by (metis length_entries less_imp_diff_less nth_mem)+
  have le: "unat (r_base ?p) + unat (r_size ?p) \<le> unat (r_base ?c)" using apart_nth [OF a, of "i - 1" i] assms e by simp
  note sz = apart_sizes [OF a mem(1)] apart_sizes [OF a mem(2)]
  show nj: "r_end ?p \<noteq> r_base ?c" if "r_type ?p = r_type ?c"
    using coalesced_nth [OF co, of "i - 1"] assms(2,3) e that by simp
  have nz: "r_size ?p \<noteq> 0" "r_size ?c \<noteq> 0" using sz by (auto simp: unat_gt_0)
  have "fixup_align r = r" if "r_type r = NORMAL" "r \<in> set (entries s)" for r
    using assms(1) that by (simp add: clean_map_def normal_aligned_def fixup_align_def)
  then have same: "(if r_type ?p = NORMAL then upd_range (i - 1) fixup_align s else s) = s"
    "(if r_type ?c = NORMAL then upd_range i fixup_align s else s) = s"
    using mem by (auto intro: upd_range_same)
  have "\<not> (r_base ?p \<le> r_base ?c \<and> r_end ?c \<le> r_end ?p)" "\<not> r_base ?c < r_end ?p"
    using le sz by (auto simp: word_le_nat_alt word_less_nat_alt unat_r_end)
  then show "fixup_pair i s = Some (False, s)"
    using nj nz unfolding fixup_pair_def Let_def same by auto
qed

lemma fixup_scan_clean:
  "clean_map (entries s) \<Longrightarrow> 0 < i \<Longrightarrow> i + n \<le> physalloc_count s \<Longrightarrow> fixup_scan n i s = Some (False, s)"
  by (induction n arbitrary: i) (simp_all add: clean_pair(1))

lemma init_coalesce_clean:
  assumes "clean_map (entries s)" and "cnt = physalloc_count s"
  shows "0 < i \<Longrightarrow> init_coalesce i cnt s = Some s"
proof (induction "cnt - i" arbitrary: i)
  case 0
  then show ?case by (subst init_coalesce.simps) simp
next
  case (Suc n)
  then have "init_coalesce i cnt s = init_coalesce (Suc i) cnt s"
    using clean_pair(2) [OF assms(1) Suc.prems] assms(2) by (subst init_coalesce.simps) (auto simp: Let_def)
  then show ?case using Suc by simp
qed

lemma align_entry_same: "normal_aligned r \<Longrightarrow> no_wrap r \<Longrightarrow> r_size r \<noteq> 0 \<Longrightarrow> align_entry r = r"
proof (cases "r_type r = NORMAL")
  case True
  assume r: "normal_aligned r" "no_wrap r" "r_size r \<noteq> 0"
  then have "page_aligned (r_base r)" "(r_base r + r_size r) AND - 4096 = r_base r + r_size r"
    using True by (simp_all add: normal_aligned_def page_aligned_add)
  moreover have "r_base r < r_base r + r_size r"
    using r(2,3) unat_r_end [OF r(2)] by (simp add: word_less_nat_alt r_end_def unat_gt_0)
  ultimately show ?thesis by (simp add: align_entry_def Let_def)
qed (simp add: align_entry_def)

lemma init_align_clean: "clean_map (entries s) \<Longrightarrow> init_align (physalloc_count s) s = s"
proof -
  assume c: "clean_map (entries s)"
  have "align_entry (ranges s k) = ranges s k" if "k < physalloc_count s" for k
  proof -
    have "ranges s k \<in> set (entries s)" using that by (simp add: entries_def)
    then show ?thesis using c by (intro align_entry_same) (auto simp: clean_map_def apart_def)
  qed
  then have "(\<lambda>k. if k < physalloc_count s then align_entry (ranges s k) else ranges s k) = ranges s" by auto
  then show ?thesis by (simp add: init_align_def)
qed

lemma fold_max_ge:
  "acc \<le> fold (\<lambda>i acc. if P i \<and> acc < f i then f i else acc) is acc
   \<and> (\<forall>i\<in>set is. P i \<longrightarrow> f i \<le> fold (\<lambda>i acc. if P i \<and> acc < f i then f i else acc) is acc)"
  for f :: "nat \<Rightarrow> u64"
proof (induction "is" arbitrary: acc)
  case Nil
  then show ?case by simp
next
  case (Cons i "is")
  show ?case using Cons [of "if P i \<and> acc < f i then f i else acc"] by (auto simp: not_less split: if_splits)
qed


section \<open>Splitting into large pages\<close>

definition split_list :: "'w::len word \<Rightarrow> 'w word \<Rightarrow> physmem_range_t list" where
  "split_list A F = map (\<lambda>(b, n, t). mk_range b n t) (filter (\<lambda>(b, n, t). drop_bit 12 n \<noteq> 0) (split_pieces A F))"

definition split_entry :: "'w::len itself \<Rightarrow> physmem_range_t \<Rightarrow> physmem_range_t list" where
  "split_entry w r =
    (if r_type r \<noteq> NORMAL \<or> round_dn (ucast (r_end r)) twoMB \<le> round_up (ucast (r_base r) :: 'w word) twoMB then [r]
     else split_list (ucast (r_base r) :: 'w word) (ucast (r_end r)))"

lemma insert_pieces_spec:
  assumes "i \<le> physalloc_count s" and "storage_ok m s" and "physalloc_count s + length ps \<le> m"
  defines "qs \<equiv> map (\<lambda>(b, n, t). mk_range b n t) (filter (\<lambda>(b, n, t). drop_bit 12 n \<noteq> 0) ps)"
  shows "\<exists>s'. insert_pieces ps i s = Some (i + length qs, s') \<and> entries s' = take i (entries s) @ qs @ drop i (entries s)
    \<and> storage_ok m s' \<and> physalloc_count s' = physalloc_count s + length qs"
  using assms(1-3) unfolding qs_def
proof (induction ps arbitrary: i s)
  case Nil
  then show ?case by simp
next
  case (Cons p ps)
  obtain b n t where p: "p = (b, n, t)" by (cases p)
  show ?case
  proof (cases "drop_bit 12 n = 0")
    case True
    then show ?thesis using Cons.IH [of i s] Cons.prems by (simp add: p)
  next
    case False
    obtain s1 where s1: "physmap_insert_at i (mk_range b n t) s = Some s1"
      "entries s1 = take i (entries s) @ mk_range b n t # drop i (entries s)"
      "physalloc_count s1 = Suc (physalloc_count s)" "storage_ok m s1"
      by (rule insert_at_spec [OF Cons.prems(1,2), of "mk_range b n t"]) (use Cons.prems(3) in auto)
    have "take (Suc i) (entries s1) = take i (entries s) @ [mk_range b n t]" "drop (Suc i) (entries s1) = drop i (entries s)"
      using Cons.prems(1) by (simp_all add: s1(2) min_absorb2)
    then show ?thesis using Cons.IH [of "Suc i" s1] Cons.prems s1 False by (auto simp: p)
  qed
qed

lemma split_list_length: "length (split_list A F) \<le> 5"
  using length_filter_le [of "\<lambda>(b, n, t). drop_bit 12 n \<noteq> 0" "split_pieces A F"]
  by (simp add: split_list_def split_pieces_def Let_def split: if_splits)

lemma split_large_loop_spec:
  fixes w :: "'w::len itself"
  assumes "i \<le> physalloc_count s" and "storage_ok m s" and "physalloc_count s + 4 * (physalloc_count s - i) + 1 \<le> m"
  shows "\<exists>s'. split_large_loop w i s = Some s' \<and> entries s' = take i (entries s) @ concat (map (split_entry w) (drop i (entries s)))
    \<and> storage_ok m s'"
  using assms
proof (induction "physalloc_count s - i" arbitrary: i s)
  case 0
  then show ?case by (subst split_large_loop.simps) simp
next
  case (Suc n)
  let ?r = "ranges s i"
  have i: "i < physalloc_count s" using Suc.hyps(2) by simp
  then have d: "drop i (entries s) = ?r # drop (Suc i) (entries s)" "take (Suc i) (entries s) = take i (entries s) @ [?r]"
    by (simp_all add: Cons_nth_drop_Suc [symmetric] take_Suc_conv_app_nth)
  show ?case
  proof (cases "r_type ?r \<noteq> NORMAL \<or> round_dn (ucast (r_end ?r)) twoMB \<le> round_up (ucast (r_base ?r) :: 'w word) twoMB")
    case True
    then have "split_large_loop w i s = split_large_loop w (Suc i) s"
      using i by (subst split_large_loop.simps) (auto simp: Let_def)
    then show ?thesis using Suc.hyps(1) [of s "Suc i"] Suc.hyps(2) Suc.prems i True by (simp add: d split_entry_def)
  next
    case False
    let ?ps = "split_pieces (ucast (r_base ?r) :: 'w word) (ucast (r_end ?r))"
    let ?qs = "split_list (ucast (r_base ?r) :: 'w word) (ucast (r_end ?r))"
    obtain s1 where s1: "physmap_delete i s = Some s1" "entries s1 = take i (entries s) @ drop (Suc i) (entries s)"
      "physalloc_count s1 = physalloc_count s - 1"
      by (rule delete_spec [OF i]) blast
    have "length ?ps = 5" by (simp add: split_pieces_def Let_def)
    then have c: "i \<le> physalloc_count s1" "physalloc_count s1 + length ?ps \<le> m" using i s1(3) Suc.prems(3) by simp_all
    obtain s2 where s2: "insert_pieces ?ps i s1 = Some (i + length ?qs, s2)"
      "entries s2 = take i (entries s1) @ ?qs @ drop i (entries s1)" "storage_ok m s2"
      "physalloc_count s2 = physalloc_count s1 + length ?qs"
      using insert_pieces_spec [OF c(1) storage_ok_delete [OF Suc.prems(2) i s1(1)] c(2)] unfolding split_list_def by blast
    have e: "take (i + length ?qs) (entries s2) = take i (entries s) @ ?qs" "drop (i + length ?qs) (entries s2) = drop (Suc i) (entries s)"
      using i by (simp_all add: s2(2) s1(2) min_absorb2)
    have "split_large_loop w i s = split_large_loop w (i + length ?qs) s2"
      using i s1(1) s2(1) False by (subst split_large_loop.simps) (auto simp: Let_def)
    then show ?thesis
      using Suc.hyps(1) [of s2 "i + length ?qs"] Suc.hyps(2) Suc.prems s1(3) s2(3,4) i False e split_list_length [of "ucast (r_base ?r) :: 'w word" "ucast (r_end ?r)"]
      by (simp add: d split_entry_def)
  qed
qed

text \<open>What the pieces of an entry promise: they follow one another over the same bytes, large pages are
  aligned, and no piece could hold a larger page.\<close>

fun covers :: "nat \<Rightarrow> physmem_range_t list \<Rightarrow> nat \<Rightarrow> bool" where
  "covers a [] b \<longleftrightarrow> a = b"
| "covers a (r # rs) b \<longleftrightarrow> unat (r_base r) = a \<and> r_size r \<noteq> 0 \<and> covers (a + unat (r_size r)) rs b"

definition holds_page :: "nat \<Rightarrow> physmem_range_t \<Rightarrow> bool" where
  "holds_page j r \<longleftrightarrow> ((unat (r_base r) + 2 ^ j - 1) div 2 ^ j + 1) * 2 ^ j \<le> unat (r_base r) + unat (r_size r)"

definition piece_ok :: "physmem_range_t \<Rightarrow> bool" where
  "piece_ok p \<longleftrightarrow>
     (if r_type p = NORMAL then \<not> holds_page 21 p
      else if r_type p = NORMAL_2M then 2 ^ 21 dvd unat (r_base p) \<and> 2 ^ 21 dvd unat (r_size p) \<and> \<not> holds_page 30 p
      else r_type p = NORMAL_1G \<and> 2 ^ 30 dvd unat (r_base p) \<and> 2 ^ 30 dvd unat (r_size p))"

lemma no_page:
  assumes "2 ^ j dvd up" and "2 ^ j dvd dn" and "dn \<le> up" and "unat (r_base r) \<le> up" and "up < unat (r_base r) + 2 ^ j"
    and "unat (r_base r) + unat (r_size r) < dn + 2 ^ j"
  shows "\<not> holds_page j r"
proof -
  obtain u where u: "up = u * 2 ^ j" using assms(1) by (metis dvd_def mult.commute)
  have "(unat (r_base r) + 2 ^ j - 1) div 2 ^ j = u"
  proof (rule div_nat_eqI)
    show "2 ^ j * u \<le> unat (r_base r) + 2 ^ j - 1" using assms(5) u by (simp add: mult.commute)
    have "0 < (2 :: nat) ^ j" by simp
    then have "unat (r_base r) + 2 ^ j - 1 < up + 2 ^ j" using assms(4) by linarith
    then show "unat (r_base r) + 2 ^ j - 1 < 2 ^ j * Suc u" by (simp add: u algebra_simps)
  qed
  then have "holds_page j r \<longleftrightarrow> up + 2 ^ j \<le> unat (r_base r) + unat (r_size r)" by (simp add: holds_page_def u algebra_simps)
  then show ?thesis using assms(3,6) by linarith
qed

definition piece :: "u64 \<Rightarrow> u64 \<Rightarrow> u32 \<Rightarrow> physmem_range_t list" where
  "piece b e t = (if drop_bit 12 (e - b) \<noteq> 0 then [mk_range b (e - b) t] else [])"

lemma unat_uintptr:
  fixes x :: "'w::len word"
  assumes "LENGTH('w) \<le> 64"
  shows "unat (ucast x :: u64) = unat x"
proof -
  have "unat x < 2 ^ 64" using less_le_trans [OF unsigned_less power_increasing [OF assms]] by simp
  then show ?thesis by (simp add: unsigned_ucast_eq take_bit_eq_mod)
qed

lemma uintptr_unat:
  fixes a :: u64
  assumes "unat a < 2 ^ LENGTH('w)"
  shows "unat (ucast a :: 'w::len word) = unat a"
  using assms by (simp add: unsigned_ucast_eq take_bit_eq_mod)

lemma diff_uintptr:
  fixes a b :: "'w::len word"
  assumes "LENGTH('w) \<le> 64" and "a \<le> b"
  shows "(ucast (if b > a then b - a else 0) :: u64) = ucast b - ucast a"
proof -
  have "(ucast a :: u64) \<le> ucast b" using assms by (simp add: word_le_nat_alt unat_uintptr)
  then show ?thesis using assms by (auto simp: word_unat_eq_iff unat_sub unat_uintptr)
qed

lemma pages_of: "4096 dvd unat n \<Longrightarrow> drop_bit 12 n \<noteq> 0 \<longleftrightarrow> n \<noteq> 0" for n :: u64
proof -
  assume "4096 dvd unat n"
  moreover have "unat (drop_bit 12 n) = unat n div 4096" by (simp add: unat_drop_bit)
  ultimately show ?thesis by (metis dvd_div_eq_0_iff unsigned_eq_0_iff)
qed

lemma large_sizes: "twoMB = 2 ^ 21" "oneGB = 2 ^ 30"
  by (simp_all add: twoMB_def oneGB_def push_bit_eq_mult)

lemma set_piece: "p \<in> set (piece b e t) \<Longrightarrow> p = mk_range b (e - b) t"
  by (simp add: piece_def split: if_splits)

lemma covers_piece:
  assumes "page_aligned b" and "page_aligned e" and "b \<le> e" and "covers (unat e) rs z"
  shows "covers (unat b) (piece b e t @ rs) z"
proof -
  have u: "unat (e - b) = unat e - unat b" using assms(3) by (rule unat_sub)
  then have "4096 dvd unat (e - b)" using assms(1,2) by (simp add: page_aligned_def)
  then have "drop_bit 12 (e - b) \<noteq> 0 \<longleftrightarrow> e - b \<noteq> 0" by (rule pages_of)
  then show ?thesis using u assms(3,4) by (auto simp: piece_def mk_range_def word_le_nat_alt)
qed

definition split_by :: "u64 \<Rightarrow> u64 \<Rightarrow> u64 \<Rightarrow> u64 \<Rightarrow> u64 \<Rightarrow> u64 \<Rightarrow> physmem_range_t list" where
  "split_by A B C D E F = (if C < D
     then piece A B NORMAL @ piece B C NORMAL_2M @ piece C D NORMAL_1G @ piece D E NORMAL_2M @ piece E F NORMAL
     else piece A B NORMAL @ piece B E NORMAL_2M @ piece E F NORMAL)"

lemma split_list_by:
  fixes A :: "'w::len word"
  assumes "LENGTH('w) \<le> 64" and "A \<le> B" and "B \<le> C" and "B \<le> E" and "D \<le> E" and "E \<le> F"
    and "B = round_up A twoMB" and "E = round_dn F twoMB" and "C = round_up B oneGB" and "D = round_dn E oneGB"
  shows "split_list A F = split_by (ucast A) (ucast B) (ucast C) (ucast D) (ucast E) (ucast F)"
proof -
  have lt: "(ucast C :: u64) < ucast D \<longleftrightarrow> C < D" using assms(1) by (simp add: word_less_nat_alt unat_uintptr)
  note d = diff_uintptr [OF assms(1)]
  have d': "a < b \<Longrightarrow> (ucast (b - a) :: u64) = ucast b - ucast a" for a b :: "'w word" using d [of a b] by (simp add: less_imp_le)
  show ?thesis
    using assms(2-6) unfolding split_list_def split_pieces_def Let_def assms(7-10) [symmetric]
    by (auto simp: split_by_def piece_def lt d d' simp del: order_less_le)
qed

definition split_points :: "u64 \<Rightarrow> u64 \<Rightarrow> u64 \<Rightarrow> u64 \<Rightarrow> u64 \<Rightarrow> u64 \<Rightarrow> bool" where
  "split_points A B C D E F \<longleftrightarrow> A \<le> B \<and> unat B < unat A + 2 ^ 21 \<and> 2 ^ 21 dvd unat B
     \<and> B \<le> C \<and> unat C < unat B + 2 ^ 30 \<and> 2 ^ 30 dvd unat C \<and> B \<le> E
     \<and> D \<le> E \<and> unat E < unat D + 2 ^ 30 \<and> 2 ^ 30 dvd unat D
     \<and> E \<le> F \<and> unat F < unat E + 2 ^ 21 \<and> 2 ^ 21 dvd unat E"

lemma aligned_le:
  fixes a b :: nat
  assumes "k dvd a" and "k dvd b" and "a < b + k"
  shows "a \<le> b"
proof -
  obtain x y where "a = k * x" "b = k * y" using assms(1,2) by (auto elim!: dvdE)
  then show ?thesis using assms(3) by (metis add.commute mult_Suc_right mult_le_mono2 mult_less_cancel1 not_less_eq not_le)
qed

lemma split_points_round:
  fixes A F :: "'w::len word"
  assumes "LENGTH('w) \<le> 64" and "30 < LENGTH('w)" and "unat A + 2 ^ 30 \<le> 2 ^ LENGTH('w)"
    and "\<not> round_dn F twoMB \<le> round_up A twoMB"
  defines "B \<equiv> round_up A twoMB" and "E \<equiv> round_dn F twoMB"
  defines "C \<equiv> round_up B oneGB" and "D \<equiv> round_dn E oneGB"
  shows "split_points (ucast A) (ucast B) (ucast C) (ucast D) (ucast E) (ucast F)"
    and "A \<le> B" and "B \<le> C" and "B \<le> E" and "D \<le> E" and "E \<le> F"
proof -
  have BE: "unat B < unat E" using assms(4) by (simp add: B_def E_def word_less_nat_alt not_le)
  have E: "2 ^ 21 dvd unat E" "unat E \<le> unat F" "unat F < unat E + 2 ^ 21"
    using round_facts(1-3) [where j = 21 and n = F] unfolding E_def large_sizes by simp_all
  have "unat A + 2 ^ 21 \<le> 2 ^ LENGTH('w)" using assms(3) by simp
  then have B: "2 ^ 21 dvd unat B" "unat A \<le> unat B" "unat B < unat A + 2 ^ 21"
    using round_facts(4) [where j = 21 and n = A] assms(2) unfolding B_def large_sizes by simp_all
  have w: "(2 :: nat) ^ 30 \<le> 2 ^ LENGTH('w)" using assms(2) by (intro power_increasing) simp_all
  have "unat B \<le> 2 ^ LENGTH('w) - 2 ^ 30"
  proof (rule aligned_le [OF B(1)])
    show "(2 :: nat) ^ 21 dvd 2 ^ LENGTH('w) - 2 ^ 30"
      using assms(2) by (intro dvd_diff_nat le_imp_power_dvd) simp_all
    show "unat B < 2 ^ LENGTH('w) - 2 ^ 30 + 2 ^ 21" using B(3) assms(3) by linarith
  qed
  then have C: "2 ^ 30 dvd unat C" "unat B \<le> unat C" "unat C < unat B + 2 ^ 30"
    using round_facts(4) [where j = 30 and n = B] assms(2) w unfolding C_def large_sizes by simp_all
  have D: "2 ^ 30 dvd unat D" "unat D \<le> unat E" "unat E < unat D + 2 ^ 30"
    using round_facts(1-3) [where j = 30 and n = E] unfolding D_def large_sizes by simp_all
  show "split_points (ucast A) (ucast B) (ucast C) (ucast D) (ucast E) (ucast F)"
    using B C D E BE unfolding split_points_def word_le_nat_alt unat_uintptr [OF assms(1)] by simp
  show "A \<le> B" "B \<le> C" "B \<le> E" "D \<le> E" "E \<le> F" using B C D E BE by (simp_all add: word_le_nat_alt)
qed

lemma split_by_covers:
  assumes "page_aligned A" and "page_aligned F" and "split_points A B C D E F"
  shows "covers (unat A) (split_by A B C D E F) (unat F)"
proof -
  have d: "page_aligned x" if "2 ^ j dvd unat x" "12 \<le> j" for x j
    using that dvd_trans [OF le_imp_power_dvd [of 12 j 2]] by (auto simp: page_aligned_def)
  have al: "page_aligned B" "page_aligned C" "page_aligned D" "page_aligned E"
    using assms(3) d [of 21] d [of 30] by (simp_all add: split_points_def)
  have last: "covers (unat E) (piece E F NORMAL) (unat F)"
    using covers_piece [of E F "[]"] al assms(2,3) by (simp add: split_points_def)
  show ?thesis
    using assms(1,3) al last unfolding split_by_def split_points_def
    by (auto intro!: covers_piece)
qed

lemma mk_range_sel [simp]: "r_base (mk_range b n t) = b" "r_size (mk_range b n t) = n" "r_type (mk_range b n t) = t"
  by (simp_all add: mk_range_def)

lemma piece_ok_normal:
  assumes "b \<le> e" and "2 ^ 21 dvd u" and "unat b \<le> u" and "u < unat b + 2 ^ 21" and "unat e < u + 2 ^ 21"
  shows "piece_ok (mk_range b (e - b) NORMAL)"
  using no_page [of 21 u u "mk_range b (e - b) NORMAL"] assms by (simp add: piece_ok_def unat_sub word_le_nat_alt)

lemma piece_ok_2M:
  assumes "b \<le> e" and "2 ^ 21 dvd unat b" and "2 ^ 21 dvd unat e" and "2 ^ 30 dvd up" and "2 ^ 30 dvd dn" and "dn \<le> up"
    and "unat b \<le> up" and "up < unat b + 2 ^ 30" and "unat e < dn + 2 ^ 30"
  shows "piece_ok (mk_range b (e - b) NORMAL_2M)"
  using no_page [of 30 up dn "mk_range b (e - b) NORMAL_2M"] assms by (simp add: piece_ok_def unat_sub word_le_nat_alt)

lemma split_by_ok:
  assumes "split_points A B C D E F"
  shows "\<forall>p\<in>set (split_by A B C D E F). piece_ok p"
proof -
  note sp = assms [unfolded split_points_def word_le_nat_alt]
  have d: "2 ^ 21 dvd unat C" "2 ^ 21 dvd unat D" using sp dvd_trans [OF le_imp_power_dvd [of 21 30 2]] by auto
  have first: "piece_ok (mk_range A (B - A) NORMAL)" and last: "piece_ok (mk_range E (F - E) NORMAL)"
    using sp piece_ok_normal [of A B "unat B"] piece_ok_normal [of E F "unat E"] by (simp_all add: word_le_nat_alt)
  show ?thesis
  proof (cases "C < D")
    case True
    then have "piece_ok (mk_range B (C - B) NORMAL_2M)" "piece_ok (mk_range D (E - D) NORMAL_2M)"
      using sp d piece_ok_2M [of B C "unat C" "unat C"] piece_ok_2M [of D E "unat D" "unat D"]
      by (simp_all add: word_le_nat_alt)
    moreover have "piece_ok (mk_range C (D - C) NORMAL_1G)"
      using True sp by (simp add: piece_ok_def unat_sub dvd_diff_nat)
    ultimately show ?thesis using True first last by (auto simp: split_by_def dest!: set_piece)
  next
    case False
    then have "piece_ok (mk_range B (E - B) NORMAL_2M)"
      using sp d piece_ok_2M [of B E "unat C" "unat D"] by (simp add: word_le_nat_alt not_less)
    then show ?thesis using False first last by (auto simp: split_by_def dest!: set_piece)
  qed
qed

text \<open>A free entry that the \<^verbatim>\<open>uintptr_t\<close> arithmetic of \<open>physmap_split_large\<close> can handle: its end is below \<open>2 ^ LENGTH('w)\<close>
  and its base is not in the last gigabyte.\<close>

definition splittable :: "'w::len itself \<Rightarrow> physmem_range_t \<Rightarrow> bool" where
  "splittable w r \<longleftrightarrow> (r_type r = NORMAL \<longrightarrow>
     unat (r_base r) + 2 ^ 30 \<le> 2 ^ LENGTH('w) \<and> unat (r_base r) + unat (r_size r) < 2 ^ LENGTH('w))"

lemma split_entry_ok:
  fixes w :: "'w::len itself"
  assumes "no_wrap r" and "r_size r \<noteq> 0" and "normal_aligned r" and "splittable w r"
    and w: "LENGTH('w) \<le> 64" "30 < LENGTH('w)"
  shows "covers (unat (r_base r)) (split_entry w r) (unat (r_end r))
    \<and> (if r_type r = NORMAL then \<forall>p\<in>set (split_entry w r). piece_ok p else split_entry w r = [r])"
proof -
  let ?A = "ucast (r_base r) :: 'w word" and ?F = "ucast (r_end r) :: 'w word"
  note u = unat_r_end [OF assms(1)]
  have one: "covers (unat (r_base r)) [r] (unat (r_end r))" using u assms(2) by simp
  show ?thesis
  proof (cases "r_type r = NORMAL")
    case True
    then have lim: "unat (r_base r) + 2 ^ 30 \<le> 2 ^ LENGTH('w)" "unat (r_end r) < 2 ^ LENGTH('w)"
      using assms(4) u by (simp_all add: splittable_def)
    have AF: "unat ?A = unat (r_base r)" "unat ?F = unat (r_end r)" using lim by (simp_all add: uintptr_unat)
    have al: "page_aligned (r_base r)" "page_aligned (r_end r)"
      using True assms(3) by (auto simp: normal_aligned_def r_end_def page_aligned_add)
    show ?thesis
    proof (cases "round_dn ?F twoMB \<le> round_up ?A twoMB")
      case le: True
      have "unat ?A + 2 ^ 21 \<le> 2 ^ LENGTH('w)" using lim AF by simp
      then have "\<not> holds_page 21 r"
        using no_page [of 21 "unat (round_up ?A twoMB)" "unat (round_dn ?F twoMB)" r]
          round_facts(1-3) [where j = 21 and n = ?F] round_facts(4) [where j = 21 and n = ?A] le u AF w(2)
        by (simp add: large_sizes word_le_nat_alt)
      then show ?thesis using True le one by (simp add: split_entry_def piece_ok_def)
    next
      case False
      note sp = split_points_round [OF w lim(1) [folded AF(1)] False]
      have same: "ucast ?A = r_base r" "ucast ?F = r_end r" using AF w(1) by (simp_all add: word_unat_eq_iff unat_uintptr)
      have "split_entry w r = split_list ?A ?F" using True False by (simp add: split_entry_def)
      also note split_list_by [OF w(1) sp(2-6) refl refl refl refl]
      finally show ?thesis
        using split_by_covers [OF al sp(1) [unfolded same]] split_by_ok [OF sp(1)] True by (simp add: same)
    qed
  qed (simp add: split_entry_def u assms(2))
qed


section \<open>Allocating a range\<close>

definition bytes_of :: "physmem_range_t \<Rightarrow> nat set" where
  "bytes_of r = {unat (r_base r)..<unat (r_base r) + unat (r_size r)}"

definition typed_bytes :: "u32 \<Rightarrow> physmem_range_t list \<Rightarrow> nat set" where
  "typed_bytes t es = (\<Union>r\<in>set (filter (\<lambda>r. r_type r = t) es). bytes_of r)"

lemma typed_bytes_simps [simp]:
  "typed_bytes t [] = {}" "typed_bytes t (xs @ ys) = typed_bytes t xs \<union> typed_bytes t ys"
  "typed_bytes t (r # rs) = (if r_type r = t then bytes_of r else {}) \<union> typed_bytes t rs"
  by (simp_all add: typed_bytes_def)

lemma apart_append:
  "apart (xs @ ys) \<longleftrightarrow> apart xs \<and> apart ys
     \<and> (\<forall>x\<in>set xs. \<forall>y\<in>set ys. unat (r_base x) + unat (r_size x) \<le> unat (r_base y))"
  by (auto simp: apart_def sorted_wrt_append)

lemma apart_Cons:
  "apart (x # ys) \<longleftrightarrow> no_wrap x \<and> r_size x \<noteq> 0 \<and> apart ys
     \<and> (\<forall>y\<in>set ys. unat (r_base x) + unat (r_size x) \<le> unat (r_base y))"
  by (auto simp: apart_def)

lemma apart_Nil [simp]: "apart []"
  by (simp add: apart_def)

text \<open>The entries around an entry share no byte with it.\<close>

lemma typed_bytes_around:
  assumes "apart (xs @ e # ys)"
  shows "typed_bytes t xs \<inter> bytes_of e = {}" and "typed_bytes t ys \<inter> bytes_of e = {}"
  using assms by (fastforce simp: apart_append apart_Cons typed_bytes_def bytes_of_def)+

definition map_inv :: "nat \<Rightarrow> physmap \<Rightarrow> bool" where
  "map_inv m s \<longleftrightarrow> apart (entries s) \<and> storage_ok m s \<and> first_64 s \<le> physalloc_count s"

definition takes :: "nat set \<Rightarrow> physmem_range_t list \<Rightarrow> physmem_range_t list \<Rightarrow> bool" where
  "takes A es es' \<longleftrightarrow> A \<subseteq> typed_bytes NORMAL es \<and> typed_bytes NORMAL es' = typed_bytes NORMAL es - A
     \<and> typed_bytes ALLOCATED es' = typed_bytes ALLOCATED es \<union> A
     \<and> (\<forall>t. t \<noteq> NORMAL \<longrightarrow> t \<noteq> ALLOCATED \<longrightarrow> typed_bytes t es' = typed_bytes t es)"

lemma map_validate_loop_keeps: "\<exists>err. map_validate_loop False i s = Some (err, s)"
proof (induction "physalloc_count s - i" arbitrary: i)
  case 0
  then show ?case by (subst map_validate_loop.simps) simp
next
  case (Suc n)
  then show ?case by (subst map_validate_loop.simps) (auto simp: Let_def)
qed

lemma physmap_validate_keeps [simp]: "map_option snd (physmap_validate False s) = Some s"
  using map_validate_loop_keeps [of 0 s] by (auto simp: physmap_validate_def)

lemma first_64_delete:
  assumes "physmap_delete i s = Some s'" and "i < physalloc_count s" and "first_64 s \<le> physalloc_count s"
  shows "first_64 s' \<le> physalloc_count s'"
proof -
  obtain t where t: "physmap_delete i s = Some t" "physalloc_count t = physalloc_count s - 1"
    "physalloc_64bit_st t = physalloc_64bit_st s - bool_word (i < unat (physalloc_64bit_st s))"
    by (rule delete_spec [OF assms(2)]) blast
  moreover have "unat (physalloc_64bit_st s - 1) = unat (physalloc_64bit_st s) - 1" if "i < unat (physalloc_64bit_st s)"
    using that by (subst unat_sub) (auto simp: word_le_nat_alt)
  ultimately show ?thesis using assms by (auto simp: first_64_def bool_word_def)
qed

lemma first_64_insert:
  assumes "physalloc_64bit_st s' = physalloc_64bit_st s + bool_word b" and "physalloc_count s' = Suc (physalloc_count s)"
    and "first_64 s \<le> physalloc_count s" and "physalloc_count s < 4294967295"
  shows "first_64 s' \<le> physalloc_count s'"
  using assms by (auto simp: first_64_def bool_word_def unat_word_ariths)

lemma entries_at:
  assumes "entries s = xs @ e # ys"
  shows "ranges s (length xs) = e" and "physalloc_count s = Suc (length xs + length ys)"
    and "xs \<noteq> [] \<Longrightarrow> ranges s (length xs - 1) = last xs"
proof -
  show n: "physalloc_count s = Suc (length xs + length ys)" using assms length_entries [of s] by simp
  show "ranges s (length xs) = e" using nth_entries [of "length xs" s] n by (simp add: assms)
  show "ranges s (length xs - 1) = last xs" if "xs \<noteq> []"
    using nth_entries [of "length xs - 1" s] n that by (simp add: assms nth_append last_conv_nth)
qed

lemma delete_at:
  assumes "entries s = xs @ e # ys"
  obtains s' where "physmap_delete (length xs) s = Some s'" "entries s' = xs @ ys"
    "storage_ok m s \<Longrightarrow> storage_ok m s'" "first_64 s \<le> physalloc_count s \<Longrightarrow> first_64 s' \<le> physalloc_count s'"
    "physalloc_20bit_1st s' = physalloc_20bit_1st s - bool_word (length xs < unat (physalloc_20bit_st s))"
proof -
  have l: "length xs < physalloc_count s" using entries_at(2) [OF assms] by simp
  obtain s' where s': "physmap_delete (length xs) s = Some s'"
    "entries s' = take (length xs) (entries s) @ drop (Suc (length xs)) (entries s)"
    "physalloc_20bit_1st s' = physalloc_20bit_1st s - bool_word (length xs < unat (physalloc_20bit_st s))"
    by (rule delete_spec [OF l]) blast
  then show thesis using that storage_ok_delete [OF _ l s'(1)] first_64_delete [OF s'(1) l] assms by auto
qed

lemma insert_at:
  assumes "entries s = xs @ ys" and "storage_ok m s" and "physalloc_count s < m"
  obtains s' where "physmap_insert_at (length xs) e s = Some s'" "entries s' = xs @ e # ys" "storage_ok m s'"
    "first_64 s \<le> physalloc_count s \<Longrightarrow> first_64 s' \<le> physalloc_count s'"
proof -
  have l: "length xs \<le> physalloc_count s" using assms(1) length_entries [of s] by simp
  obtain s' where s': "physmap_insert_at (length xs) e s = Some s'" "entries s' = take (length xs) (entries s) @ e # drop (length xs) (entries s)"
    "physalloc_count s' = Suc (physalloc_count s)" "storage_ok m s'"
    "physalloc_64bit_st s' = physalloc_64bit_st s + bool_word (r_base e < 0x100000000)"
    by (rule insert_at_spec [OF l assms(2,3), of e]) blast
  moreover have "physalloc_count s < 4294967295" using assms(2,3) by (simp add: storage_ok_def)
  ultimately show thesis using that first_64_insert [OF s'(5,3)] assms(1) by simp
qed

lemma entries_upd_at: "entries s = xs @ e # ys \<Longrightarrow> entries (upd_range (length xs) f s) = xs @ f e # ys"
  using entries_at [of s xs e ys] by (simp add: list_update_append)

lemma storage_upd [simp]: "storage_ok m (upd_range i f s) = storage_ok m s" "first_64 (upd_range i f s) = first_64 s"
  "storage_ok m (s\<lparr> physalloc_20bit_1st := w \<rparr>) = storage_ok m s" "first_64 (s\<lparr> physalloc_20bit_1st := w \<rparr>) = first_64 s"
  by (simp_all add: storage_ok_def first_64_def)

lemma bytes_of_join:
  assumes "no_wrap p" and "no_wrap e" and "r_end p = r_base e"
  shows "bytes_of (p\<lparr> r_size := r_size p + r_size e \<rparr>) = bytes_of p \<union> bytes_of e"
    and "no_wrap (p\<lparr> r_size := r_size p + r_size e \<rparr>)" and "unat (r_size p + r_size e) = unat (r_size p) + unat (r_size e)"
proof -
  have b: "unat (r_base e) = unat (r_base p) + unat (r_size p)" using unat_r_end [OF assms(1)] assms(3) by simp
  then show u: "unat (r_size p + r_size e) = unat (r_size p) + unat (r_size e)"
    using assms(2) by (subst unat_add_64) (simp_all add: no_wrap_def)
  show "bytes_of (p\<lparr> r_size := r_size p + r_size e \<rparr>) = bytes_of p \<union> bytes_of e"
    using b by (auto simp: bytes_of_def u)
  show "no_wrap (p\<lparr> r_size := r_size p + r_size e \<rparr>)" using b assms(2) by (simp add: no_wrap_def u)
qed

lemma apart_join:
  assumes "apart (xs @ p # e # ys)" and "r_end p = r_base e"
  shows "apart (xs @ p\<lparr> r_size := r_size p + r_size e \<rparr> # ys)"
proof -
  have n: "no_wrap p" "no_wrap e" using assms(1) by (simp_all add: apart_append apart_Cons)
  note j = bytes_of_join [OF n assms(2)]
  have "r_size p + r_size e \<noteq> 0" using j(3) assms(1) by (metis add_is_0 apart_Cons apart_append unsigned_eq_0_iff)
  moreover have "unat (r_base e) = unat (r_base p) + unat (r_size p)" using unat_r_end [OF n(1)] assms(2) by simp
  ultimately show ?thesis using assms(1) j(2,3) by (auto simp: apart_append apart_Cons)
qed

lemma absorb_loop_spec:
  assumes "entries s = xs @ p # ys" and "map_inv m s"
  shows "\<exists>s'. absorb_loop (Suc (length xs)) s = Some s' \<and> map_inv m s'
    \<and> (\<forall>t. typed_bytes t (entries s') = typed_bytes t (entries s))"
  using assms
proof (induction ys arbitrary: s p)
  case Nil
  then show ?case using entries_at(2) [OF Nil.prems(1)] by (subst absorb_loop.simps) simp
next
  case (Cons e ys)
  have pe: "ranges s (length xs) = p" "ranges s (Suc (length xs)) = e" "Suc (length xs) < physalloc_count s"
    using entries_at [OF Cons.prems(1)] entries_at [of s "xs @ [p]" e ys] Cons.prems(1) by simp_all
  show ?case
  proof (cases "r_type p = r_type e \<and> r_end p = r_base e")
    case False
    then have "absorb_loop (Suc (length xs)) s = Some s" using pe by (subst absorb_loop.simps) auto
    then show ?thesis using Cons.prems by blast
  next
    case True
    let ?f = "\<lambda>q. q\<lparr> r_size := r_size q + r_size e \<rparr>"
    let ?s = "upd_range (length xs) ?f s"
    have e: "entries ?s = (xs @ [?f p]) @ e # ys" using entries_upd_at [OF Cons.prems(1)] by simp
    obtain s1 where s1: "physmap_delete (Suc (length xs)) ?s = Some s1" "entries s1 = xs @ ?f p # ys"
      "storage_ok m s1" "first_64 s1 \<le> physalloc_count s1"
      by (rule delete_at [OF e, where m = m]) (use Cons.prems(2) in \<open>simp add: map_inv_def\<close>)
    have a: "apart (xs @ p # e # ys)" using Cons.prems by (simp add: map_inv_def)
    then have "map_inv m s1" using s1 apart_join [OF a] True by (simp add: map_inv_def)
    moreover have "typed_bytes t (entries s1) = typed_bytes t (entries s)" for t
      using bytes_of_join(1) [of p e] a True by (auto simp: s1(2) Cons.prems(1) apart_append apart_Cons)
    moreover have "absorb_loop (Suc (length xs)) s = absorb_loop (Suc (length xs)) s1"
      using pe True s1(1) by (subst absorb_loop.simps) simp
    ultimately show ?thesis using Cons.IH [OF s1(2)] by simp
  qed
qed

lemma takes_part:
  assumes "apart (xs @ e # ys)" and "r_type e = NORMAL" and "A \<subseteq> bytes_of e"
    and "typed_bytes NORMAL es = bytes_of e - A" and "typed_bytes ALLOCATED es = A" and "\<And>t. t \<noteq> NORMAL \<Longrightarrow> t \<noteq> ALLOCATED \<Longrightarrow> typed_bytes t es = {}"
  shows "takes A (xs @ e # ys) (xs @ es @ ys)"
  using typed_bytes_around [OF assms(1), of NORMAL] assms(2-) unfolding takes_def by auto

lemma takes_part_prev:
  assumes "apart (xs @ p # e # ys)" and "r_type e = NORMAL" and "r_type p = ALLOCATED" and "A \<subseteq> bytes_of e"
    and "typed_bytes NORMAL es = bytes_of e - A" and "typed_bytes ALLOCATED es = bytes_of p \<union> A"
    and "\<And>t. t \<noteq> NORMAL \<Longrightarrow> t \<noteq> ALLOCATED \<Longrightarrow> typed_bytes t es = {}"
  shows "takes A (xs @ p # e # ys) (xs @ es @ ys)"
  using typed_bytes_around [of "xs @ [p]" e ys NORMAL] assms unfolding takes_def by auto

lemma takes_same: "takes A es es1 \<Longrightarrow> (\<And>t. typed_bytes t es' = typed_bytes t es1) \<Longrightarrow> takes A es es'"
  by (simp add: takes_def)

lemma unat_less_size: "sz < r_size e \<Longrightarrow> unat (r_size e - sz) = unat (r_size e) - unat sz \<and> unat sz < unat (r_size e)"
  by (simp add: unat_sub word_less_nat_alt less_imp_le)

lemma bytes_of_front:
  assumes "no_wrap e" and "sz < r_size e"
  shows "bytes_of (e\<lparr> r_base := r_base e + sz, r_size := r_size e - sz \<rparr>) = bytes_of e - {unat (r_base e)..<unat (r_base e) + unat sz}"
    and "unat (r_base e + sz) = unat (r_base e) + unat sz"
proof -
  note u = unat_less_size [OF assms(2)]
  show b: "unat (r_base e + sz) = unat (r_base e) + unat sz" using assms(1) u by (intro unat_add_64) (simp add: no_wrap_def)
  show "bytes_of (e\<lparr> r_base := r_base e + sz, r_size := r_size e - sz \<rparr>) = bytes_of e - {unat (r_base e)..<unat (r_base e) + unat sz}"
    using u by (auto simp: bytes_of_def b)
qed

lemma alloc_extend_part:
  assumes "entries s = xs @ p # e # ys" and "map_inv m s" and "r_type p = ALLOCATED" and "r_type e = NORMAL" and "r_end p = r_base e"
    and "sz < r_size e"
  shows "\<exists>s'. alloc_extend (Suc (length xs)) sz 0 insist s = Some (Some (sz, s')) \<and> map_inv m s'
    \<and> takes {unat (r_base e)..<unat (r_base e) + unat sz} (entries s) (entries s')"
proof -
  let ?f = "\<lambda>q. q\<lparr> r_size := r_size q + sz \<rparr>" and ?g = "\<lambda>r. r\<lparr> r_base := r_base r + sz, r_size := r_size r - sz \<rparr>"
  let ?s = "upd_range (Suc (length xs)) ?g (upd_range (length xs) ?f s)"
  have a: "apart (xs @ p # e # ys)" using assms(1,2) by (simp add: map_inv_def)
  then have n: "no_wrap p" "no_wrap e" by (simp_all add: apart_append apart_Cons)
  have es: "entries ?s = xs @ [?f p, ?g e] @ ys"
    using entries_upd_at [of "upd_range (length xs) ?f s" "xs @ [?f p]" e ys ?g] entries_upd_at [OF assms(1), of ?f] by simp
  have b: "unat (r_base e) = unat (r_base p) + unat (r_size p)" using unat_r_end [OF n(1)] assms(5) by simp
  note u = unat_less_size [OF assms(6)] and fr = bytes_of_front [OF n(2) assms(6)]
  have p: "unat (r_size p + sz) = unat (r_size p) + unat sz" using b u n(2) by (intro unat_add_64) (simp add: no_wrap_def)
  have "r_size p + sz \<noteq> 0" using p a by (metis add_is_0 apart_Cons apart_append unsigned_eq_0_iff)
  moreover have "r_size e - sz \<noteq> 0" using u by (metis diff_is_0_eq' not_le unsigned_0 zero_less_diff less_irrefl)
  ultimately have "apart (entries ?s)" unfolding es using a b p u fr(2) by (auto simp: apart_append apart_Cons no_wrap_def)
  moreover have "bytes_of (?f p) = bytes_of p \<union> {unat (r_base e)..<unat (r_base e) + unat sz}"
    using b p by (auto simp: bytes_of_def)
  then have "takes {unat (r_base e)..<unat (r_base e) + unat sz} (entries s) (entries ?s)"
    unfolding assms(1) es using u fr(1) assms(3,4) by (intro takes_part_prev [OF a assms(4,3)]) (auto simp: bytes_of_def)
  moreover have "alloc_extend (Suc (length xs)) sz 0 insist s = Some (Some (sz, ?s))"
    using assms(6) entries_at(1) [of s "xs @ [p]" e ys] assms(1) by (simp add: alloc_extend_def Let_def)
  ultimately show ?thesis using assms(2) by (auto simp: map_inv_def)
qed

lemma alloc_extend_all:
  assumes "entries s = xs @ p # e # ys" and "map_inv m s" and "r_type p = ALLOCATED" and "r_type e = NORMAL" and "r_end p = r_base e"
    and "\<not> sz < r_size e"
  shows "\<exists>s'. alloc_extend (Suc (length xs)) sz 0 False s = Some (Some (r_size e, s')) \<and> map_inv m s'
    \<and> takes (bytes_of e) (entries s) (entries s')"
proof -
  let ?f = "\<lambda>q. q\<lparr> r_size := r_size q + r_size e \<rparr>"
  let ?s = "upd_range (length xs) ?f s"
  have a: "apart (xs @ p # e # ys)" using assms(1,2) by (simp add: map_inv_def)
  then have n: "no_wrap p" "no_wrap e" by (simp_all add: apart_append apart_Cons)
  have es: "entries ?s = (xs @ [?f p]) @ e # ys" using entries_upd_at [OF assms(1), of ?f] by simp
  obtain s1 where s1: "physmap_delete (Suc (length xs)) ?s = Some s1" "entries s1 = xs @ ?f p # ys"
    "storage_ok m s1" "first_64 s1 \<le> physalloc_count s1"
    by (rule delete_at [OF es, where m = m]) (use assms(2) in \<open>simp add: map_inv_def\<close>)
  have "map_inv m s1" using s1 apart_join [OF a assms(5)] by (simp add: map_inv_def)
  then obtain s2 where s2: "absorb_loop (Suc (length xs)) s1 = Some s2" "map_inv m s2" "\<And>t. typed_bytes t (entries s2) = typed_bytes t (entries s1)"
    using absorb_loop_spec [OF s1(2)] by blast
  have "takes (bytes_of e) (xs @ p # e # ys) (xs @ [?f p] @ ys)"
    using bytes_of_join(1) [OF n assms(5)] assms(3) by (intro takes_part_prev [OF a assms(4,3)]) simp_all
  then have "takes (bytes_of e) (entries s) (entries s2)"
    unfolding assms(1) by (rule takes_same) (simp add: s2(3) s1(2))
  moreover have "alloc_extend (Suc (length xs)) sz 0 False s = Some (Some (r_size e, s2))"
    using assms(6) entries_at(1) [of s "xs @ [p]" e ys] assms(1) s1(1) s2(1) by (simp add: alloc_extend_def Let_def)
  ultimately show ?thesis using s2(2) by blast
qed

lemma alloc_split_part:
  assumes "entries s = xs @ e # ys" and "map_inv m s" and "r_type e = NORMAL" and "sz < r_size e" and "sz \<noteq> 0" and "physalloc_count s < m"
  shows "\<exists>s'. alloc_split (length xs) sz 0 s = Some (sz, s') \<and> map_inv m s'
    \<and> takes {unat (r_base e)..<unat (r_base e) + unat sz} (entries s) (entries s')"
proof -
  let ?f = "\<lambda>q. q\<lparr> r_size := sz, r_type := ALLOCATED \<rparr>" and ?e = "mk_range (r_base e + sz) (r_size e - sz) NORMAL"
  let ?s = "upd_range (length xs) ?f s"
  have a: "apart (xs @ e # ys)" using assms(1,2) by (simp add: map_inv_def)
  then have n: "no_wrap e" by (simp_all add: apart_append apart_Cons)
  note u = unat_less_size [OF assms(4)] and fr = bytes_of_front [OF n assms(4)]
  have es: "entries ?s = (xs @ [?f e]) @ ys" using entries_upd_at [OF assms(1), of ?f] by simp
  obtain s1 where s1: "physmap_insert_at (Suc (length xs)) ?e ?s = Some s1" "entries s1 = (xs @ [?f e]) @ ?e # ys"
    "storage_ok m s1" "first_64 s1 \<le> physalloc_count s1"
    by (rule insert_at [OF es, where m = m and e = ?e]) (use assms(2,6) in \<open>simp_all add: map_inv_def\<close>)
  have z: "r_size e - sz \<noteq> 0" using u by (metis diff_is_0_eq' not_le unsigned_0 zero_less_diff less_irrefl)
  have "apart (entries s1)" unfolding s1(2) using a u fr(2) z assms(5) by (auto simp: apart_append apart_Cons no_wrap_def)
  then have inv: "map_inv m (s1\<lparr> physalloc_20bit_1st := of_nat (Suc (length xs)) \<rparr>)" using s1 by (simp add: map_inv_def)
  have "bytes_of ?e = bytes_of e - {unat (r_base e)..<unat (r_base e) + unat sz}" using fr(1) by (simp add: bytes_of_def)
  then have "takes {unat (r_base e)..<unat (r_base e) + unat sz} (xs @ e # ys) (xs @ [?f e, ?e] @ ys)"
    using u by (intro takes_part [OF a assms(3)]) (auto simp: bytes_of_def)
  moreover have "alloc_split (length xs) sz 0 s = Some (sz, s1\<lparr> physalloc_20bit_1st := of_nat (Suc (length xs)) \<rparr>)"
    using assms(4) entries_at(1) [OF assms(1)] s1(1) by (simp add: alloc_split_def Let_def)
  moreover have "entries (s1\<lparr> physalloc_20bit_1st := of_nat (Suc (length xs)) \<rparr>) = xs @ [?f e, ?e] @ ys" using s1(2) by simp
  ultimately show ?thesis using inv unfolding assms(1) by metis
qed

lemma alloc_split_all:
  assumes "entries s = xs @ e # ys" and "map_inv m s" and "r_type e = NORMAL" and "\<not> sz < r_size e"
  shows "\<exists>s'. alloc_split (length xs) sz 0 s = Some (r_size e, s') \<and> map_inv m s' \<and> takes (bytes_of e) (entries s) (entries s')"
proof -
  let ?f = "\<lambda>q. q\<lparr> r_type := ALLOCATED \<rparr>"
  let ?s = "(upd_range (length xs) ?f s)\<lparr> physalloc_20bit_1st := of_nat (Suc (length xs)) \<rparr>"
  have a: "apart (xs @ e # ys)" using assms(1,2) by (simp add: map_inv_def)
  have es: "entries ?s = xs @ [?f e] @ ys" using entries_upd_at [OF assms(1), of ?f] by simp
  have "apart (entries ?s)" unfolding es using a by (auto simp: apart_append apart_Cons no_wrap_def)
  then have "map_inv m ?s" using assms(2) by (simp add: map_inv_def del: entries_20bit_1st)
  moreover have "takes (bytes_of e) (entries s) (entries ?s)"
    unfolding es assms(1) by (intro takes_part [OF a assms(3)]) (auto simp: bytes_of_def)
  moreover have "alloc_split (length xs) sz 0 s = Some (r_size e, ?s)"
    using assms(4) entries_at(1) [OF assms(1)] by (simp add: alloc_split_def Let_def)
  ultimately show ?thesis by blast
qed

lemma entries_split:
  assumes "i < physalloc_count s"
  obtains xs ys where "entries s = xs @ ranges s i # ys" "length xs = i"
proof
  show "entries s = take i (entries s) @ ranges s i # drop (Suc i) (entries s)"
    using assms id_take_nth_drop [of i "entries s"] by simp
  show "length (take i (entries s)) = i" using assms by simp
qed

definition found_block :: "boot_phys_alloc_t \<Rightarrow> u64 \<Rightarrow> physmap \<Rightarrow> physmap \<Rightarrow> bool" where
  "found_block a sz s s' \<longleftrightarrow> 0 < unat (a_size a) \<and> unat (a_size a) \<le> unat sz
     \<and> takes {unat (a_base a)..<unat (a_base a) + unat (a_size a)} (entries s) (entries s')"

lemma found_blockI:
  assumes "takes {unat (r_base e)..<unat (r_base e) + unat n} (entries s) (entries s')" and "n \<noteq> 0" and "n \<le> sz"
  shows "found_block (res\<lparr> a_base := r_base e, a_size := n \<rparr>) sz s s'"
  using assms by (simp add: found_block_def unat_gt_0 word_le_nat_alt)

lemma found_whole:
  assumes "map_inv m s" and "e \<in> set (entries s)" and "takes (bytes_of e) (entries s) (entries s')" and "\<not> sz < r_size e"
  shows "found_block (res\<lparr> a_base := r_base e, a_size := r_size e \<rparr>) sz s s'"
  using assms apart_sizes [of "entries s" e] by (intro found_blockI) (auto simp: bytes_of_def not_less map_inv_def)

lemma alloc_split_spec:
  assumes "i < physalloc_count s" and "map_inv m s" and "physalloc_count s < m" and "r_type (ranges s i) = NORMAL" and "sz \<noteq> 0"
  shows "\<exists>n s'. alloc_split i sz 0 s = Some (n, s') \<and> map_inv m s'
          \<and> found_block (res\<lparr> a_base := r_base (ranges s i), a_size := n \<rparr>) sz s s'"
proof -
  let ?e = "ranges s i"
  obtain xs ys where e: "entries s = xs @ ?e # ys" "length xs = i" by (rule entries_split [OF assms(1)])
  show ?thesis
  proof (cases "sz < r_size ?e")
    case True
    obtain s' where "alloc_split i sz 0 s = Some (sz, s')" "map_inv m s'"
      and t: "takes {unat (r_base ?e)..<unat (r_base ?e) + unat sz} (entries s) (entries s')"
      using alloc_split_part [OF e(1) assms(2,4) True assms(5,3)] unfolding e(2) by blast
    then show ?thesis using found_blockI [OF t assms(5) order_refl] by blast
  next
    case False
    obtain s' where "alloc_split i sz 0 s = Some (r_size ?e, s')" "map_inv m s'" and t: "takes (bytes_of ?e) (entries s) (entries s')"
      using alloc_split_all [OF e(1) assms(2,4) False] unfolding e(2) by blast
    moreover have "?e \<in> set (entries s)" by (subst e(1)) simp
    ultimately show ?thesis using found_whole [OF assms(2) _ t False] by blast
  qed
qed

lemma alloc_extend_spec:
  assumes "i < physalloc_count s" and "map_inv m s" and "r_type (ranges s i) = NORMAL" and "sz \<noteq> 0"
    and "0 < i" and "r_type (ranges s (i - 1)) = ALLOCATED" and "r_end (ranges s (i - 1)) = r_base (ranges s i)"
  shows "insist \<and> alloc_extend i sz 0 insist s = Some None
    \<or> (\<exists>n s'. alloc_extend i sz 0 insist s = Some (Some (n, s')) \<and> map_inv m s'
          \<and> found_block (res\<lparr> a_base := r_base (ranges s i), a_size := n \<rparr>) sz s s')"
proof -
  let ?e = "ranges s i"
  obtain xs ys where e: "entries s = xs @ ?e # ys" "length xs = i" by (rule entries_split [OF assms(1)])
  obtain zs p where z: "xs = zs @ [p]" using assms(5) e(2) by (cases xs rule: rev_cases) auto
  then have p: "ranges s (i - 1) = p" "Suc (length zs) = i" using entries_at(3) [OF e(1)] e(2) by auto
  have e': "entries s = zs @ p # ?e # ys" using e(1) z by simp
  have pp: "r_type p = ALLOCATED" "r_end p = r_base ?e" using assms(6,7) p by simp_all
  consider "sz < r_size ?e" | "\<not> sz < r_size ?e" "insist" | "\<not> sz < r_size ?e" "insist = False" by blast
  then show ?thesis
  proof cases
    case 1
    obtain s' where "alloc_extend i sz 0 insist s = Some (Some (sz, s'))" "map_inv m s'"
      and t: "takes {unat (r_base ?e)..<unat (r_base ?e) + unat sz} (entries s) (entries s')"
      using alloc_extend_part [OF e' assms(2) pp(1) assms(3) pp(2) 1] unfolding p(2) by blast
    then show ?thesis using found_blockI [OF t assms(4) order_refl] by blast
  next
    case 2
    then show ?thesis by (simp add: alloc_extend_def Let_def)
  next
    case 3
    obtain s' where "alloc_extend i sz 0 insist s = Some (Some (r_size ?e, s'))" "map_inv m s'"
      and t: "takes (bytes_of ?e) (entries s) (entries s')"
      using alloc_extend_all [OF e' assms(2) pp(1) assms(3) pp(2) 3(1)] unfolding p(2) 3(2) by blast
    moreover have "?e \<in> set (entries s)" by (subst e(1)) simp
    ultimately show ?thesis using found_whole [OF assms(2) _ t 3(1)] by blast
  qed
qed

text \<open>The outcome of the search: nothing found, or a block taken.\<close>

definition search_outcome :: "nat \<Rightarrow> nat \<Rightarrow> nat \<Rightarrow> bool \<Rightarrow> u64 \<Rightarrow> physmap \<Rightarrow> (boot_phys_alloc_t \<times> boot_phys_alloc_t \<times> physmap) option \<Rightarrow> bool" where
  "search_outcome m n i insist sz s r \<longleftrightarrow>
    (case r of None \<Rightarrow> False
     | Some (a, u, s') \<Rightarrow> a_size u = 0 \<and> map_inv m s' \<and>
         (if a_size a = 0 then s' = s \<and> (\<not> insist \<longrightarrow> (\<forall>k<n. r_type (ranges s (i + k)) \<noteq> NORMAL))
          else found_block a sz s s'))"

lemma search_outcome_Suc:
  assumes "search_outcome m n (Suc i) insist sz s r" and "r_type (ranges s i) = NORMAL \<Longrightarrow> insist"
  shows "search_outcome m (Suc n) i insist sz s r"
proof -
  have "(\<forall>k<Suc n. r_type (ranges s (i + k)) \<noteq> NORMAL)
      \<longleftrightarrow> r_type (ranges s i) \<noteq> NORMAL \<and> (\<forall>k<n. r_type (ranges s (Suc i + k)) \<noteq> NORMAL)" by (auto simp: less_Suc_eq_0_disj)
  then show ?thesis using assms by (auto simp: search_outcome_def split: option.splits)
qed

lemma search_outcome_found:
  "found_block a sz s s' \<Longrightarrow> map_inv m s' \<Longrightarrow> a_size u = 0 \<Longrightarrow> search_outcome m n i insist sz s (Some (a, u, s'))"
  by (auto simp: search_outcome_def found_block_def)

lemma alloc_phys_loop_spec:
  assumes "\<forall>k<n. i + k < physalloc_count s" and "map_inv m s" and "physalloc_count s < m" and "sz \<noteq> 0"
    and "a_size res = 0" and "a_size unw = 0"
  shows "search_outcome m n i insist sz s (alloc_phys_loop n i sz 0 insist res unw s)"
  using assms(1,5,6)
proof (induction n arbitrary: i res unw)
  case 0
  then show ?case using assms(2) by (simp add: search_outcome_def)
next
  case (Suc n)
  let ?e = "ranges s i"
  have i: "i < physalloc_count s" using Suc.prems(1) [rule_format, of 0] by simp
  then have nz: "\<not> r_size ?e \<le> 0"
    using assms(2) apart_sizes [of "entries s" ?e] by (auto simp: map_inv_def entries_def)
  have "\<forall>k<n. Suc i + k < physalloc_count s" using Suc.prems(1) by auto
  note IH = search_outcome_Suc [OF Suc.IH [OF this]]
  show ?case
  proof (cases "r_type ?e = NORMAL")
    case False
    then show ?thesis using IH [OF Suc.prems(2,3)] by simp
  next
    case True
    let ?res = "res\<lparr> a_base := r_base ?e \<rparr>" and ?unw = "phys_block (r_base ?e) 0"
    have r0: "realign_of sz 0 ?e = 0" by (simp add: realign_of_def)
    have pz: "a_size ?res = 0" "a_size ?unw = 0" using Suc.prems(2) by (simp_all add: phys_block_def)
    show ?thesis
    proof (cases "0 < i \<and> r_type (ranges s (i - 1)) = ALLOCATED \<and> r_end (ranges s (i - 1)) = r_base ?e")
      case adj: True
      then show ?thesis
        using alloc_extend_spec [OF i assms(2) True assms(4), of insist res] IH [OF pz] pz True nz
        by (auto simp: Let_def r0 intro: search_outcome_found)
    next
      case False
      then show ?thesis
        using alloc_split_spec [OF i assms(2,3) True assms(4), of res] pz True nz
        by (auto simp: Let_def r0 intro: search_outcome_found)
    qed
  qed
qed

definition search_start :: "physmap \<Rightarrow> nat" where
  "search_start s = unat (if physalloc_20bit_1st s = 0 then physalloc_20bit_st s else physalloc_20bit_1st s)"


subsection \<open>The highest page\<close>

lemma alloc_high_loop_skip:
  "\<forall>k. Suc i \<le> k \<and> k < n \<longrightarrow> r_type (ranges s k) \<noteq> NORMAL \<Longrightarrow> i < n \<Longrightarrow> r_type (ranges s i) = NORMAL
    \<Longrightarrow> alloc_high_loop n s = high_take (Suc i) s"
proof (induction n)
  case (Suc n)
  then show ?case by (cases "n = i") auto
qed simp

lemma takes_part_next:
  assumes "apart (xs @ e # y # ys)" and "r_type e = NORMAL" and "r_type y = ALLOCATED" and "A \<subseteq> bytes_of e"
    and "typed_bytes NORMAL es = bytes_of e - A" and "typed_bytes ALLOCATED es = bytes_of y \<union> A"
    and "\<And>t. t \<noteq> NORMAL \<Longrightarrow> t \<noteq> ALLOCATED \<Longrightarrow> typed_bytes t es = {}"
  shows "takes A (xs @ e # y # ys) (xs @ es @ ys)"
  using typed_bytes_around [of xs e "y # ys" NORMAL] assms unfolding takes_def by auto

lemma set_end_facts:
  assumes "no_wrap e" and "4096 < unat (r_size e)"
  defines "st \<equiv> r_end e - 4096"
  shows "unat st = unat (r_base e) + unat (r_size e) - 4096" and "unat (r_size (set_end st e)) = unat (r_size e) - 4096"
    and "r_base (set_end st e) = r_base e" and "r_type (set_end st e) = r_type e"
proof -
  show u: "unat st = unat (r_base e) + unat (r_size e) - 4096"
    unfolding st_def using unat_r_end [OF assms(1)] assms(2) by (subst unat_sub) (simp_all add: word_le_nat_alt)
  then show "unat (r_size (set_end st e)) = unat (r_size e) - 4096"
    using assms(2) unfolding set_end_def by (simp, subst unat_sub) (simp_all add: word_le_nat_alt)
qed (simp_all add: set_end_def)

text \<open>
  One page.  When the highest free entry is larger than a page, \<open>alloc_high\<close> returns its last page, which was free
  and is now allocated; every other byte keeps its type, and the map stays well formed.
\<close>

theorem alloc_high_top_page:
  assumes "map_inv m s" and "physalloc_count s < m" and "entries s = xs @ e # ys" and "r_type e = NORMAL"
    and "\<forall>y\<in>set ys. r_type y \<noteq> NORMAL" and "4096 < unat (r_size e)"
  shows "\<exists>s'. alloc_high s = Some (phys_block (r_end e - 4096) 4096, s') \<and> map_inv m s'
    \<and> takes {unat (r_end e) - 4096..<unat (r_end e)} (entries s) (entries s')"
proof -
  let ?st = "r_end e - 4096" and ?i = "Suc (length xs)"
  let ?A = "{unat (r_end e) - 4096..<unat (r_end e)}" and ?e = "set_end (r_end e - 4096) e"
  have a: "apart (xs @ e # ys)" using assms(1,3) by (simp add: map_inv_def)
  then have n: "no_wrap e" by (simp add: apart_append apart_Cons)
  note f = set_end_facts [OF n assms(6)] and ue = unat_r_end [OF n]
  have ez: "r_size ?e \<noteq> 0" using f(2) assms(6) by (metis diff_is_0_eq' not_le unsigned_0 zero_less_diff less_irrefl)
  have be: "bytes_of ?e = bytes_of e - ?A" using f ue assms(6) by (auto simp: bytes_of_def)
  have sub: "?A \<subseteq> bytes_of e" using ue assms(6) by (auto simp: bytes_of_def)
  let ?s = "upd_range (length xs) (set_end ?st) s"
  have es: "entries ?s = xs @ ?e # ys" by (rule entries_upd_at [OF assms(3)])
  have at: "ranges s (length xs) = e" "physalloc_count s = Suc (length xs + length ys)" using entries_at [OF assms(3)] by simp_all
  have "r_type (ranges s k) \<noteq> NORMAL" if "?i \<le> k" "k < physalloc_count s" for k
  proof -
    have "entries s ! k = ys ! (k - ?i)" using that by (auto simp: assms(3) nth_append nth_Cons split: nat.splits dest!: diff_eq_Suc_dest)
    then show ?thesis using assms(5) that at(2) by (auto simp: nth_mem)
  qed
  then have h: "alloc_high s = high_take ?i s"
    unfolding alloc_high_def using at assms(4) by (intro alloc_high_loop_skip) auto
  show ?thesis
  proof (cases "ys \<noteq> [] \<and> r_base (hd ys) = r_end e \<and> r_type (hd ys) = ALLOCATED")
    case True
    then obtain y zs where y: "ys = y # zs" "r_base y = r_end e" "r_type y = ALLOCATED" by (cases ys) auto
    let ?y = "set_start ?st y" and ?t = "upd_range ?i (set_start ?st) ?s"
    have et: "entries ?t = xs @ [?e, ?y] @ zs" using entries_upd_at [of ?s "xs @ [?e]" y zs] es y(1) by simp
    have ry: "ranges s ?i = y" using entries_at(1) [of s "xs @ [e]" y zs] assms(3) y(1) by simp
    have ny: "no_wrap y" using a y(1) by (simp add: apart_append apart_Cons)
    have sy: "r_size ?y = r_size y + 4096" "r_base ?y = ?st" "r_type ?y = ALLOCATED" using y by (simp_all add: set_start_def)
    have uy: "unat (r_size ?y) = unat (r_size y) + 4096"
      unfolding sy(1) using ny y(2) ue assms(6) by (subst unat_add_64) (simp_all add: no_wrap_def)
    then have yz: "r_size ?y \<noteq> 0" by (metis add_is_0 unsigned_0 zero_neq_numeral)
    have "apart (entries ?t)"
      unfolding et using a f ez yz uy ue y(2) sy assms(6) unfolding y(1) by (auto simp: apart_append apart_Cons no_wrap_def)
    moreover have "bytes_of ?y = bytes_of y \<union> ?A" using uy sy f(1) ue y(2) assms(6) by (auto simp: bytes_of_def)
    then have "takes ?A (entries s) (entries ?t)"
      unfolding et assms(3) y(1) using be sub f(4) sy(3) assms(4) y(3) a
      by (intro takes_part_next [OF _ assms(4) y(3)]) (simp_all add: y(1))
    moreover have "alloc_high s = Some (phys_block ?st 4096, ?t)"
      unfolding h high_take_def using True y at ry by (simp add: Let_def)
    ultimately show ?thesis using assms(1) by (auto simp: map_inv_def)
  next
    case False
    let ?a = "mk_range ?st 4096 ALLOCATED"
    have es': "entries ?s = (xs @ [?e]) @ ys" using es by simp
    obtain t where t: "physmap_insert_at ?i ?a ?s = Some t" "entries t = (xs @ [?e]) @ ?a # ys" "storage_ok m t" "first_64 t \<le> physalloc_count t"
      by (rule insert_at [OF es', of m ?a]) (use assms(1,2) in \<open>simp_all add: map_inv_def\<close>)
    have "apart (entries t)" unfolding t(2) using a f ez ue assms(6) by (auto simp: apart_append apart_Cons no_wrap_def)
    moreover have "bytes_of ?a = ?A" using f(1) ue assms(6) by (auto simp: bytes_of_def)
    then have "takes ?A (entries s) (xs @ [?e, ?a] @ ys)"
      unfolding assms(3) using be sub f(4) assms(4) by (intro takes_part [OF a assms(4)]) simp_all
    moreover have "ys \<noteq> [] \<Longrightarrow> ranges s ?i = hd ys"
      using entries_at(1) [of s "xs @ [e]" "hd ys" "tl ys"] assms(3) by simp
    then have "\<not> (?i < physalloc_count s \<and> r_base (ranges s ?i) = r_end e \<and> r_type (ranges s ?i) = ALLOCATED)"
      using False at(2) by auto
    then have "alloc_high s = Some (phys_block ?st 4096, t)"
      unfolding h high_take_def using at t(1) by (auto simp: Let_def)
    ultimately show ?thesis using t by (auto simp: map_inv_def)
  qed
qed

section \<open>Freeing a block\<close>

definition closes_hole :: "physmem_range_t list \<Rightarrow> physmem_range_t \<Rightarrow> physmem_range_t list \<Rightarrow> bool" where
  "closes_hole xs b ys \<longleftrightarrow> xs \<noteq> [] \<and> ys \<noteq> [] \<and> r_type (last xs) = NORMAL \<and> r_end (last xs) = r_base b
     \<and> r_type (hd ys) = NORMAL \<and> r_end b = r_base (hd ys)"

definition frees :: "physmem_range_t list \<Rightarrow> physmem_range_t \<Rightarrow> physmem_range_t list \<Rightarrow> physmem_range_t list \<Rightarrow> bool" where
  "frees xs b ys es \<longleftrightarrow>
     typed_bytes NORMAL es = typed_bytes NORMAL (xs @ b # ys) \<union> bytes_of b - (if closes_hole xs b ys then bytes_of (hd ys) else {})
     \<and> typed_bytes ALLOCATED es = typed_bytes ALLOCATED (xs @ b # ys) - bytes_of b
     \<and> (\<forall>t. t \<noteq> NORMAL \<longrightarrow> t \<noteq> ALLOCATED \<longrightarrow> typed_bytes t es = typed_bytes t (xs @ b # ys))"

lemma apart_first:
  assumes "apart (xs @ y # ys)" and "x \<in> set xs"
  shows "r_base x < r_base y"
proof -
  have "apart xs" "unat (r_base x) + unat (r_size x) \<le> unat (r_base y)" using assms by (auto simp: apart_append)
  then show ?thesis using apart_sizes [of xs x] assms(2) by (auto simp: word_less_nat_alt)
qed

lemma free_search_exact:
  assumes "entries s = xs @ b # ys" and "map_inv m s" and "unat (physalloc_20bit_1st s) \<le> length xs" and "length xs < first_64 s"
  shows "free_search (phys_block (r_base b) n) s = length xs"
proof -
  let ?lo = "unat (physalloc_20bit_1st s)" and ?hi = "first_64 s" and ?n = "length xs"
  let ?p = "search_loop s (r_base b) ?lo ?hi"
  have hi: "?hi \<le> physalloc_count s" and a: "apart (entries s)" using assms(2) by (simp_all add: map_inv_def)
  have b: "ranges s ?n = b" by (rule entries_at(1) [OF assms(1)])
  have lt: "r_base (ranges s i) < r_base (ranges s j)" if "i < j" "j < physalloc_count s" for i j
    using apart_nth [OF a that(1)] apart_sizes [OF a nth_mem, of i] that by (simp add: word_less_nat_alt)
  have "base_sorted ?lo ?hi s" unfolding base_sorted_def using lt hi by (auto intro: less_imp_le)
  then have sp: "splits_at s (r_base b) ?lo ?p ?p ?hi"
    using assms(3,4) by (intro search_loop_splits) (auto simp: splits_at_def)
  have "\<not> ?n < ?p" using sp assms(3,4) b by (auto simp: splits_at_def)
  moreover have "\<not> ?p < ?n" using sp lt [of ?p ?n] assms(4) b hi by (auto simp: splits_at_def)
  ultimately have "?p = ?n" by simp
  then show ?thesis by (simp add: free_search_def Let_def phys_block_def b flip: first_64_def)
qed

lemma frees_prev:
  assumes "apart (zs @ p # b # ys)" and "r_type p = NORMAL" and "r_end p = r_base b" and "r_type b = ALLOCATED"
    and "\<not> closes_hole (zs @ [p]) b ys"
  shows "frees (zs @ [p]) b ys (zs @ p\<lparr> r_size := r_size p + r_size b \<rparr> # ys)" and "apart (zs @ p\<lparr> r_size := r_size p + r_size b \<rparr> # ys)"
proof -
  have n: "no_wrap p" "no_wrap b" using assms(1) by (simp_all add: apart_append apart_Cons)
  show "apart (zs @ p\<lparr> r_size := r_size p + r_size b \<rparr> # ys)" by (rule apart_join [OF assms(1,3)])
  show "frees (zs @ [p]) b ys (zs @ p\<lparr> r_size := r_size p + r_size b \<rparr> # ys)"
    using typed_bytes_around [of "zs @ [p]" b ys ALLOCATED] assms bytes_of_join(1) [OF n assms(3)] by (auto simp: frees_def)
qed

lemma frees_hole:
  assumes "apart (zs @ p # b # y # ys)" and "closes_hole (zs @ [p]) b (y # ys)" and "r_type b = ALLOCATED"
  shows "frees (zs @ [p]) b (y # ys) (zs @ p\<lparr> r_size := r_size p + r_size b \<rparr> # ys)" and "apart (zs @ p\<lparr> r_size := r_size p + r_size b \<rparr> # ys)"
proof -
  have n: "no_wrap p" "no_wrap b" using assms(1) by (simp_all add: apart_append apart_Cons)
  have pb: "r_type p = NORMAL" "r_end p = r_base b" "r_type y = NORMAL" using assms(2) by (simp_all add: closes_hole_def)
  have "apart (zs @ p\<lparr> r_size := r_size p + r_size b \<rparr> # y # ys)" by (rule apart_join [OF assms(1) pb(2)])
  then show "apart (zs @ p\<lparr> r_size := r_size p + r_size b \<rparr> # ys)" by (auto simp: apart_append apart_Cons)
  have "bytes_of b \<inter> bytes_of y = {}" using assms(1) by (auto simp: apart_append apart_Cons bytes_of_def)
  then show "frees (zs @ [p]) b (y # ys) (zs @ p\<lparr> r_size := r_size p + r_size b \<rparr> # ys)"
    using typed_bytes_around [of "zs @ [p]" b "y # ys" ALLOCATED] typed_bytes_around [of "zs @ [p, b]" y ys NORMAL]
      assms pb bytes_of_join(1) [OF n pb(2)] by (auto simp: frees_def)
qed

lemma frees_next:
  assumes "apart (xs @ b # y # ys)" and "r_type y = NORMAL" and "r_end b = r_base y" and "r_type b = ALLOCATED"
    and "\<not> closes_hole xs b (y # ys)"
  defines "z \<equiv> y\<lparr> r_base := r_base y - r_size b, r_size := r_size y + r_size b \<rparr>"
  shows "frees xs b (y # ys) (xs @ z # ys)" and "apart (xs @ z # ys)"
proof -
  have n: "no_wrap b" "no_wrap y" using assms(1) by (simp_all add: apart_append apart_Cons)
  have "r_base y - r_size b = r_base b" using assms(3) by (simp add: r_end_def algebra_simps)
  then have z: "r_base z = r_base b" "r_size z = r_size b + r_size y" "r_type z = NORMAL" using assms(2) by (simp_all add: z_def)
  note j = bytes_of_join [OF n assms(3)]
  have bz: "bytes_of z = bytes_of b \<union> bytes_of y" using j(1) z by (simp add: bytes_of_def)
  show "apart (xs @ z # ys)"
    using apart_join [OF assms(1,3)] z by (auto simp: apart_append apart_Cons no_wrap_def)
  show "frees xs b (y # ys) (xs @ z # ys)"
    using typed_bytes_around [of xs b "y # ys" ALLOCATED] assms(1,2,4,5) z(3) bz by (auto simp: frees_def)
qed

lemma frees_alone:
  assumes "apart (xs @ b # ys)" and "r_type b = ALLOCATED" and "\<not> closes_hole xs b ys"
  shows "frees xs b ys (xs @ mk_range (r_base b) (r_size b) NORMAL # ys)" and "apart (xs @ mk_range (r_base b) (r_size b) NORMAL # ys)"
proof -
  show "apart (xs @ mk_range (r_base b) (r_size b) NORMAL # ys)" using assms(1) by (auto simp: apart_append apart_Cons no_wrap_def)
  show "frees xs b ys (xs @ mk_range (r_base b) (r_size b) NORMAL # ys)"
    using typed_bytes_around [OF assms(1), of ALLOCATED] assms(2,3) by (auto simp: frees_def bytes_of_def)
qed

lemma free_finish_insert [code]: "free_finish st freed s = free_insert st freed s"
  by (cases "free_insert st freed s") (simp_all add: free_finish_def)

lemma free_insert_spec:
  assumes "entries s = xs @ ys" and "storage_ok m s" and "first_64 s \<le> physalloc_count s" and "physalloc_count s < m"
    and "apart (xs @ b # ys)" and "r_type b = ALLOCATED"
  shows "\<exists>s'. free_insert (length xs) (phys_block (r_base b) (r_size b)) s = Some s' \<and> map_inv m s' \<and> frees xs b ys (entries s')"
proof -
  let ?st = "length xs" and ?f = "phys_block (r_base b) (r_size b)"
  let ?prev = "ys \<noteq> [] \<and> xs \<noteq> [] \<and> r_type (last xs) = NORMAL \<and> r_end (last xs) = r_base b"
  let ?next = "ys \<noteq> [] \<and> r_end b = r_base (hd ys) \<and> r_type (hd ys) = NORMAL"
  have c: "physalloc_count s = length xs + length ys" using length_entries [of s] assms(1) by simp
  have lx: "ranges s (?st - 1) = last xs" if "xs \<noteq> []"
  proof -
    have "?st - 1 < physalloc_count s" using that c by (cases xs) simp_all
    then show ?thesis using that nth_entries [of "?st - 1" s] by (simp add: assms(1) nth_append last_conv_nth)
  qed
  have hy: "ranges s ?st = hd ys" if "ys \<noteq> []"
    using that nth_entries [of ?st s] c by (simp add: assms(1) nth_append hd_conv_nth)
  have ae: "a_end ?f = r_end b" "a_base ?f = r_base b" "a_size ?f = r_size b" by (simp_all add: a_end_def phys_block_def r_end_def)
  have lt: "?st < physalloc_count s \<longleftrightarrow> ys \<noteq> []" using c by simp
  have pn: "(0 < ?st \<and> ?st < physalloc_count s \<and> r_type (ranges s (?st - 1)) = NORMAL \<and>
      (if 0 < ?st \<and> ?st < physalloc_count s then r_end (ranges s (?st - 1)) else 0) = a_base ?f) \<longleftrightarrow> ?prev"
    "(?st < physalloc_count s \<and> a_end ?f = (if ?st < physalloc_count s then r_base (ranges s ?st) else - 1)
      \<and> r_type (ranges s ?st) = NORMAL) \<longleftrightarrow> ?next"
    using lx hy by (auto simp: lt ae)
  note fi = free_insert_def [of ?st ?f s, unfolded Let_def, unfolded pn, unfolded ae]
  have ch: "closes_hole xs b ys \<longleftrightarrow> ?prev \<and> ?next" by (auto simp: closes_hole_def)
  let ?j = "\<lambda>r. r\<lparr> r_size := r_size r + r_size b \<rparr>"
  have prev: "\<exists>zs p. xs = zs @ [p] \<and> entries (upd_range (?st - 1) ?j s) = zs @ ?j p # ys" if ne: "xs \<noteq> []"
  proof -
    obtain zs p where z: "xs = zs @ [p]" using ne by (cases xs rule: rev_cases) auto
    then show ?thesis using entries_upd_at [of s zs p ys ?j] assms(1) by simp
  qed
  consider (p) "?prev" "\<not> ?next" | (n) "\<not> ?prev" "?next" | (h) "?prev" "?next" | (a) "\<not> ?prev" "\<not> ?next" by blast
  then show ?thesis
  proof cases
    case p
    then obtain zs q where z: "xs = zs @ [q]" "entries (upd_range (?st - 1) ?j s) = zs @ ?j q # ys" using prev by blast
    have "free_insert ?st ?f s = Some (upd_range (?st - 1) ?j s)" unfolding fi using p by simp
    then show ?thesis using frees_prev [of zs q b ys] z p assms ch by (auto simp: map_inv_def)
  next
    case n
    then obtain y zs where y: "ys = y # zs" by (cases ys) auto
    have "free_insert ?st ?f s = Some (upd_range ?st (\<lambda>r. r\<lparr> r_base := r_base r - r_size b, r_size := r_size r + r_size b \<rparr>) s)"
      unfolding fi using n by simp
    then show ?thesis
      using frees_next [of xs b y zs] y n assms ch entries_upd_at [of s xs y zs] by (auto simp: map_inv_def)
  next
    case h
    then obtain zs q where z: "xs = zs @ [q]" "entries (upd_range (?st - 1) ?j s) = zs @ ?j q # ys" using prev by blast
    obtain y us where y: "ys = y # us" using h by (cases ys) auto
    have "entries (upd_range (?st - 1) ?j s) = (zs @ [?j q]) @ y # us" using z(2) y by simp
    then obtain s' where "physmap_delete (length (zs @ [?j q])) (upd_range (?st - 1) ?j s) = Some s'" "entries s' = (zs @ [?j q]) @ us"
      "storage_ok m s'" "first_64 s' \<le> physalloc_count s'"
      by (rule delete_at [where m = m]) (use assms(2,3) in simp)
    moreover have "free_insert ?st ?f s = physmap_delete ?st (upd_range (?st - 1) ?j s)" unfolding fi using h by simp
    ultimately show ?thesis using frees_hole [of zs q b y us] z(1) y h assms ch by (auto simp: map_inv_def)
  next
    case a
    obtain s' where "physmap_insert_at ?st (mk_range (r_base b) (r_size b) NORMAL) s = Some s'"
      "entries s' = xs @ mk_range (r_base b) (r_size b) NORMAL # ys" "storage_ok m s'" "first_64 s' \<le> physalloc_count s'"
      by (rule insert_at [OF assms(1,2,4), of "mk_range (r_base b) (r_size b) NORMAL"]) (use assms(3) in simp)
    moreover have "free_insert ?st ?f s = physmap_insert_at ?st (mk_range (r_base b) (r_size b) NORMAL) s" unfolding fi by (simp only: a simp_thms if_False)
    ultimately show ?thesis using frees_alone [OF assms(5,6)] a ch by (auto simp: map_inv_def)
  qed
qed


section \<open>Defects\<close>

text \<open>
  C40. Taking a range from the middle of an entry.  \<open>physmap_take_range\<close> returns and leaves three entries, but the one for
  the part after the taken range has the size \<open>end - prev_end\<close>, the negative of its length, so it wraps around.
\<close>

theorem take_range_wrong_tail:
  assumes "map_inv m s" and "entries s = xs @ p # y # ys" and "r_base p < b" and "no_wrap (mk_range b sz ty)"
    and "b + sz < r_end p" and "physalloc_count s + 2 \<le> m"
  shows "\<exists>s'. physmap_take_range b sz ty s = Some (Suc (length xs), s')
    \<and> entries s' = xs @ [p\<lparr> r_size := b - r_base p \<rparr>, mk_range b sz ty, mk_range (b + sz) (- (r_end p - (b + sz))) (r_type p)] @ y # ys"
proof -
  let ?i = "Suc (length xs)" and ?f = "\<lambda>q. q\<lparr> r_size := b - r_base q \<rparr>" and ?en = "b + sz"
  have a: "apart (xs @ p # y # ys)" using assms(1,2) by (simp add: map_inv_def)
  then have n: "no_wrap p" "no_wrap y" "unat (r_end p) \<le> unat (r_base y)" by (simp_all add: apart_append apart_Cons unat_r_end)
  have en: "unat ?en = unat b + unat sz" using unat_r_end [OF assms(4)] by (simp add: r_end_def)
  have at: "ranges s (length xs) = p" "ranges s ?i = y" "?i < physalloc_count s"
    using entries_at [OF assms(2)] entries_at [of s "xs @ [p]" y ys] assms(2) by simp_all
  have ye: "\<not> r_end y \<le> ?en" "\<not> r_base y < ?en" "\<not> r_base y \<le> b"
    using n en assms(5) by (simp_all add: word_less_nat_alt word_le_nat_alt unat_r_end)
  have ix: "physmap_find_insertion_point b s = ?i"
  proof -
    let ?q = "physmap_find_insertion_point b s"
    have "sorted (map r_base (entries s))" "\<forall>r\<in>set (entries s). no_wrap r"
      using assms(1) apart_bases [of "entries s"] apart_sizes [of "entries s"] by (auto simp: map_inv_def)
    note q = find_insertion_point_splits [OF this, of b]
    have "\<not> ?q \<le> length xs" using q(3) assms(3) by (auto simp: assms(2))
    moreover have "\<not> Suc ?i \<le> ?q"
    proof
      assume "Suc ?i \<le> ?q"
      then have "take ?q (entries s) ! ?i = y" "?i < length (take ?q (entries s))" using at by simp_all
      then have "y \<in> set (take ?q (entries s))" by (metis nth_mem)
      then show False using q(2) ye(3) by blast
    qed
    ultimately show ?thesis by simp
  qed
  have b1: "bulldoze ?i ?en s = Some s" using at ye by (subst bulldoze.simps) simp
  let ?s = "upd_range (length xs) ?f s"
  have es: "entries ?s = (xs @ [?f p]) @ y # ys" using entries_upd_at [OF assms(2), of ?f] by simp
  obtain s1 where s1: "physmap_insert_at ?i (mk_range ?en (?en - r_end p) (r_type p)) ?s = Some s1"
    "entries s1 = (xs @ [?f p]) @ mk_range ?en (?en - r_end p) (r_type p) # y # ys" "storage_ok m s1"
    by (rule insert_at [OF es, of m "mk_range ?en (?en - r_end p) (r_type p)"]) (use assms(1,6) in \<open>simp_all add: map_inv_def\<close>)
  obtain s2 where s2: "physmap_insert_at ?i (mk_range b sz ty) s1 = Some s2"
    "entries s2 = (xs @ [?f p]) @ mk_range b sz ty # mk_range ?en (?en - r_end p) (r_type p) # y # ys"
    using insert_at [OF s1(2,3), of "mk_range b sz ty"] length_entries [of s1] length_entries [of s] assms(2,6) s1(2) by auto
  have "b - r_base p \<noteq> 0" "(r_end p < ?en) = False" "?en - r_end p \<noteq> 0" "(r_base y < ?en) = False" using assms(3,5) ye(2) by auto
  then have "physmap_take_range b sz ty s = Some (?i, s2)"
    using ix b1 at s1(1) s2(1) by (simp add: physmap_take_range_def Let_def take_prev_def)
  then show ?thesis using s2(2) by simp
qed

section \<open>Concrete maps\<close>

definition demo_entries :: "physmem_range_t list" where
  "demo_entries = [mk_range 0 0x9F000 NORMAL, mk_range 0x9F000 0x1000 UNUSABLE, mk_range 0x100000 0x5000 ALLOCATED,
     mk_range 0x105000 0x7FEFB000 NORMAL, mk_range 0xFD000000 0x1000000 UNUSABLE]"

definition demo_map :: physmap where
  "demo_map = (no_ranges 1000)\<lparr> ranges := (\<lambda>k. if k < 5 then demo_entries ! k else mk_range 0 0 0), physalloc_count := 5,
     physalloc_capacity := 32, physalloc_20bit_st := 2, physalloc_64bit_st := 5, physalloc_20bit_1st := 2 \<rparr>"

definition demo_bios :: bios where
  "demo_bios buf c = (if c = 0 then (mk_range 0x100000 0x7F00000 NORMAL, 1, 0x534D4150, False)
     else if c = 1 then (mk_range 0 0x9F000 NORMAL, 2, 0x534D4150, False)
     else (mk_range 0x9F000 0x1000 UNUSABLE, 0, 0x534D4150, False))"

lemma demo_map_inv: "entries demo_map = demo_entries" "map_inv 60 demo_map" "physalloc_count demo_map = 5" "first_64 demo_map = 5"
proof -
  show e: "entries demo_map = demo_entries" by (simp add: entries_def demo_map_def no_ranges_def upt_rec demo_entries_def)
  show "physalloc_count demo_map = 5" "first_64 demo_map = 5" by (simp_all add: demo_map_def first_64_def)
  show "map_inv 60 demo_map"
    unfolding map_inv_def e
    by (simp add: demo_entries_def apart_Cons no_wrap_def storage_ok_def demo_map_def no_ranges_def first_64_def)
qed





theorem take_range_wrong_tail_witness:
  "\<exists>s'. physmap_take_range 0x200000 0x1000 7 demo_map = Some (4, s') \<and> r_size (entries s' ! 5) = - 0x7FDFF000"
proof -
  let ?xs = "[mk_range 0 0x9F000 NORMAL, mk_range 0x9F000 0x1000 UNUSABLE, mk_range 0x100000 0x5000 ALLOCATED]"
  have e: "entries demo_map = ?xs @ mk_range 0x105000 0x7FEFB000 NORMAL # mk_range 0xFD000000 0x1000000 UNUSABLE # []"
    by (simp add: demo_map_inv demo_entries_def)
  show ?thesis
    using take_range_wrong_tail [OF demo_map_inv(2) e, of "0x200000" "0x1000" 7]
    by (auto simp: no_wrap_def r_end_def demo_map_inv(3))
qed

theorem alloc_high_top_page_witness:
  "\<exists>s'. alloc_high demo_map = Some (phys_block 0x7FFFF000 4096, s') \<and> map_inv 60 s'"
proof -
  let ?xs = "[mk_range 0 0x9F000 NORMAL, mk_range 0x9F000 0x1000 UNUSABLE, mk_range 0x100000 0x5000 ALLOCATED]"
  have e: "entries demo_map = ?xs @ mk_range 0x105000 0x7FEFB000 NORMAL # [mk_range 0xFD000000 0x1000000 UNUSABLE]"
    by (simp add: demo_map_inv demo_entries_def)
  show ?thesis
    using alloc_high_top_page [OF demo_map_inv(2) _ e] by (auto simp: r_end_def demo_map_inv(3))
qed

text \<open>An entry that is used up stays in the map with size 0, and the next call hands out the page below it,
  which belongs to no entry.\<close>

definition one_page :: physmap where
  "one_page = (no_ranges 100)\<lparr> ranges := (\<lambda>k. mk_range 0x200000 0x1000 NORMAL), physalloc_count := 1,
     physalloc_capacity := 32, physalloc_64bit_st := 1 \<rparr>"

lemma alloc_high_below_range:
  "map_option (\<lambda>(b, s). (a_base b, map_option (a_base \<circ> fst) (alloc_high s))) (alloc_high one_page)
     = Some (0x200000, Some 0x1FF000)"
  by code_simp

text \<open>Freeing the tail of an allocated entry puts the free entry before it.\<close>

lemma free_tail_unsorted:
  "map_option (\<lambda>s. map r_base (entries s)) (free_phys (phys_block 0x104000 0x1000) demo_map)
     = Some [0, 0x9F000, 0x104000, 0x100000, 0x105000, 0xFD000000]"
  by code_simp

end
