(* ===== verification/Radix_Tree.thy ===== *)
theory Radix_Tree
  imports Dgos_Prelude
begin

text \<open>
  The sparse byte array of the address sanitizer (kernel/lib/radix_tree.cc and radix_tree.h): a four level
  tree of tables of 512 pointers over data pages, all taken from a static pool of zeroed pages.
  Pointer slots and data bytes are two stores over the same addresses; that no page is used both ways
  is part of the invariant.  The atomic increment of the pool pointer is one step.
\<close>

section \<open>Model\<close>

record radix_tree_t =
  radix_tree :: ptr
  slot :: "ptr \<Rightarrow> ptr"
  cell :: "ptr \<Rightarrow> u8"
  asan_pool :: ptr
  asan_alloc_ptr :: u64

definition asan_pool_bytes :: u64 where
  "asan_pool_bytes = 4096 * drop_bit 14 (push_bit 28 1)"

definition alloc_page :: "radix_tree_t \<Rightarrow> ptr \<times> radix_tree_t" where
  "alloc_page t =
    (if asan_alloc_ptr t < asan_pool_bytes then
       let offset = asan_alloc_ptr t; t = t\<lparr> asan_alloc_ptr := asan_alloc_ptr t + 4096 \<rparr>
       in if offset < asan_pool_bytes then (asan_pool t + offset, t) else (0, t)
     else (0, t))"

definition commit_root :: "radix_tree_t \<Rightarrow> ptr \<times> radix_tree_t" where
  "commit_root t = (let (p, t) = alloc_page t in (p, t\<lparr> radix_tree := p \<rparr>))"

definition commit_slot :: "ptr \<Rightarrow> radix_tree_t \<Rightarrow> ptr \<times> radix_tree_t" where
  "commit_slot a t = (let (p, t) = alloc_page t in (p, t\<lparr> slot := (slot t)(a := p) \<rparr>))"

definition radix_index :: "nat \<Rightarrow> u64 \<Rightarrow> u64" where
  "radix_index level addr = drop_bit (12 + 9 * level) addr AND (push_bit 9 1 - 1)"

definition slot_addr :: "ptr \<Rightarrow> u64 \<Rightarrow> ptr" where
  "slot_addr p i = p + 8 * i"

definition lookup_present :: "u64 \<Rightarrow> radix_tree_t \<Rightarrow> ptr" where
  "lookup_present addr t =
    (let misalignment = addr AND 4095; addr = addr - misalignment;
         ai = radix_index 0 addr; bi = radix_index 1 addr; ci = radix_index 2 addr; di = radix_index 3 addr;
         level0 = slot t (slot_addr (radix_tree t) di);
         level1 = slot t (slot_addr level0 ci);
         level2 = slot t (slot_addr level1 bi);
         level3 = slot t (slot_addr level2 ai)
     in if radix_tree t = 0 \<or> level0 = 0 \<or> level1 = 0 \<or> level2 = 0 \<or> level3 = 0 then 0 else level3 + misalignment)"

text \<open>One level of a committing lookup: the pointer in a slot, allocated when it is null.\<close>

definition ensure_slot :: "ptr \<Rightarrow> radix_tree_t \<Rightarrow> ptr \<times> radix_tree_t" where
  "ensure_slot a t = (if slot t a = 0 then commit_slot a t else (slot t a, t))"

definition lookup_commit :: "u64 \<Rightarrow> radix_tree_t \<Rightarrow> ptr \<times> radix_tree_t" where
  "lookup_commit addr t =
    (let misalignment = addr AND 4095; addr = addr - misalignment;
         ai = radix_index 0 addr; bi = radix_index 1 addr; ci = radix_index 2 addr; di = radix_index 3 addr;
         (root, t) = (if radix_tree t = 0 then commit_root t else (radix_tree t, t))
     in if root = 0 then (0, t)
        else let (level0, t) = ensure_slot (slot_addr root di) t
          in if level0 = 0 then (0, t)
             else let (level1, t) = ensure_slot (slot_addr level0 ci) t
               in if level1 = 0 then (0, t)
                  else let (level2, t) = ensure_slot (slot_addr level1 bi) t
                    in if level2 = 0 then (0, t)
                       else let (level3, t) = ensure_slot (slot_addr level2 ai) t
                         in if level3 = 0 then (0, t) else (level3 + misalignment, t))"

definition radix_lookup :: "u64 \<Rightarrow> bool \<Rightarrow> radix_tree_t \<Rightarrow> ptr \<times> radix_tree_t" where
  "radix_lookup addr commit_pages t = (if \<not> commit_pages then (lookup_present addr t, t) else lookup_commit addr t)"

fun fill_bytes :: "nat \<Rightarrow> ptr \<Rightarrow> u8 \<Rightarrow> radix_tree_t \<Rightarrow> radix_tree_t" where
  "fill_bytes 0 p v t = t"
| "fill_bytes (Suc n) p v t = fill_bytes n (p + 1) v (t\<lparr> cell := (cell t)(p := v) \<rparr>)"

text \<open>The bytes from an address to the end of its page, at most the length that is left.\<close>

definition page_part :: "u64 \<Rightarrow> u64 \<Rightarrow> u64" where
  "page_part start len =
    (let page_end = (start + 4096) AND - 4096; fill = page_end - start
     in if len < fill then len else fill)"

lemma page_part_bounds:
  shows "len \<noteq> 0 \<Longrightarrow> page_part start len \<noteq> 0" and "page_part start len \<le> len"
    and "unat (page_part start len) = min (unat len) (4096 - unat start mod 4096)"
proof -
  have "(start + 4096) AND - (2 ^ 12) = start + 4096 - take_bit 12 (start + 4096)" by (rule and_neg_power_eq)
  moreover have "take_bit 12 (start + 4096) = take_bit 12 start"
    by (simp add: word_unat_eq_iff unat_take_bit unat_word_ariths mod_mod_cancel)
  ultimately have f: "((start + 4096) AND - 4096) - start = 4096 - take_bit 12 start" by simp
  have "unat (take_bit 12 start) < 4096" "unat (take_bit 12 start) = unat start mod 4096" by (simp_all add: unat_take_bit)
  then have u: "unat (4096 - take_bit 12 start) = 4096 - unat start mod 4096"
    by (subst unat_sub) (simp_all add: word_le_nat_alt)
  show m: "unat (page_part start len) = min (unat len) (4096 - unat start mod 4096)"
    unfolding page_part_def Let_def f using u by (auto simp: word_less_nat_alt)
  have "unat start mod 4096 < 4096" by simp
  then show "page_part start len \<noteq> 0" if "len \<noteq> 0"
    using m that by (metis diff_is_0_eq min_def not_le unsigned_0 unsigned_eq_0_iff)
  show "page_part start len \<le> len" using m by (simp add: word_le_nat_alt)
qed

function radix_fill :: "u64 \<Rightarrow> u8 \<Rightarrow> u64 \<Rightarrow> radix_tree_t \<Rightarrow> bool \<times> radix_tree_t" where
  "radix_fill start v len t =
    (if len \<noteq> 0 then
       let n = page_part start len; (p, t) = radix_lookup start True t
       in if p = 0 then (False, t) else radix_fill (start + n) v (len - n) (fill_bytes (unat n) p v t)
     else (True, t))"
  by pat_completeness auto
termination
  by (relation "measure (\<lambda>(start, v, len, t). unat len)")
    (use page_part_bounds(1,2) in \<open>auto simp: word_less_nat_alt unat_sub word_le_nat_alt unat_gt_0\<close>)

fun bytes_are :: "nat \<Rightarrow> ptr \<Rightarrow> u8 \<Rightarrow> radix_tree_t \<Rightarrow> bool" where
  "bytes_are 0 p v t \<longleftrightarrow> True"
| "bytes_are (Suc n) p v t \<longleftrightarrow> (if cell t p \<noteq> v then False else bytes_are n (p + 1) v t)"

function is_filled_with :: "u64 \<Rightarrow> u8 \<Rightarrow> u64 \<Rightarrow> radix_tree_t \<Rightarrow> bool" where
  "is_filled_with start v len t =
    (if len \<noteq> 0 then
       let n = page_part start len; p = fst (radix_lookup start False t)
       in if p = 0 then False
          else if \<not> bytes_are (unat n) p v t then False
          else is_filled_with (start + n) v (len - n) t
     else True)"
  by pat_completeness auto
termination
  by (relation "measure (\<lambda>(start, v, len, t). unat len)")
    (use page_part_bounds(1,2) in \<open>auto simp: word_less_nat_alt unat_sub word_le_nat_alt unat_gt_0\<close>)

declare radix_fill.simps [simp del] is_filled_with.simps [simp del]

section \<open>The tree as a sparse array\<close>

definition rix :: "nat \<Rightarrow> u64 \<Rightarrow> u64" where
  "rix k a = radix_index (3 - k) a"

primrec node :: "radix_tree_t \<Rightarrow> nat \<Rightarrow> u64 \<Rightarrow> ptr" where
  "node t 0 a = radix_tree t"
| "node t (Suc k) a = (if node t k a = 0 then 0 else slot t (slot_addr (node t k a) (rix k a)))"

definition pfx :: "nat \<Rightarrow> u64 \<Rightarrow> u64 \<Rightarrow> bool" where
  "pfx k a b \<longleftrightarrow> (\<forall>j<k. rix j a = rix j b)"

definition pool_page :: "radix_tree_t \<Rightarrow> nat \<Rightarrow> ptr" where
  "pool_page t j = asan_pool t + of_nat (4096 * j)"

definition pages_used :: "radix_tree_t \<Rightarrow> nat" where
  "pages_used t = unat (asan_alloc_ptr t) div 4096"

definition content :: "radix_tree_t \<Rightarrow> u64 \<Rightarrow> u8" where
  "content t b = (if node t 4 b = 0 then 0 else cell t (node t 4 b + (b AND 4095)))"

definition tree_inv :: "radix_tree_t \<Rightarrow> bool" where
  "tree_inv t \<longleftrightarrow> 0 < unat (asan_pool t) \<and> unat (asan_pool t) + 67108864 < 18446744073709551616
     \<and> asan_alloc_ptr t = of_nat (4096 * pages_used t) \<and> pages_used t \<le> 16384
     \<and> (\<forall>k a. k \<le> 4 \<longrightarrow> node t k a \<noteq> 0 \<longrightarrow> (\<exists>j<pages_used t. node t k a = pool_page t j))
     \<and> (\<forall>k k' a b. k \<le> 4 \<longrightarrow> k' \<le> 4 \<longrightarrow> node t k a \<noteq> 0 \<longrightarrow> node t k a = node t k' b \<longrightarrow> k = k' \<and> pfx k a b)
     \<and> (\<forall>j x. pages_used t \<le> j \<longrightarrow> j < 16384 \<longrightarrow> unat x < 4096 \<longrightarrow> slot t (pool_page t j + x) = 0 \<and> cell t (pool_page t j + x) = 0)"

lemma pfx_simps [simp]: "pfx 0 a b" "pfx k a a"
  by (simp_all add: pfx_def)

lemma pfx_Suc: "pfx (Suc k) a b \<longleftrightarrow> pfx k a b \<and> rix k a = rix k b"
  by (auto simp: pfx_def less_Suc_eq)

lemma pfx_sym: "pfx k a b \<Longrightarrow> pfx k b a"
  by (simp add: pfx_def)

lemma node_pfx: "pfx k a b \<Longrightarrow> node t k a = node t k b"
  by (induction k) (simp_all add: pfx_Suc)

lemma rix_bound: "unat (rix k a) < 512"
proof -
  have "push_bit 9 1 - 1 = (mask 9 :: u64)" by (simp add: mask_eq_exp_minus_1 push_bit_eq_mult)
  then show ?thesis unfolding rix_def radix_index_def by (simp only: unat_and_mask) simp
qed

lemma slot_offset: "unat (8 * rix k a) < 4096 \<and> unat (8 * rix k a) = 8 * unat (rix k a)"
  using rix_bound [of k a] by (simp add: unat_word_ariths)

lemma unat_pool:
  assumes "tree_inv t" and "j < 16384" and "unat x < 4096"
  shows "unat (pool_page t j + x) = unat (asan_pool t) + 4096 * j + unat x"
proof -
  have b: "unat (asan_pool t) + 67108864 < 18446744073709551616" using assms(1) by (simp add: tree_inv_def)
  have o: "unat (of_nat (4096 * j) :: u64) = 4096 * j" using assms(2) by (intro unat_of_nat_64) simp
  have "unat (pool_page t j) = unat (asan_pool t) + 4096 * j"
    unfolding pool_page_def using b o assms(2) by (subst unat_add_64) simp_all
  then show ?thesis using b assms(2,3) by (subst unat_add_64) simp_all
qed

lemma pool_inj:
  assumes "tree_inv t" and "i < 16384" and "j < 16384" and "unat x < 4096" and "unat y < 4096"
    and "pool_page t i + x = pool_page t j + y"
  shows "i = j \<and> x = y"
proof -
  have "4096 * i + unat x = 4096 * j + unat y"
    using unat_pool [OF assms(1,2,4)] unat_pool [OF assms(1,3,5)] assms(6) by simp
  then have "(4096 * i + unat x) div 4096 = (4096 * j + unat y) div 4096" "(4096 * i + unat x) mod 4096 = (4096 * j + unat y) mod 4096" by simp_all
  then show ?thesis using assms(4,5) by (simp add: word_unat_eq_iff)
qed

text \<open>A slot of one path is a slot of another path only at the same level and below the same prefix.\<close>

lemma slot_same:
  assumes "tree_inv t" and "k \<le> 4" and "k' \<le> 4" and "node t k a \<noteq> 0" and "node t k' b \<noteq> 0"
    and "slot_addr (node t k a) (rix k a) = slot_addr (node t k' b) (rix k' b)"
  shows "k = k' \<and> pfx (Suc k) a b"
proof -
  obtain i j where ij: "i < pages_used t" "node t k a = pool_page t i" "j < pages_used t" "node t k' b = pool_page t j"
    using assms(1-5) unfolding tree_inv_def by metis
  have u: "pages_used t \<le> 16384" using assms(1) by (simp add: tree_inv_def)
  have e: "i = j \<and> 8 * rix k a = 8 * rix k' b"
    by (rule pool_inj [OF assms(1)]) (use ij u slot_offset rix_bound assms(6) in \<open>auto simp: slot_addr_def\<close>)
  then have "rix k a = rix k' b" using slot_offset [of k a] slot_offset [of k' b] by (simp add: word_unat_eq_iff)
  moreover have "k = k' \<and> pfx k a b" using assms(1-4) e ij unfolding tree_inv_def by metis
  ultimately show ?thesis by (auto simp: pfx_Suc)
qed

definition grows :: "nat \<Rightarrow> u64 \<Rightarrow> radix_tree_t \<Rightarrow> radix_tree_t \<Rightarrow> bool" where
  "grows k a t t' \<longleftrightarrow> tree_inv t' \<and> node t' k a \<noteq> 0
     \<and> (\<forall>j b. j \<le> 4 \<longrightarrow> \<not> (j = k \<and> pfx k a b) \<longrightarrow> node t' j b = node t j b)
     \<and> (\<forall>b. content t' b = content t b) \<and> pages_used t' \<le> Suc (pages_used t)"

lemma grows_refl: "tree_inv t \<Longrightarrow> node t k a \<noteq> 0 \<Longrightarrow> grows k a t t"
  by (auto simp: grows_def)

lemma alloc_page_spec:
  assumes "tree_inv t"
  shows "if pages_used t = 16384 then alloc_page t = (0, t)
    else alloc_page t = (pool_page t (pages_used t), t\<lparr> asan_alloc_ptr := of_nat (4096 * Suc (pages_used t)) \<rparr>)
      \<and> pool_page t (pages_used t) \<noteq> 0"
proof -
  have u: "asan_alloc_ptr t = of_nat (4096 * pages_used t)" "pages_used t \<le> 16384" using assms by (simp_all add: tree_inv_def)
  then have "unat (asan_alloc_ptr t) = 4096 * pages_used t" by (simp add: unat_of_nat_64 del: of_nat_mult)
  moreover have "unat asan_pool_bytes = 67108864" by (simp add: asan_pool_bytes_def push_bit_eq_mult drop_bit_eq_div)
  ultimately have "asan_alloc_ptr t < asan_pool_bytes \<longleftrightarrow> pages_used t < 16384" by (simp add: word_less_nat_alt)
  moreover have "pool_page t (pages_used t) \<noteq> 0" if "pages_used t < 16384"
    using unat_pool [OF assms that, of 0] assms by (auto simp: tree_inv_def)
  moreover have "asan_alloc_ptr t + 4096 = of_nat (4096 * Suc (pages_used t))" by (simp add: u(1))
  ultimately show ?thesis using u(2)
    by (auto simp: alloc_page_def Let_def pool_page_def simp flip: u(1) simp del: of_nat_mult of_nat_Suc mult_Suc_right)
qed

text \<open>Writing a fresh page into an empty place of the path of an address.\<close>

lemma grows_fresh:
  assumes "tree_inv t" and "pages_used t < 16384" and "k \<le> 4" and "node t k a = 0"
    and "\<And>j b. j \<le> 4 \<Longrightarrow> node t' j b = (if j = k \<and> pfx k a b then pool_page t (pages_used t) else node t j b)"
    and "asan_pool t' = asan_pool t" and "asan_alloc_ptr t' = of_nat (4096 * Suc (pages_used t))" and "cell t' = cell t"
    and "\<And>j x. Suc (pages_used t) \<le> j \<Longrightarrow> j < 16384 \<Longrightarrow> unat x < 4096 \<Longrightarrow> slot t' (pool_page t j + x) = 0"
  shows "grows k a t t'"
proof -
  let ?n = "pages_used t" and ?p = "pool_page t (pages_used t)"
  have u: "pages_used t' = Suc ?n"
    unfolding pages_used_def [of t'] assms(7) using assms(2) by (subst unat_of_nat_64) simp_all
  have pp: "pool_page t' = pool_page t" by (rule ext) (simp add: pool_page_def assms(6))
  have p: "?p \<noteq> 0" using unat_pool [OF assms(1,2), of 0] assms(1) by (auto simp: tree_inv_def)
  have old: "\<exists>j<?n. node t i b = pool_page t j" if "i \<le> 4" "node t i b \<noteq> 0" for i b
    using assms(1) that by (simp add: tree_inv_def)
  have neq: "node t i b \<noteq> ?p" if "i \<le> 4" "node t i b \<noteq> 0" for i b
  proof -
    obtain j where "j < ?n" "node t i b = pool_page t j" using old [OF \<open>i \<le> 4\<close> \<open>node t i b \<noteq> 0\<close>] by blast
    then show ?thesis using pool_inj [OF assms(1), of j ?n 0 0] assms(2) by auto
  qed
  have "\<exists>j<Suc ?n. node t' i b = pool_page t j" if "i \<le> 4" "node t' i b \<noteq> 0" for i b
    using that old [of i b] assms(5) [of i b] by (auto simp: less_Suc_eq split: if_splits)
  moreover have "i = i' \<and> pfx i b b'" if i: "i \<le> 4" "i' \<le> 4" "node t' i b \<noteq> 0" "node t' i b = node t' i' b'" for i i' b b'
  proof (cases "(i = k \<and> pfx k a b) \<or> (i' = k \<and> pfx k a b')")
    case True
    then have "i = k \<and> i' = k \<and> pfx k a b \<and> pfx k a b'"
      using i neq [of i b] neq [of i' b'] assms(5) [of i b] assms(5) [of i' b'] by (auto split: if_splits)
    then show ?thesis unfolding pfx_def by metis
  next
    case False
    then show ?thesis using i assms(1) assms(5) [of i b] assms(5) [of i' b'] unfolding tree_inv_def by (metis (full_types))
  qed
  moreover have "slot t' (pool_page t j + x) = 0 \<and> cell t' (pool_page t j + x) = 0"
    if "Suc ?n \<le> j" "j < 16384" "unat x < 4096" for j x
    using that assms(1,8,9) by (auto simp: tree_inv_def)
  ultimately have "tree_inv t'" using assms(1,2,6,7) u unfolding tree_inv_def pp by auto
  moreover have "content t' b = content t b" for b
  proof (cases "k = 4 \<and> pfx k a b")
    case True
    have "unat (b AND 4095) < 4096" using unat_and_mask [of b 12] by (simp add: mask_numeral)
    then have "cell t (?p + (b AND 4095)) = 0" using assms(1,2) by (simp add: tree_inv_def)
    then show ?thesis using True assms(4,8) assms(5) [of 4 b] node_pfx [of 4 a b t] p by (simp add: content_def)
  next
    case False
    then show ?thesis using assms(5) [of 4 b] assms(8) by (auto simp: content_def)
  qed
  ultimately show ?thesis using assms(3,5) u p by (simp add: grows_def)
qed

lemma node_write_slot:
  fixes w :: u64
  assumes "tree_inv t" and "pages_used t < 16384" and "k < 4" and "node t k a \<noteq> 0" and "node t (Suc k) a = 0"
  defines "t' \<equiv> t\<lparr> asan_alloc_ptr := w, slot := (slot t)(slot_addr (node t k a) (rix k a) := pool_page t (pages_used t)) \<rparr>"
  shows "j \<le> 4 \<Longrightarrow> node t' j b = (if j = Suc k \<and> pfx (Suc k) a b then pool_page t (pages_used t) else node t j b)"
proof (induction j)
  case 0
  then show ?case by (simp add: t'_def)
next
  case (Suc j)
  let ?l = "slot_addr (node t k a) (rix k a)" and ?p = "pool_page t (pages_used t)"
  have IH: "node t' j b = (if j = Suc k \<and> pfx (Suc k) a b then ?p else node t j b)" using Suc by simp
  have sl: "slot t' x = (if x = ?l then ?p else slot t x)" for x by (simp add: t'_def)
  show ?case
  proof (cases "j = Suc k \<and> pfx (Suc k) a b")
    case True
    obtain i where i: "i < pages_used t" "node t k a = pool_page t i" using assms(1,3,4) unfolding tree_inv_def by (metis less_imp_le)
    have o: "unat (8 * rix k a) < 4096" "unat (8 * rix j b) < 4096" using slot_offset by blast+
    have "slot_addr ?p (rix j b) \<noteq> ?l"
      using pool_inj [OF assms(1,2), of i "8 * rix j b" "8 * rix k a"] i assms(2) o by (auto simp: slot_addr_def)
    moreover have "slot t (slot_addr ?p (rix j b)) = 0" using assms(1,2) o(2) by (simp add: tree_inv_def slot_addr_def)
    moreover have "node t j b = 0" using True node_pfx [of "Suc k" a b t] assms(5) by (simp only: True)
    ultimately show ?thesis using True IH sl by simp
  next
    case False
    then have n: "node t' j b = node t j b" using IH by auto
    show ?thesis
    proof (cases "node t j b = 0")
      case True
      then have "\<not> (j = k \<and> pfx (Suc k) a b)" using assms(4) node_pfx [of k a b t] by (auto simp: pfx_Suc)
      then show ?thesis using True n by auto
    next
      case nz: False
      have "slot_addr (node t j b) (rix j b) = ?l \<longleftrightarrow> j = k \<and> pfx (Suc k) a b"
        using slot_same [OF assms(1) _ _ assms(4) nz] assms(3) Suc.prems node_pfx [of k a b t] by (auto simp: pfx_Suc)
      then show ?thesis using nz n sl by auto
    qed
  qed
qed

lemma ensure_slot_spec:
  assumes "tree_inv t" and "k < 4" and "node t k a \<noteq> 0" and "ensure_slot (slot_addr (node t k a) (rix k a)) t = (q, t')"
  shows "q = 0 \<and> t' = t \<and> pages_used t = 16384 \<or> q = node t' (Suc k) a \<and> q \<noteq> 0 \<and> grows (Suc k) a t t'"
proof (cases "slot t (slot_addr (node t k a) (rix k a)) = 0")
  case False
  then show ?thesis using assms grows_refl [of t "Suc k" a] by (auto simp: ensure_slot_def)
next
  case True
  let ?l = "slot_addr (node t k a) (rix k a)"
  have z: "node t (Suc k) a = 0" using True by simp
  show ?thesis
  proof (cases "pages_used t = 16384")
    case True
    then show ?thesis using assms(4) alloc_page_spec [OF assms(1)] \<open>slot t ?l = 0\<close>
      by (auto simp: ensure_slot_def commit_slot_def fun_upd_idem)
  next
    case False
    let ?p = "pool_page t (pages_used t)"
    have n: "pages_used t < 16384" using False assms(1) by (simp add: tree_inv_def)
    have r: "q = ?p" "q \<noteq> 0" "t' = t\<lparr> asan_alloc_ptr := of_nat (4096 * Suc (pages_used t)), slot := (slot t)(?l := ?p) \<rparr>"
      using assms(4) alloc_page_spec [OF assms(1)] \<open>slot t ?l = 0\<close> False
      by (auto simp: ensure_slot_def commit_slot_def simp del: of_nat_mult mult_Suc_right)
    have nodes: "node t' j b = (if j = Suc k \<and> pfx (Suc k) a b then ?p else node t j b)" if "j \<le> 4" for j b
      unfolding r(3) by (rule node_write_slot [OF assms(1) n assms(2,3) z that])
    obtain i where i: "i < pages_used t" "node t k a = pool_page t i" using assms(1-3) unfolding tree_inv_def by (metis less_imp_le)
    have "slot t' (pool_page t j + x) = 0" if "Suc (pages_used t) \<le> j" "j < 16384" "unat x < 4096" for j x
    proof -
      have "pool_page t j + x \<noteq> ?l"
        using pool_inj [OF assms(1) that(2), of i x "8 * rix k a"] i n that slot_offset [of k a] by (auto simp: slot_addr_def)
      then show ?thesis using assms(1) that by (simp add: r(3) tree_inv_def)
    qed
    then have "grows (Suc k) a t t'"
      using nodes n assms(2) z by (intro grows_fresh [OF assms(1)]) (auto simp: r(3) simp del: of_nat_mult mult_Suc_right)
    moreover have "q = node t' (Suc k) a" using nodes [of "Suc k" a] assms(2) r(1) by simp
    ultimately show ?thesis using r(2) by blast
  qed
qed

lemma commit_root_spec:
  assumes "tree_inv t" and "(if radix_tree t = 0 then commit_root t else (radix_tree t, t)) = (q, t')"
  shows "q = 0 \<and> t' = t \<and> pages_used t = 16384 \<or> q = node t' 0 a \<and> q \<noteq> 0 \<and> grows 0 a t t'"
proof (cases "radix_tree t = 0")
  case False
  then show ?thesis using assms grows_refl [of t 0 a] by auto
next
  case True
  show ?thesis
  proof (cases "pages_used t = 16384")
    case full: True
    then show ?thesis using assms(2) alloc_page_spec [OF assms(1)] True by (auto simp: commit_root_def)
  next
    case False
    let ?p = "pool_page t (pages_used t)"
    have n: "pages_used t < 16384" using False assms(1) by (simp add: tree_inv_def)
    have r: "q = ?p" "q \<noteq> 0" "t' = t\<lparr> asan_alloc_ptr := of_nat (4096 * Suc (pages_used t)), radix_tree := ?p \<rparr>"
      using assms(2) alloc_page_spec [OF assms(1)] True False
      by (auto simp: commit_root_def simp del: of_nat_mult mult_Suc_right)
    have "slot t (slot_addr ?p (rix 0 b)) = 0" for b
      using assms(1) n slot_offset [of 0 b] unfolding tree_inv_def slot_addr_def by blast
    then have z: "node t' (Suc j) b = 0" for j b by (induction j) (simp_all add: r(3))
    have "node t j b = 0" for j b by (induction j) (simp_all add: True)
    then have nodes: "node t' j b = (if j = 0 \<and> pfx 0 a b then ?p else node t j b)" for j b
      using z [of "j - 1"] by (cases j) (simp_all add: r(3))
    have "grows 0 a t t'"
      using nodes n True assms(1) by (intro grows_fresh [OF assms(1)]) (auto simp: r(3) tree_inv_def simp del: of_nat_mult mult_Suc_right)
    then show ?thesis using r by simp
  qed
qed

definition reached :: "nat \<Rightarrow> u64 \<Rightarrow> radix_tree_t \<Rightarrow> radix_tree_t \<Rightarrow> bool" where
  "reached k a t t' \<longleftrightarrow> tree_inv t' \<and> (\<forall>b. content t' b = content t b) \<and> node t' k a \<noteq> 0 \<and> pages_used t' \<le> pages_used t + Suc k
     \<and> (\<forall>b. \<not> (k = 4 \<and> pfx 4 a b) \<longrightarrow> node t' 4 b = node t 4 b)"

declare node.simps(2) [simp del]

lemma reached_Suc:
  assumes "reached k a t t1" and "k < 4" and "grows (Suc k) a t1 t2"
  shows "reached (Suc k) a t t2"
proof -
  have n: "node t2 4 b = node t 4 b" if "\<not> (Suc k = 4 \<and> pfx 4 a b)" for b
  proof -
    have "node t2 4 b = node t1 4 b" using assms(3) that unfolding grows_def by (metis order_refl)
    then show ?thesis using assms(1,2) by (simp add: reached_def)
  qed
  have "pages_used t2 \<le> pages_used t + Suc (Suc k)" using assms(1,3) by (simp add: reached_def grows_def)
  moreover have "tree_inv t2" "node t2 (Suc k) a \<noteq> 0" "content t2 b = content t b" for b
    using assms(1,3) by (simp_all add: reached_def grows_def)
  ultimately show ?thesis using n unfolding reached_def by blast
qed

lemma reached_0:
  assumes "grows 0 a t t'"
  shows "reached 0 a t t'"
proof -
  have "node t' 4 b = node t 4 b" for b using assms by (simp add: grows_def)
  then show ?thesis using assms by (simp add: reached_def grows_def)
qed

lemma radix_index_page: "radix_index l (a - (a AND 4095)) = radix_index l a"
proof -
  have "a AND 4095 = take_bit 12 a" by (simp add: take_bit_eq_mask mask_numeral)
  then have "a - (a AND 4095) = a AND NOT (mask 12)"
    using and_neg_power_eq [of a 12, unfolded minus_exp_eq_not_mask] by simp
  moreover have "drop_bit (12 + 9 * l) (a AND NOT (mask 12)) = drop_bit (12 + 9 * l) a"
    by (rule bit_word_eqI) (simp add: bit_drop_bit_eq bit_and_iff bit_not_iff bit_mask_iff, auto dest: bit_imp_le_length)
  ultimately show ?thesis by (simp add: radix_index_def)
qed

definition commit_outcome :: "u64 \<Rightarrow> radix_tree_t \<Rightarrow> ptr \<times> radix_tree_t \<Rightarrow> bool" where
  "commit_outcome a t r \<longleftrightarrow> (case r of (p, t') \<Rightarrow>
     tree_inv t' \<and> (\<forall>b. content t' b = content t b)
     \<and> (if p = 0 then pages_used t' = 16384 \<and> (\<forall>b. node t' 4 b = node t 4 b) \<and> pages_used t' < pages_used t + 5
        else p = node t' 4 a + (a AND 4095) \<and> reached 4 a t t'))"

lemma commit_outcome_full:
  "reached k a t t' \<Longrightarrow> k < 4 \<Longrightarrow> pages_used t' = 16384 \<Longrightarrow> commit_outcome a t (0, t')"
  by (auto simp: commit_outcome_def reached_def)

lemma node_levels: "node t 1 a = (if node t 0 a = 0 then 0 else slot t (slot_addr (node t 0 a) (rix 0 a)))"
  "node t 2 a = (if node t 1 a = 0 then 0 else slot t (slot_addr (node t 1 a) (rix 1 a)))"
  "node t 3 a = (if node t 2 a = 0 then 0 else slot t (slot_addr (node t 2 a) (rix 2 a)))"
  "node t 4 a = (if node t 3 a = 0 then 0 else slot t (slot_addr (node t 3 a) (rix 3 a)))"
proof -
  have "(1 :: nat) = Suc 0" "(2 :: nat) = Suc 1" "(3 :: nat) = Suc 2" "(4 :: nat) = Suc 3" by simp_all
  then show "node t 1 a = (if node t 0 a = 0 then 0 else slot t (slot_addr (node t 0 a) (rix 0 a)))"
    "node t 2 a = (if node t 1 a = 0 then 0 else slot t (slot_addr (node t 1 a) (rix 1 a)))"
    "node t 3 a = (if node t 2 a = 0 then 0 else slot t (slot_addr (node t 2 a) (rix 2 a)))"
    "node t 4 a = (if node t 3 a = 0 then 0 else slot t (slot_addr (node t 3 a) (rix 3 a)))"
    using node.simps(2) by metis+
qed

lemma rix_levels: "radix_index 3 a = rix 0 a" "radix_index 2 a = rix 1 a" "radix_index 1 a = rix 2 a" "radix_index 0 a = rix 3 a"
  by (simp_all add: rix_def)

lemma rix_page: "rix k (a - (a AND 4095)) = rix k a"
  by (simp add: rix_def radix_index_page)

lemma lookup_present_eq: "lookup_present a t = (if node t 4 a = 0 then 0 else node t 4 a + (a AND 4095))"
  unfolding lookup_present_def Let_def rix_levels rix_page node_levels by simp

lemma level_step:
  assumes "reached k a t t1" and "k < 4" and "ensure_slot (slot_addr (node t1 k a) (rix k a)) t1 = (q, t2)"
    and "q \<noteq> 0 \<Longrightarrow> q = node t2 (Suc k) a \<Longrightarrow> reached (Suc k) a t t2 \<Longrightarrow> commit_outcome a t (f q t2)"
  shows "commit_outcome a t (if q = 0 then (0, t2) else f q t2)"
proof -
  have r: "tree_inv t1" "node t1 k a \<noteq> 0" using assms(1) by (simp_all add: reached_def)
  from ensure_slot_spec [OF r(1) assms(2) r(2) assms(3)] show ?thesis
  proof
    assume "q = 0 \<and> t2 = t1 \<and> pages_used t1 = 16384"
    then show ?thesis using commit_outcome_full [OF assms(1,2)] by simp
  next
    assume "q = node t2 (Suc k) a \<and> q \<noteq> 0 \<and> grows (Suc k) a t1 t2"
    then show ?thesis using assms(4) reached_Suc [OF assms(1,2)] by auto
  qed
qed

lemma pool_nonzero: "tree_inv t \<Longrightarrow> node t 4 a \<noteq> 0 \<Longrightarrow> unat x < 4096 \<Longrightarrow> node t 4 a + x \<noteq> 0"
proof -
  assume t: "tree_inv t" and "node t 4 a \<noteq> 0" and x: "unat x < 4096"
  then obtain j where "j < pages_used t" "node t 4 a = pool_page t j" unfolding tree_inv_def by (metis order_refl)
  moreover have "pages_used t \<le> 16384" "0 < unat (asan_pool t)" using t by (simp_all add: tree_inv_def)
  ultimately have "0 < unat (node t 4 a + x)" using unat_pool [OF t _ x, of j] by simp
  then show ?thesis by (metis less_irrefl unsigned_0)
qed

lemma unat_misalignment: "unat (b AND 4095) = unat b mod 4096" for b :: u64
  using unat_and_mask [of b 12] by (simp add: mask_numeral)

lemma lookup_commit_spec:
  assumes "tree_inv t"
  shows "commit_outcome a t (lookup_commit a t)"
proof -
  obtain q0 t0 where c0: "(if radix_tree t = 0 then commit_root t else (radix_tree t, t)) = (q0, t0)" by fastforce
  obtain q1 t1 where c1: "ensure_slot (slot_addr (node t0 0 a) (rix 0 a)) t0 = (q1, t1)" by fastforce
  obtain q2 t2 where c2: "ensure_slot (slot_addr (node t1 1 a) (rix 1 a)) t1 = (q2, t2)" by fastforce
  obtain q3 t3 where c3: "ensure_slot (slot_addr (node t2 2 a) (rix 2 a)) t2 = (q3, t3)" by fastforce
  obtain q4 t4 where c4: "ensure_slot (slot_addr (node t3 3 a) (rix 3 a)) t3 = (q4, t4)" by fastforce
  from commit_root_spec [OF assms c0, of a] show ?thesis
  proof
    assume "q0 = 0 \<and> t0 = t \<and> pages_used t = 16384"
    then show ?thesis using assms c0 by (simp add: lookup_commit_def Let_def commit_outcome_def)
  next
    assume r: "q0 = node t0 0 a \<and> q0 \<noteq> 0 \<and> grows 0 a t t0"
    let ?f4 = "\<lambda>q t'. (q + (a AND 4095), t')"
    let ?f3 = "\<lambda>q t'. let (q, t') = ensure_slot (slot_addr q (rix 3 a)) t' in if q = 0 then (0, t') else ?f4 q t'"
    let ?f2 = "\<lambda>q t'. let (q, t') = ensure_slot (slot_addr q (rix 2 a)) t' in if q = 0 then (0, t') else ?f3 q t'"
    let ?f1 = "\<lambda>q t'. let (q, t') = ensure_slot (slot_addr q (rix 1 a)) t' in if q = 0 then (0, t') else ?f2 q t'"
    have e: "lookup_commit a t = (let (q, t') = ensure_slot (slot_addr q0 (rix 0 a)) t0 in if q = 0 then (0, t') else ?f1 q t')"
      unfolding lookup_commit_def Let_def rix_levels rix_page using c0 r by auto
    have "commit_outcome a t (if q1 = 0 then (0, t1) else ?f1 q1 t1)"
    proof (rule level_step [OF reached_0 [of a t t0] _ c1])
      assume 1: "q1 = node t1 (Suc 0) a" "reached (Suc 0) a t t1"
      have "commit_outcome a t (if q2 = 0 then (0, t2) else ?f2 q2 t2)"
      proof (rule level_step [of 1 a t t1 q2 t2])
        assume 2: "q2 = node t2 (Suc 1) a" "reached (Suc 1) a t t2"
        have "commit_outcome a t (if q3 = 0 then (0, t3) else ?f3 q3 t3)"
        proof (rule level_step [of 2 a t t2 q3 t3])
          assume 3: "q3 = node t3 (Suc 2) a" "reached (Suc 2) a t t3"
          have "commit_outcome a t (if q4 = 0 then (0, t4) else ?f4 q4 t4)"
          proof (rule level_step [of 3 a t t3 q4 t4])
            assume 4: "q4 = node t4 (Suc 3) a" "reached (Suc 3) a t t4"
            then show "commit_outcome a t (?f4 q4 t4)"
              using pool_nonzero [of t4 a "a AND 4095"] unat_misalignment [of a] by (simp add: commit_outcome_def) (simp add: reached_def)
          qed (use 3 c4 in simp_all)
          then show "commit_outcome a t (?f3 q3 t3)" using 3 c4 by simp
        qed (use 2 c3 in \<open>simp_all add: numeral_2_eq_2\<close>)
        then show "commit_outcome a t (?f2 q2 t2)" using 2 c3 by (simp add: numeral_2_eq_2)
      qed (use 1 c2 in simp_all)
      then show "commit_outcome a t (?f1 q1 t1)" using 1 c2 by simp
    qed (use r in simp_all)
    then show ?thesis unfolding e using r c1 by simp
  qed
qed

section \<open>Filling and testing\<close>

lemma fill_bytes_frame: "radix_tree (fill_bytes n p v t) = radix_tree t" "slot (fill_bytes n p v t) = slot t"
  "asan_pool (fill_bytes n p v t) = asan_pool t" "asan_alloc_ptr (fill_bytes n p v t) = asan_alloc_ptr t"
  by (induction n arbitrary: p t) simp_all

lemma node_frame: "radix_tree t' = radix_tree t \<Longrightarrow> slot t' = slot t \<Longrightarrow> node t' k a = node t k a"
  by (induction k) (simp_all add: node.simps(2))

lemma less_Suc_dist: "n < 18446744073709551615 \<Longrightarrow> unat (x - p) < Suc n \<longleftrightarrow> x = p \<or> unat (x - (p + 1)) < n" for x p :: u64
proof (cases "x = p")
  case False
  then have "1 \<le> x - p" using word_gt_0 [of "x - p"] by (simp add: word_le_nat_alt unat_gt_0 Suc_le_eq)
  then have "unat (x - p - 1) = unat (x - p) - 1" "0 < unat (x - p)" by (simp_all add: unat_sub word_le_nat_alt)
  then show ?thesis using False by (simp add: algebra_simps less_Suc_eq_le) linarith
qed simp

lemma fill_bytes_cell:
  "n \<le> 4096 \<Longrightarrow> cell (fill_bytes n p v t) x = (if unat (x - p) < n then v else cell t x)"
proof (induction n arbitrary: p t)
  case (Suc n)
  then show ?case using less_Suc_dist [of n x p] by auto
qed simp

lemma bytes_are_iff: "n \<le> 4096 \<Longrightarrow> bytes_are n p v t \<longleftrightarrow> (\<forall>i<n. cell t (p + of_nat i) = v)"
proof (induction n arbitrary: p)
  case (Suc n)
  have "(\<forall>i<Suc n. cell t (p + of_nat i) = v) \<longleftrightarrow> cell t p = v \<and> (\<forall>i<n. cell t (p + of_nat (Suc i)) = v)"
    by (auto simp: less_Suc_eq_0_disj simp del: of_nat_Suc)
  then show ?case using Suc by (simp add: add.assoc)
qed simp

text \<open>Below 256TB the path of an address determines its page.\<close>

lemma unat_rix: "unat (rix k a) = unat a div 2 ^ (12 + 9 * (3 - k)) mod 512"
proof -
  have "push_bit 9 1 - 1 = (mask 9 :: u64)" by (simp add: mask_eq_exp_minus_1 push_bit_eq_mult)
  then show ?thesis unfolding rix_def radix_index_def by (simp only: unat_and_mask unat_drop_bit) simp
qed

lemma digits_sum: "x = 512 * y + a \<Longrightarrow> y = 512 * z + b \<Longrightarrow> z = 512 * w + c \<Longrightarrow> x = a + 512 * b + 262144 * c + 134217728 * w"
  for x :: nat
  by simp

lemma digits: "x < 68719476736 \<Longrightarrow> x = x mod 512 + 512 * (x div 512 mod 512) + 262144 * (x div 262144 mod 512) + 134217728 * (x div 134217728 mod 512)"
  for x :: nat
proof -
  assume "x < 68719476736"
  then have "x div 134217728 < 512" by (intro less_mult_imp_div_less) simp
  then have w: "x div 134217728 mod 512 = x div 134217728" by (rule mod_less)
  have d: "x div 262144 = x div 512 div 512" "x div 134217728 = x div 512 div 512 div 512" by (simp_all add: div_mult2_eq [symmetric])
  show ?thesis unfolding w unfolding d by (rule digits_sum; rule mult_div_mod_eq [symmetric])
qed

lemma pfx_page:
  assumes "unat a < 281474976710656" and "unat b < 281474976710656"
  shows "pfx 4 a b \<longleftrightarrow> unat a div 4096 = unat b div 4096"
proof
  let ?A = "unat a div 4096" and ?B = "unat b div 4096"
  assume p: "pfx 4 a b"
  have r: "unat (rix 3 x) = unat x div 4096 mod 512" "unat (rix 2 x) = unat x div 4096 div 512 mod 512"
    "unat (rix 1 x) = unat x div 4096 div 262144 mod 512" "unat (rix 0 x) = unat x div 4096 div 134217728 mod 512" for x
    by (simp_all add: unat_rix div_mult2_eq [symmetric])
  have "rix 0 a = rix 0 b" "rix 1 a = rix 1 b" "rix 2 a = rix 2 b" "rix 3 a = rix 3 b" using p by (simp_all add: pfx_def)
  then have "?A mod 512 = ?B mod 512" "?A div 512 mod 512 = ?B div 512 mod 512" "?A div 262144 mod 512 = ?B div 262144 mod 512"
    "?A div 134217728 mod 512 = ?B div 134217728 mod 512" using r by metis+
  moreover have "?A < 68719476736" "?B < 68719476736" using assms by simp_all
  ultimately show "?A = ?B" using digits [of ?A] digits [of ?B] by metis
next
  assume "unat a div 4096 = unat b div 4096"
  moreover have "unat x div 2 ^ (12 + 9 * l) = unat x div 4096 div 2 ^ (9 * l)" for x :: u64 and l by (simp add: power_add div_mult2_eq)
  ultimately have "unat (rix k a) = unat (rix k b)" for k by (simp only: unat_rix)
  then show "pfx 4 a b" by (simp add: pfx_def word_unat_eq_iff)
qed

lemma page_offset: "r < 4096 \<Longrightarrow> (4096 * q + r) div 4096 = q \<and> (4096 * q + r) mod 4096 = r" for q r :: nat
  by simp

lemma same_base: "x = q + r \<Longrightarrow> y = q + s \<Longrightarrow> r \<le> s \<Longrightarrow> s < r + n \<Longrightarrow> x \<le> y \<and> y < x + n" for x :: nat
  by simp

lemma same_page_range:
  fixes x y n :: nat
  assumes "n + x mod 4096 \<le> 4096"
  shows "x \<le> y \<and> y < x + n \<longleftrightarrow> x div 4096 = y div 4096 \<and> x mod 4096 \<le> y mod 4096 \<and> y mod 4096 < x mod 4096 + n"
proof
  assume r: "x \<le> y \<and> y < x + n"
  then obtain k where k: "y = x + k" "k < n" by (metis add_less_cancel_left le_Suc_ex)
  then have m: "x mod 4096 + k < 4096" using assms by linarith
  have y: "y = 4096 * (x div 4096) + (x mod 4096 + k)" using k by simp
  have "y div 4096 = x div 4096" "y mod 4096 = x mod 4096 + k" unfolding y using page_offset [OF m] by blast+
  then show "x div 4096 = y div 4096 \<and> x mod 4096 \<le> y mod 4096 \<and> y mod 4096 < x mod 4096 + n" using k by simp
next
  assume r: "x div 4096 = y div 4096 \<and> x mod 4096 \<le> y mod 4096 \<and> y mod 4096 < x mod 4096 + n"
  have "x = 4096 * (x div 4096) + x mod 4096" "y = 4096 * (x div 4096) + y mod 4096"
    using r by (metis mult_div_mod_eq)+
  then show "x \<le> y \<and> y < x + n" by (rule same_base) (use r in blast)+
qed

lemma cell_distance:
  assumes "tree_inv t" and "node t 4 a \<noteq> 0" and "node t 4 b \<noteq> 0" and "n + unat a mod 4096 \<le> 4096"
    and "unat a < 281474976710656" and "unat b < 281474976710656"
  shows "unat (node t 4 b + (b AND 4095) - (node t 4 a + (a AND 4095))) < n \<longleftrightarrow> unat a \<le> unat b \<and> unat b < unat a + n"
proof
  let ?y = "node t 4 b + (b AND 4095) - (node t 4 a + (a AND 4095))"
  note m = unat_misalignment
  assume l: "unat ?y < n"
  obtain i j where ij: "i < pages_used t" "node t 4 a = pool_page t i" "j < pages_used t" "node t 4 b = pool_page t j"
    using assms(1-3) unfolding tree_inv_def by (metis order_refl)
  have u: "pages_used t \<le> 16384" using assms(1) by (simp add: tree_inv_def)
  have s: "unat ((a AND 4095) + ?y) = unat a mod 4096 + unat ?y" using l assms(4) by (subst unat_add_64) (simp_all add: m)
  have "pool_page t i + ((a AND 4095) + ?y) = pool_page t j + (b AND 4095)" using ij by (simp add: algebra_simps)
  then have e: "i = j \<and> (a AND 4095) + ?y = b AND 4095"
    using ij u l s assms(4) m [of b] by (intro pool_inj [OF assms(1)]) auto
  then have "pfx 4 a b" using ij assms(1,2) unfolding tree_inv_def by (metis order_refl)
  then show "unat a \<le> unat b \<and> unat b < unat a + n"
    unfolding same_page_range [OF assms(4)] using pfx_page [OF assms(5,6)] e s l m [of b] by simp
next
  assume "unat a \<le> unat b \<and> unat b < unat a + n"
  then have r: "unat a div 4096 = unat b div 4096" "unat a mod 4096 \<le> unat b mod 4096" "unat b mod 4096 < unat a mod 4096 + n"
    using same_page_range [OF assms(4)] by auto
  then have "node t 4 a = node t 4 b" using pfx_page [OF assms(5,6)] node_pfx by blast
  moreover have "unat ((b AND 4095) - (a AND 4095)) = unat b mod 4096 - unat a mod 4096"
    using r by (subst unat_sub) (simp_all add: word_le_nat_alt unat_misalignment)
  ultimately show "unat (node t 4 b + (b AND 4095) - (node t 4 a + (a AND 4095))) < n"
    using r by (simp add: less_diff_conv2 add.commute)
qed

lemma fill_page:
  fixes v :: u8
  assumes "tree_inv t" and "node t 4 a \<noteq> 0" and "n + unat a mod 4096 \<le> 4096" and "unat a < 281474976710656"
  defines "t' \<equiv> fill_bytes n (node t 4 a + (a AND 4095)) v t"
  shows "tree_inv t'" and "node t' k b = node t k b" and "pages_used t' = pages_used t"
    and "unat b < 281474976710656 \<Longrightarrow> content t' b = (if unat a \<le> unat b \<and> unat b < unat a + n then v else content t b)"
proof -
  let ?p = "node t 4 a + (a AND 4095)"
  have f: "radix_tree t' = radix_tree t" "slot t' = slot t" "asan_pool t' = asan_pool t" "asan_alloc_ptr t' = asan_alloc_ptr t"
    by (simp_all add: t'_def fill_bytes_frame)
  have c: "cell t' x = (if unat (x - ?p) < n then v else cell t x)" for x
    unfolding t'_def using assms(3) by (intro fill_bytes_cell) simp
  show n: "node t' k b = node t k b" for k b using f(1,2) by (rule node_frame)
  show u: "pages_used t' = pages_used t" by (simp add: pages_used_def f(4))
  have pp: "pool_page t' j = pool_page t j" for j by (simp add: pool_page_def f(3))
  have fresh: "cell t' (pool_page t j + x) = cell t (pool_page t j + x)"
    if "pages_used t \<le> j" "j < 16384" "unat x < 4096" for j x
  proof -
    obtain i where i: "i < pages_used t" "node t 4 a = pool_page t i" using assms(1,2) unfolding tree_inv_def by (metis order_refl)
    have "\<not> unat (pool_page t j + x - ?p) < n"
    proof
      let ?y = "pool_page t j + x - ?p"
      assume l: "unat ?y < n"
      have "unat ((a AND 4095) + ?y) < 4096" using l assms(3) by (subst unat_add_64) (simp_all add: unat_misalignment)
      moreover have "pool_page t i + ((a AND 4095) + ?y) = pool_page t j + x" using i by (simp add: algebra_simps)
      ultimately have "i = j" using pool_inj [OF assms(1), of i j "(a AND 4095) + ?y" x] i that by auto
      then show False using i that by simp
    qed
    then show ?thesis by (simp add: c)
  qed
  show "tree_inv t'" using assms(1) fresh unfolding tree_inv_def n u pp f by auto
  show "content t' b = (if unat a \<le> unat b \<and> unat b < unat a + n then v else content t b)" if b: "unat b < 281474976710656"
  proof (cases "node t 4 b = 0")
    case True
    then have "\<not> (unat a \<le> unat b \<and> unat b < unat a + n)"
      using same_page_range [OF assms(3)] pfx_page [OF assms(4) b] node_pfx [of 4 a b t] assms(2) by auto
    then show ?thesis using True by (auto simp: content_def n)
  next
    case False
    then show ?thesis using cell_distance [OF assms(1,2) False assms(3,4) b] by (simp add: content_def n c)
  qed
qed

definition pages_touched :: "nat \<Rightarrow> nat \<Rightarrow> nat" where
  "pages_touched start len = (if len = 0 then 0 else (start mod 4096 + len + 4095) div 4096)"

lemma pages_touched_step:
  assumes "len \<noteq> 0" and "n = min len (4096 - start mod 4096)"
  shows "Suc (pages_touched (start + n) (len - n)) \<le> pages_touched start len"
proof -
  define r where "r = start mod 4096"
  have r: "r < 4096" by (simp add: r_def)
  show ?thesis
  proof (cases "len \<le> 4096 - r")
    case True
    then have "len - n = 0" using assms(2) by (simp add: r_def)
    moreover have "1 \<le> (r + len + 4095) div 4096" using assms(1) by (simp add: Suc_le_eq div_greater_zero_iff)
    ultimately show ?thesis using assms(1) by (simp add: pages_touched_def r_def)
  next
    case False
    then have n: "n = 4096 - r" using assms(2) by (simp add: r_def)
    have "start = 4096 * (start div 4096) + r" unfolding r_def by (rule mult_div_mod_eq [symmetric])
    then have "start + n = 4096 * Suc (start div 4096)" using n r by simp
    then have "(start + n) mod 4096 = 0" by simp
    moreover have "r + len + 4095 = (len - n + 4095) + 4096" using n r False by simp
    then have "(r + len + 4095) div 4096 = Suc ((len - n + 4095) div 4096)" by simp
    ultimately show ?thesis using assms(1) by (simp add: pages_touched_def r_def)
  qed
qed

definition in_span :: "u64 \<Rightarrow> u64 \<Rightarrow> u64 \<Rightarrow> bool" where
  "in_span start len b \<longleftrightarrow> unat start \<le> unat b \<and> unat b < unat start + unat len"

definition filled :: "u64 \<Rightarrow> u8 \<Rightarrow> u64 \<Rightarrow> radix_tree_t \<Rightarrow> bool \<times> radix_tree_t \<Rightarrow> bool" where
  "filled start v len t r \<longleftrightarrow> (case r of (ok, t') \<Rightarrow> tree_inv t'
     \<and> (pages_used t + 5 * pages_touched (unat start) (unat len) \<le> 16384 \<longrightarrow> ok)
     \<and> (\<forall>b. unat b < 281474976710656 \<longrightarrow> (node t 4 b \<noteq> 0 \<longrightarrow> node t' 4 b \<noteq> 0)
        \<and> (if ok then content t' b = (if in_span start len b then v else content t b) \<and> (in_span start len b \<longrightarrow> node t' 4 b \<noteq> 0)
           else content t' b = content t b \<or> in_span start len b \<and> content t' b = v)))"

lemma filled_step:
  assumes "filled (start + n) v (len - n) t2 (ok, t')" and "tree_inv t" and "commit_outcome start t (p, t1)" and "p \<noteq> 0"
    and "t2 = fill_bytes (unat n) p v t1" and "unat n = min (unat len) (4096 - unat start mod 4096)" and "len \<noteq> 0"
    and "unat start + unat len \<le> 281474976710656"
  shows "filled start v len t (ok, t')"
proof -
  have c: "p = node t1 4 start + (start AND 4095)" "reached 4 start t t1" using assms(3,4) by (simp_all add: commit_outcome_def)
  have t1: "tree_inv t1" "node t1 4 start \<noteq> 0" "\<And>b. content t1 b = content t b" "pages_used t1 \<le> pages_used t + 5"
    using c(2) by (simp_all add: reached_def)
  have st: "unat start < 281474976710656" using assms(7,8) unat_gt_0 [of len] by linarith
  have "unat start mod 4096 \<le> 4096" "unat n \<le> 4096 - unat start mod 4096" using assms(6) by simp_all
  then have n: "unat n + unat start mod 4096 \<le> 4096" "unat n \<le> unat len" using assms(6) by (simp_all add: le_diff_conv2)
  note fp = fill_page [OF t1(1,2) n(1) st, where v = v, folded c(1) assms(5)]
  have u: "unat (start + n) = unat start + unat n" "unat (len - n) = unat len - unat n"
    using n(2) assms(8) by (subst unat_add_64, simp_all, subst unat_sub, simp_all add: word_le_nat_alt)
  have span: "in_span start len b \<longleftrightarrow> (unat start \<le> unat b \<and> unat b < unat start + unat n) \<or> in_span (start + n) (len - n) b" for b
    using n(2) u by (auto simp: in_span_def)
  have keep: "node t2 4 b \<noteq> 0" if "node t 4 b \<noteq> 0 \<or> unat start \<le> unat b \<and> unat b < unat start + unat n" "unat b < 281474976710656" for b
  proof (cases "pfx 4 start b")
    case True
    then show ?thesis using node_pfx [of 4 start b t1] t1(2) fp(2) by simp
  next
    case False
    then have "node t 4 b \<noteq> 0" using that same_page_range [OF n(1)] pfx_page [OF st that(2)] by blast
    then show ?thesis using c(2) False fp(2) by (simp add: reached_def)
  qed
  have pg: "Suc (pages_touched (unat (start + n)) (unat (len - n))) \<le> pages_touched (unat start) (unat len)"
    unfolding u using assms(6,7) by (intro pages_touched_step) (simp_all add: unat_gt_0)
  have ct: "content t2 b = (if unat start \<le> unat b \<and> unat b < unat start + unat n then v else content t b)"
    if "unat b < 281474976710656" for b using fp(4) [OF that] t1(3) by simp
  have f: "tree_inv t'" "pages_used t2 + 5 * pages_touched (unat (start + n)) (unat (len - n)) \<le> 16384 \<longrightarrow> ok"
    using assms(1) by (auto simp: filled_def)
  have fb: "(node t2 4 b \<noteq> 0 \<longrightarrow> node t' 4 b \<noteq> 0)
        \<and> (if ok then content t' b = (if in_span (start + n) (len - n) b then v else content t2 b) \<and> (in_span (start + n) (len - n) b \<longrightarrow> node t' 4 b \<noteq> 0)
           else content t' b = content t2 b \<or> in_span (start + n) (len - n) b \<and> content t' b = v)"
    if "unat b < 281474976710656" for b using assms(1) that by (auto simp: filled_def)
  have "(node t 4 b \<noteq> 0 \<longrightarrow> node t' 4 b \<noteq> 0)
        \<and> (if ok then content t' b = (if in_span start len b then v else content t b) \<and> (in_span start len b \<longrightarrow> node t' 4 b \<noteq> 0)
           else content t' b = content t b \<or> in_span start len b \<and> content t' b = v)" if "unat b < 281474976710656" for b
    using fb [OF that] ct [OF that] keep [OF _ that] span [of b] by (auto split: if_splits)
  moreover have "pages_used t + 5 * pages_touched (unat start) (unat len) \<le> 16384 \<longrightarrow> ok"
    using f(2) pg t1(4) fp(3) by linarith
  ultimately show ?thesis using f(1) by (simp add: filled_def)
qed

lemma radix_fill_spec:
  "tree_inv t \<Longrightarrow> unat start + unat len \<le> 281474976710656 \<Longrightarrow> filled start v len t (radix_fill start v len t)"
proof (induction start v len t rule: radix_fill.induct)
  case (1 start v len t)
  show ?case
  proof (cases "len = 0")
    case True
    then show ?thesis using 1(2) by (subst radix_fill.simps) (auto simp: filled_def in_span_def pages_touched_def)
  next
    case False
    let ?n = "page_part start len"
    obtain p t1 where l: "radix_lookup start True t = (p, t1)" by fastforce
    have c: "commit_outcome start t (p, t1)" using lookup_commit_spec [OF 1(2), of start] l by (simp add: radix_lookup_def)
    show ?thesis
    proof (cases "p = 0")
      case True
      have "1 \<le> pages_touched (unat start) (unat len)"
        using False pages_touched_step [of "unat len" _ "unat start", OF _ refl] unat_gt_0 [of len] by linarith
      then show ?thesis
        using True False l c by (subst radix_fill.simps) (auto simp: filled_def commit_outcome_def)
    next
      case nz: False
      let ?t2 = "fill_bytes (unat ?n) p v t1"
      have n: "unat ?n = min (unat len) (4096 - unat start mod 4096)" "?n \<le> len" using page_part_bounds by blast+
      have st: "unat start < 281474976710656" using False 1(3) unat_gt_0 [of len] by linarith
      have "unat start mod 4096 \<le> 4096" "unat ?n \<le> 4096 - unat start mod 4096" using n(1) by simp_all
      then have "unat ?n + unat start mod 4096 \<le> 4096" by (simp add: le_diff_conv2)
      then have "tree_inv ?t2"
        using fill_page(1) [of t1 start "unat ?n" v] c nz st by (auto simp: commit_outcome_def reached_def)
      moreover have "unat (start + ?n) + unat (len - ?n) \<le> 281474976710656"
        using n(2) 1(3) by (subst unat_add_64) (simp_all add: unat_sub word_le_nat_alt)
      ultimately have "filled (start + ?n) v (len - ?n) ?t2 (radix_fill (start + ?n) v (len - ?n) ?t2)"
        using 1(1) [OF False refl l [symmetric] refl nz] by simp
      moreover have "radix_fill start v len t = radix_fill (start + ?n) v (len - ?n) ?t2"
        using False l nz by (subst radix_fill.simps) (simp add: Let_def)
      ultimately show ?thesis
        using filled_step [OF _ 1(2) c nz refl n(1) False 1(3)] by (metis prod.collapse)
    qed
  qed
qed

lemma bytes_are_page:
  assumes "node t 4 a \<noteq> 0" and "n + unat a mod 4096 \<le> 4096" and "unat a < 281474976710656" and "unat a + n \<le> 281474976710656"
  shows "bytes_are n (node t 4 a + (a AND 4095)) v t
    \<longleftrightarrow> (\<forall>b. unat b < 281474976710656 \<longrightarrow> unat a \<le> unat b \<and> unat b < unat a + n \<longrightarrow> content t b = v)"
proof -
  have at: "content t (a + of_nat i) = cell t (node t 4 a + (a AND 4095) + of_nat i)" and ub: "unat (a + of_nat i) = unat a + i" if i: "i < n" for i
  proof -
    have oi: "unat (of_nat i :: u64) = i" using i assms(4) by (intro unat_of_nat_64) linarith
    show u: "unat (a + of_nat i) = unat a + i" using i assms(4) oi by (subst unat_add_64) simp_all
    have r: "unat a div 4096 = unat (a + of_nat i) div 4096 \<and> unat a mod 4096 \<le> unat (a + of_nat i) mod 4096 \<and>
        unat (a + of_nat i) mod 4096 < unat a mod 4096 + n"
      using same_page_range [OF assms(2), of "unat (a + of_nat i)"] u i by simp
    then have n: "node t 4 (a + of_nat i) = node t 4 a"
      using pfx_page [OF assms(3), of "a + of_nat i"] node_pfx [of 4 a "a + of_nat i" t] u i assms(4) by simp
    have "unat a + i = 4096 * (unat a div 4096) + (unat a mod 4096 + i)" by simp
    then have "unat (a + of_nat i) mod 4096 = unat a mod 4096 + i"
      using page_offset [of "unat a mod 4096 + i" "unat a div 4096"] u i assms(2) by simp
    then have "(a + of_nat i) AND 4095 = (a AND 4095) + of_nat i"
      using oi i assms(2) by (simp add: word_unat_eq_iff unat_misalignment) (subst unat_add_64, simp_all add: unat_misalignment)
    then show "content t (a + of_nat i) = cell t (node t 4 a + (a AND 4095) + of_nat i)"
      using n assms(1) by (simp add: content_def add.assoc)
  qed
  have "n \<le> 4096" using assms(2) by simp
  note iff = bytes_are_iff [OF this, of "node t 4 a + (a AND 4095)" v t]
  show ?thesis unfolding iff
  proof (intro iffI allI impI)
    fix b :: u64
    assume c: "\<forall>i<n. cell t (node t 4 a + (a AND 4095) + of_nat i) = v" and b: "unat a \<le> unat b \<and> unat b < unat a + n"
    then have "b = a + of_nat (unat b - unat a)" by (simp add: of_nat_diff)
    moreover have "unat b - unat a < n" using b by (simp add: less_diff_conv2 add.commute)
    ultimately show "content t b = v" using at c by metis
  next
    fix i assume c: "\<forall>b. unat b < 281474976710656 \<longrightarrow> unat a \<le> unat b \<and> unat b < unat a + n \<longrightarrow> content t b = v" and i: "i < n"
    then have "content t (a + of_nat i) = v" using ub [OF i] assms(4) by simp
    then show "cell t (node t 4 a + (a AND 4095) + of_nat i) = v" using at [OF i] by simp
  qed
qed

definition all_filled :: "u64 \<Rightarrow> u8 \<Rightarrow> u64 \<Rightarrow> radix_tree_t \<Rightarrow> bool" where
  "all_filled start v len t \<longleftrightarrow> (\<forall>b. unat b < 281474976710656 \<longrightarrow> in_span start len b \<longrightarrow> node t 4 b \<noteq> 0 \<and> content t b = v)"

lemma is_filled_with_spec:
  "tree_inv t \<Longrightarrow> unat start + unat len \<le> 281474976710656 \<Longrightarrow> is_filled_with start v len t \<longleftrightarrow> all_filled start v len t"
proof (induction start v len t rule: is_filled_with.induct)
  case (1 start v len t)
  show ?case
  proof (cases "len = 0")
    case True
    then show ?thesis by (subst is_filled_with.simps) (auto simp: all_filled_def in_span_def)
  next
    case False
    let ?n = "page_part start len" and ?p = "node t 4 start + (start AND 4095)"
    have n: "unat ?n = min (unat len) (4096 - unat start mod 4096)" "?n \<le> len" using page_part_bounds by blast+
    have len: "0 < unat len" using False by (simp add: unat_gt_0)
    then have st: "unat start < 281474976710656" using 1(3) by linarith
    have "unat start mod 4096 \<le> 4096" "unat ?n \<le> 4096 - unat start mod 4096" using n(1) by simp_all
    then have pg: "unat ?n + unat start mod 4096 \<le> 4096" by (simp add: le_diff_conv2)
    have u: "unat (start + ?n) = unat start + unat ?n" "unat (len - ?n) = unat len - unat ?n" "unat ?n \<le> unat len"
      using n(2) 1(3) by (subst unat_add_64, simp_all add: word_le_nat_alt, subst unat_sub, simp_all add: word_le_nat_alt)
    have l: "fst (radix_lookup start False t) = (if node t 4 start = 0 then 0 else ?p)"
      by (simp add: radix_lookup_def lookup_present_eq)
    show ?thesis
    proof (cases "node t 4 start = 0")
      case True
      then have "\<not> all_filled start v len t" using st len unfolding all_filled_def in_span_def by (metis add_less_same_cancel1 add.commute not_less order_refl less_add_same_cancel1)
      then show ?thesis using True False l by (subst is_filled_with.simps) (simp add: Let_def)
    next
      case nz: False
      have p: "?p \<noteq> 0" using pool_nonzero [OF 1(2) nz] unat_misalignment [of start] by simp
      have same: "node t 4 b \<noteq> 0" if "unat start \<le> unat b \<and> unat b < unat start + unat ?n" "unat b < 281474976710656" for b
        using same_page_range [OF pg] pfx_page [OF st that(2)] node_pfx [of 4 start b t] that nz by simp
      have span: "in_span start len b \<longleftrightarrow> (unat start \<le> unat b \<and> unat b < unat start + unat ?n) \<or> in_span (start + ?n) (len - ?n) b" for b
        using u by (auto simp: in_span_def)
      have "all_filled start v len t \<longleftrightarrow> bytes_are (unat ?n) ?p v t \<and> all_filled (start + ?n) v (len - ?n) t"
        unfolding bytes_are_page [OF nz pg st, of v, OF order_trans [OF add_left_mono [OF u(3)] 1(3)]] all_filled_def span
        using same by blast
      moreover have "is_filled_with start v len t \<longleftrightarrow> bytes_are (unat ?n) ?p v t \<and> is_filled_with (start + ?n) v (len - ?n) t"
        using False l p nz by (subst is_filled_with.simps) (simp add: Let_def)
      moreover have "bytes_are (unat ?n) ?p v t \<Longrightarrow> is_filled_with (start + ?n) v (len - ?n) t \<longleftrightarrow> all_filled (start + ?n) v (len - ?n) t"
        using 1(1) [OF False refl refl] 1(2,3) l nz p u by simp
      ultimately show ?thesis by blast
    qed
  qed
qed

section \<open>The sparse array\<close>

text \<open>
  C14. Filling.  \<open>radix_fill\<close> over a span below 256TB keeps the tree well formed.  When it succeeds, the array holds the
  value at every address of the span and what it held before at every other address, and
  \<open>is_filled_with\<close> confirms the span.  It succeeds whenever the pool has five pages left for every page
  of the span; when it fails, no address outside the span has changed.
\<close>

theorem radix_fill_correct:
  assumes "tree_inv t" and "unat start + unat len \<le> 281474976710656" and "radix_fill start v len t = (ok, t')"
  shows "tree_inv t' \<and> (pages_used t + 5 * pages_touched (unat start) (unat len) \<le> 16384 \<longrightarrow> ok)
    \<and> (ok \<longrightarrow> is_filled_with start v len t')
    \<and> (\<forall>b. unat b < 281474976710656 \<longrightarrow>
        (if ok then content t' b = (if in_span start len b then v else content t b)
         else content t' b = content t b \<or> in_span start len b \<and> content t' b = v))"
proof -
  have f: "filled start v len t (ok, t')" using radix_fill_spec [OF assms(1,2), of v] assms(3) by simp
  then have i: "tree_inv t'" by (simp add: filled_def)
  moreover have "is_filled_with start v len t'" if "ok"
    unfolding is_filled_with_spec [OF i assms(2)] all_filled_def using f that by (auto simp: filled_def)
  ultimately show ?thesis using f by (cases ok) (auto simp: filled_def)
qed

text \<open>
  C21. Testing.  \<open>is_filled_with\<close> holds exactly when every address of the span has a page and holds the value.
\<close>

theorem is_filled_with_exact:
  assumes "tree_inv t" and "unat start + unat len \<le> 281474976710656"
  shows "is_filled_with start v len t \<longleftrightarrow>
    (\<forall>b. unat start \<le> unat b \<and> unat b < unat start + unat len \<longrightarrow> fst (radix_lookup b False t) \<noteq> 0 \<and> cell t (fst (radix_lookup b False t)) = v)"
proof -
  have "fst (radix_lookup b False t) \<noteq> 0 \<and> cell t (fst (radix_lookup b False t)) = v \<longleftrightarrow> node t 4 b \<noteq> 0 \<and> content t b = v" for b
    using pool_nonzero [OF assms(1), of b "b AND 4095"] unat_misalignment [of b]
    by (auto simp: radix_lookup_def lookup_present_eq content_def)
  then show ?thesis unfolding is_filled_with_spec [OF assms] all_filled_def in_span_def using assms(2) by auto
qed

definition empty_tree :: "ptr \<Rightarrow> radix_tree_t" where
  "empty_tree pool = \<lparr> radix_tree = 0, slot = (\<lambda>_. 0), cell = (\<lambda>_. 0), asan_pool = pool, asan_alloc_ptr = 0 \<rparr>"

lemma empty_tree_inv:
  assumes "0 < unat pool" and "unat pool + 67108864 < 18446744073709551616"
  shows "tree_inv (empty_tree pool)"
proof -
  have "node (empty_tree pool) k a = 0" for k a by (induction k) (simp_all add: empty_tree_def node.simps(2))
  then show ?thesis using assms by (simp add: tree_inv_def) (simp add: empty_tree_def pages_used_def)
qed

theorem radix_fill_correct_witness:
  "\<exists>t'. radix_fill 0x7FF8 0xAA 0x2000 (empty_tree 0x10000000) = (True, t') \<and> is_filled_with 0x7FF8 0xAA 0x2000 t' \<and> content t' 0x8000 = 0xAA"
proof -
  obtain ok t' where r: "radix_fill 0x7FF8 0xAA 0x2000 (empty_tree 0x10000000) = (ok, t')" by fastforce
  have "pages_used (empty_tree 0x10000000) + 5 * pages_touched (unat (0x7FF8 :: u64)) (unat (0x2000 :: u64)) \<le> 16384"
    by (simp add: pages_used_def empty_tree_def pages_touched_def)
  then show ?thesis
    using radix_fill_correct [OF empty_tree_inv _ r] r by (auto simp: in_span_def)
qed

theorem is_filled_with_exact_witness: "\<not> is_filled_with 0x7FF8 0xAA 0x2000 (empty_tree 0x10000000)"
proof -
  have "fst (radix_lookup 0x7FF8 False (empty_tree 0x10000000)) = 0"
    by (simp add: radix_lookup_def lookup_present_def empty_tree_def Let_def)
  then show ?thesis
    using is_filled_with_exact [OF empty_tree_inv, of "0x10000000" "0x7FF8" "0x2000" "0xAA"] by force
qed

end
