(* ===== verification/Partition.thy ===== *)
theory Partition
  imports Dgos_Prelude
begin

text \<open>
  The detection of partitions (kernel/fs/mbr/mbr.cc and kernel/fs/gpt/gpt.cc).  The drive is a parameter: its
  block size and the result and buffer contents of a read.  Buffers are byte lists, and a read past
  the end of one is \<open>None\<close>.  A buffer from \<^verbatim>\<open>new\<close> holds unknown bytes, the parameter \<open>uninit\<close>.  A
  failed allocation panics and is not represented.
\<close>

section \<open>Bytes\<close>

fun le_value :: "u8 list \<Rightarrow> nat" where
  "le_value [] = 0"
| "le_value (b # bs) = unat b + 256 * le_value bs"

definition le_field :: "nat \<Rightarrow> nat \<Rightarrow> u8 list \<Rightarrow> nat" where
  "le_field off n bs = le_value (take n (drop off bs))"

definition byte_slice :: "u8 list \<Rightarrow> nat \<Rightarrow> nat \<Rightarrow> u8 list option" where
  "byte_slice bs off n = (if off + n \<le> length bs then Some (take n (drop off bs)) else None)"

section \<open>Drives and partitions\<close>

record storage_dev =
  blocksize :: int
  blocksize_log2 :: int
  read_blocks :: "u8 list \<Rightarrow> nat \<Rightarrow> u64 \<Rightarrow> int \<times> u8 list"

record part_dev_t =
  lba_st :: u64
  lba_len :: u64
  part_name :: string

definition mk_part :: "u64 \<Rightarrow> u64 \<Rightarrow> string \<Rightarrow> part_dev_t" where
  "mk_part st len name = \<lparr> lba_st = st, lba_len = len, part_name = name \<rparr>"

section \<open>MBR\<close>

record partition_tbl_ent_t =
  boot :: u8
  start_head :: u8
  start_sector :: u16
  start_cyl :: u16
  system_id :: u8
  end_head :: u8
  end_sector :: u16
  end_cyl :: u16
  start_lba :: u32
  total_sectors :: u32

definition mbr_entry :: "u8 list \<Rightarrow> partition_tbl_ent_t" where
  "mbr_entry bs = \<lparr> boot = bs ! 0, start_head = bs ! 1,
     start_sector = of_nat (le_field 2 2 bs) AND 0x3F, start_cyl = drop_bit 6 (of_nat (le_field 2 2 bs)),
     system_id = bs ! 4, end_head = bs ! 5,
     end_sector = of_nat (le_field 6 2 bs) AND 0x3F, end_cyl = drop_bit 6 (of_nat (le_field 6 2 bs)),
     start_lba = of_nat (le_field 8 4 bs), total_sectors = of_nat (le_field 12 4 bs) \<rparr>"

text \<open>One table entry: the partition it makes, if any.\<close>

definition mbr_part :: "storage_dev \<Rightarrow> (nat \<Rightarrow> u8 list) \<Rightarrow> partition_tbl_ent_t \<Rightarrow> part_dev_t option" where
  "mbr_part d uninit e =
    (if system_id e = 0x0B \<or> system_id e = 0x0C \<or> system_id e = 0xEF
     then Some (mk_part (ucast (start_lba e)) (ucast (total_sectors e)) ''fat32'')
     else if system_id e = 0x83 then
       (if fst (read_blocks d (uninit (nat (blocksize d))) 1 (ucast (start_lba e))) < 0 then None
        else Some (mk_part (ucast (start_lba e)) (ucast (total_sectors e)) ''ext4''))
     else None)"

fun mbr_scan :: "storage_dev \<Rightarrow> (nat \<Rightarrow> u8 list) \<Rightarrow> partition_tbl_ent_t list \<Rightarrow> part_dev_t list \<times> part_dev_t list
    \<Rightarrow> part_dev_t list \<times> part_dev_t list" where
  "mbr_scan d uninit [] r = r"
| "mbr_scan d uninit (e # es) (parts, list) =
    (case mbr_part d uninit e of None \<Rightarrow> mbr_scan d uninit es (parts, list)
     | Some p \<Rightarrow> mbr_scan d uninit es (parts @ [p], list @ [p]))"

definition mbr_detect :: "storage_dev \<Rightarrow> (nat \<Rightarrow> u8 list) \<Rightarrow> part_dev_t list \<Rightarrow> (part_dev_t list \<times> part_dev_t list) option" where
  "mbr_detect d uninit parts =
    (if blocksize d \<ge> 512 then
       let sector = replicate (nat (blocksize d)) 0; (r, sector) = read_blocks d sector 1 0
       in if r \<ge> 0 then do {
            sig \<leftarrow> byte_slice sector 510 2;
            (if sig ! 0 = 0x55 \<and> sig ! 1 = 0xAA then do {
               ptbl \<leftarrow> byte_slice sector 446 64;
               Some (mbr_scan d uninit (map (\<lambda>i. mbr_entry (take 16 (drop (16 * i) ptbl))) [0..<4]) (parts, [])) }
             else Some (parts, [])) }
          else Some (parts, [])
     else Some (parts, []))"

section \<open>GPT\<close>

definition efi_part :: "u8 list" where
  "efi_part = [0x28, 0x73, 0x2A, 0xC1, 0x1F, 0xF8, 0xD2, 0x11, 0xBA, 0x4B, 0x00, 0xA0, 0xC9, 0x3E, 0xC9, 0x3B]"

record gpt_hdr_t =
  sig :: u64
  rev_no :: u32
  hdr_sz :: u32
  hdr_crc32 :: u32
  reserved1 :: u32
  cur_lba :: u64
  bkp_lba :: u64
  hdr_lba_st :: u64
  hdr_lba_en :: u64
  disk_guid :: "u8 list"
  part_ent_lba :: u64
  part_ent_count :: u32
  part_ent_sz :: u32
  part_ent_crc32 :: u32

definition sig_expected :: u64 where
  "sig_expected = 0x5452415020494645"

definition gpt_hdr :: "u8 list \<Rightarrow> gpt_hdr_t" where
  "gpt_hdr bs = \<lparr> sig = of_nat (le_field 0 8 bs), rev_no = of_nat (le_field 8 4 bs), hdr_sz = of_nat (le_field 12 4 bs),
     hdr_crc32 = of_nat (le_field 16 4 bs), reserved1 = of_nat (le_field 20 4 bs), cur_lba = of_nat (le_field 24 8 bs),
     bkp_lba = of_nat (le_field 32 8 bs), hdr_lba_st = of_nat (le_field 40 8 bs), hdr_lba_en = of_nat (le_field 48 8 bs),
     disk_guid = take 16 (drop 56 bs), part_ent_lba = of_nat (le_field 72 8 bs), part_ent_count = of_nat (le_field 80 4 bs),
     part_ent_sz = of_nat (le_field 84 4 bs), part_ent_crc32 = of_nat (le_field 88 4 bs) \<rparr>"

record gpt_part_tbl_ent_t =
  type_guid :: "u8 list"
  uniq_guid :: "u8 list"
  ent_lba_st :: u64
  ent_lba_en :: u64
  attr :: u64
  ent_name :: "u8 list"

definition gpt_entry :: "u8 list \<Rightarrow> gpt_part_tbl_ent_t" where
  "gpt_entry bs = \<lparr> type_guid = take 16 bs, uniq_guid = take 16 (drop 16 bs), ent_lba_st = of_nat (le_field 32 8 bs),
     ent_lba_en = of_nat (le_field 40 8 bs), attr = of_nat (le_field 48 8 bs), ent_name = take 72 (drop 56 bs) \<rparr>"

definition gpt_part :: "gpt_part_tbl_ent_t \<Rightarrow> part_dev_t option" where
  "gpt_part e =
    (if type_guid e = efi_part then Some (mk_part (ent_lba_st e) (ent_lba_en e - ent_lba_st e + 1) ''fat32'') else None)"

fun gpt_scan :: "nat \<Rightarrow> u32 \<Rightarrow> u32 \<Rightarrow> u8 list \<Rightarrow> part_dev_t list \<times> part_dev_t list \<Rightarrow> (part_dev_t list \<times> part_dev_t list) option" where
  "gpt_scan 0 i sz buf r = Some r"
| "gpt_scan (Suc n) i sz buf (parts, list) = do {
     ptent \<leftarrow> byte_slice buf (unat (i * sz)) 128;
     (case gpt_part (gpt_entry ptent) of
        None \<Rightarrow> gpt_scan n (i + 1) sz buf (parts, list)
      | Some p \<Rightarrow> gpt_scan n (i + 1) sz buf (parts @ [p], list @ [p])) }"

text \<open>The macro \<^verbatim>\<open>unlikely\<close> turns its argument into 0 or 1.\<close>

definition unlikely_value :: "int \<Rightarrow> int" where
  "unlikely_value x = (if x \<noteq> 0 then 1 else 0)"

definition gpt_detect :: "storage_dev \<Rightarrow> (nat \<Rightarrow> u8 list) \<Rightarrow> part_dev_t list \<Rightarrow> (part_dev_t list \<times> part_dev_t list) option" where
  "gpt_detect d uninit parts =
    (if blocksize_log2 d < 7 then Some (parts, [])
     else let log2_sector_size = nat (blocksize_log2 d);
              (r, buffer) = read_blocks d (uninit (2 ^ log2_sector_size)) 1 1
       in if r < 0 then Some (parts, [])
          else do {
            bs \<leftarrow> byte_slice buffer 0 96;
            let hdr = gpt_hdr bs;
            (if sig hdr \<noteq> sig_expected then Some (parts, [])
             else let part_tbl_size = unat (part_ent_sz hdr * part_ent_count hdr);
                      part_tbl_sector_count = part_tbl_size div 2 ^ log2_sector_size;
                      (r, buffer) = read_blocks d (uninit part_tbl_size) part_tbl_sector_count (part_ent_lba hdr)
               in if unlikely_value r < 0 then Some (parts, [])
                  else gpt_scan (unat (part_ent_count hdr)) 0 (part_ent_sz hdr) buffer (parts, [])) })"

section \<open>Encoding\<close>

declare le_bytes_numeral [simp del]

lemma le_value_bytes: "le_value (le_bytes n v) = v mod 256 ^ n"
proof (induction n arbitrary: v)
  case (Suc n)
  have "v mod 256 + 256 * (v div 256 mod 256 ^ n) = v mod 256 ^ Suc n" by (simp add: mod_mult2_eq)
  then show ?case using Suc by (simp add: unat_of_nat take_bit_eq_mod)
qed simp

lemma le_value_bound: "le_value bs < 256 ^ length bs"
proof (induction bs)
  case (Cons b bs)
  then have "Suc (le_value bs) \<le> 256 ^ length bs" by simp
  then have "256 * le_value bs + 256 \<le> 256 * 256 ^ length bs" by linarith
  then show ?case using unat_lt_8 [of b] by (simp del: unat_lt_8)
qed simp

lemma le_bytes_value: "le_bytes (length bs) (le_value bs) = bs"
proof (induction bs)
  case (Cons b bs)
  have "(unat b + 256 * le_value bs) div 256 = le_value bs" using unat_lt_8 [of b] by (simp del: unat_lt_8)
  moreover have "unat (of_nat (unat b + 256 * le_value bs) :: u8) = (unat b + 256 * le_value bs) mod 256"
    unfolding unat_of_nat by (simp add: take_bit_eq_mod)
  then have "(of_nat (unat b + 256 * le_value bs) :: u8) = b" by (simp add: word_unat_eq_iff del: of_nat_add of_nat_mult)
  ultimately show ?case using Cons by simp
qed simp

lemma of_nat_le_value:
  "of_nat (le_value (le_bytes 8 (unat w))) = w" "of_nat (le_value (le_bytes 4 (unat u))) = u"
  for w :: u64 and u :: u32
  using unat_lt_64 [of w] unat_lt_32 [of u] by (simp_all add: le_value_bytes)

definition mbr_entry_bytes :: "partition_tbl_ent_t \<Rightarrow> u8 list" where
  "mbr_entry_bytes e = [boot e, start_head e] @ le_bytes 2 (unat (start_sector e) + 64 * unat (start_cyl e))
     @ [system_id e, end_head e] @ le_bytes 2 (unat (end_sector e) + 64 * unat (end_cyl e))
     @ le_bytes 4 (unat (start_lba e)) @ le_bytes 4 (unat (total_sectors e))"

text \<open>The widths of the bit fields.\<close>

definition mbr_entry_ok :: "partition_tbl_ent_t \<Rightarrow> bool" where
  "mbr_entry_ok e \<longleftrightarrow> start_sector e < 64 \<and> start_cyl e < 1024 \<and> end_sector e < 64 \<and> end_cyl e < 1024"

definition gpt_entry_bytes :: "gpt_part_tbl_ent_t \<Rightarrow> u8 list" where
  "gpt_entry_bytes e = type_guid e @ uniq_guid e @ le_bytes 8 (unat (ent_lba_st e)) @ le_bytes 8 (unat (ent_lba_en e))
     @ le_bytes 8 (unat (attr e)) @ ent_name e"

definition gpt_hdr_bytes :: "gpt_hdr_t \<Rightarrow> u8 list" where
  "gpt_hdr_bytes h = le_bytes 8 (unat (sig h)) @ le_bytes 4 (unat (rev_no h)) @ le_bytes 4 (unat (hdr_sz h))
     @ le_bytes 4 (unat (hdr_crc32 h)) @ le_bytes 4 (unat (reserved1 h)) @ le_bytes 8 (unat (cur_lba h))
     @ le_bytes 8 (unat (bkp_lba h)) @ le_bytes 8 (unat (hdr_lba_st h)) @ le_bytes 8 (unat (hdr_lba_en h))
     @ disk_guid h @ le_bytes 8 (unat (part_ent_lba h)) @ le_bytes 4 (unat (part_ent_count h))
     @ le_bytes 4 (unat (part_ent_sz h)) @ le_bytes 4 (unat (part_ent_crc32 h))"

definition gpt_entry_ok :: "gpt_part_tbl_ent_t \<Rightarrow> bool" where
  "gpt_entry_ok e \<longleftrightarrow> length (type_guid e) = 16 \<and> length (uniq_guid e) = 16 \<and> length (ent_name e) = 72"

lemma gpt_entry_roundtrip: "gpt_entry_ok e \<Longrightarrow> gpt_entry (gpt_entry_bytes e) = e \<and> length (gpt_entry_bytes e) = 128"
  by (simp add: gpt_entry_ok_def gpt_entry_def gpt_entry_bytes_def le_field_def of_nat_le_value)

lemma gpt_hdr_roundtrip:
  assumes "length (disk_guid h) = 16"
  shows "gpt_hdr (gpt_hdr_bytes h @ rest) = h" and "length (gpt_hdr_bytes h) = 92"
  using assms by (simp_all add: gpt_hdr_def gpt_hdr_bytes_def le_field_def of_nat_le_value)

lemma sector_cylinder:
  fixes s c :: u16
  assumes "s < 64" and "c < 1024"
  shows "of_nat (le_value (le_bytes 2 (unat s + 64 * unat c))) AND 0x3F = s"
    and "drop_bit 6 (of_nat (le_value (le_bytes 2 (unat s + 64 * unat c)))) = c"
proof -
  let ?n = "unat s + 64 * unat c"
  have b: "unat s < 64" "unat c < 1024" using assms by (simp_all add: word_less_nat_alt)
  then have u: "unat (of_nat (le_value (le_bytes 2 ?n)) :: u16) = ?n" by (simp add: le_value_bytes unat_of_nat take_bit_eq_mod del: of_nat_add of_nat_mult)
  show "of_nat (le_value (le_bytes 2 ?n)) AND 0x3F = s"
    using unat_and_mask [of "of_nat (le_value (le_bytes 2 ?n)) :: u16" 6] u b by (simp add: mask_numeral word_unat_eq_iff)
  show "drop_bit 6 (of_nat (le_value (le_bytes 2 ?n))) = c"
    using u b by (simp add: word_unat_eq_iff unat_drop_bit)
qed

lemma mbr_entry_roundtrip: "mbr_entry_ok e \<Longrightarrow> mbr_entry (mbr_entry_bytes e) = e \<and> length (mbr_entry_bytes e) = 16"
  by (simp add: mbr_entry_ok_def mbr_entry_def mbr_entry_bytes_def le_field_def of_nat_le_value sector_cylinder nth_append)

section \<open>Detection\<close>

lemma slice_at: "length xs = off \<Longrightarrow> length ys = n \<Longrightarrow> byte_slice (xs @ ys @ zs) off n = Some ys"
  by (simp add: byte_slice_def)

lemma mbr_scan_eq: "mbr_scan d uninit es (parts, list) = (parts @ List.map_filter (mbr_part d uninit) es, list @ List.map_filter (mbr_part d uninit) es)"
  by (induction es arbitrary: parts list) (simp_all add: List.map_filter_simps split: option.splits)

lemma unlikely_not_neg [simp]: "\<not> unlikely_value x < 0"
  by (simp add: unlikely_value_def)

lemma map_filter_map: "List.map_filter f (map g xs) = List.map_filter (\<lambda>x. f (g x)) xs"
  by (induction xs) (simp_all add: List.map_filter_simps split: option.splits)

text \<open>
  C31. A master boot record.  From a first sector with the signature and four table entries, with any contents of
  their fields, \<open>mbr_detect\<close> returns, in the order of the table, the partitions of the FAT32 entries and of
  the Linux entries whose first sector can be read, and appends them to the registered partitions.  Only the
  system id decides; the boot flag and the cylinder, head and sector fields have no influence.
\<close>

theorem mbr_detect_partitions:
  assumes "512 \<le> blocksize d"
    and "read_blocks d (replicate (nat (blocksize d)) 0) 1 0 = (r, code @ concat (map mbr_entry_bytes es) @ [0x55, 0xAA] @ rest)"
    and "0 \<le> r" and "length code = 446" and "length es = 4" and "\<forall>e\<in>set es. mbr_entry_ok e"
  shows "mbr_detect d uninit parts = (let ps = List.map_filter
      (\<lambda>e. if system_id e \<in> {0x0B, 0x0C, 0xEF} then Some (mk_part (ucast (start_lba e)) (ucast (total_sectors e)) ''fat32'')
         else if system_id e = 0x83 \<and> fst (read_blocks d (uninit (nat (blocksize d))) 1 (ucast (start_lba e))) \<ge> 0
         then Some (mk_part (ucast (start_lba e)) (ucast (total_sectors e)) ''ext4'')
         else None) es in Some (parts @ ps, ps))"
proof -
  obtain e0 e1 e2 e3 where es: "es = [e0, e1, e2, e3]"
    using assms(5) by (auto simp: eval_nat_numeral length_Suc_conv)
  have l: "mbr_entry (mbr_entry_bytes e) = e" "length (mbr_entry_bytes e) = 16" if "e \<in> {e0, e1, e2, e3}" for e
    using mbr_entry_roundtrip assms(6) that by (auto simp: es)
  have s1: "byte_slice (code @ concat (map mbr_entry_bytes es) @ [0x55, 0xAA] @ rest) 510 2 = Some [0x55, 0xAA]"
    using slice_at [of "code @ concat (map mbr_entry_bytes es)" 510 "[0x55, 0xAA]" 2 rest] assms(4) l(2) by (simp add: es)
  have s2: "byte_slice (code @ concat (map mbr_entry_bytes es) @ [0x55, 0xAA] @ rest) 446 64 = Some (concat (map mbr_entry_bytes es))"
    using slice_at [of code 446 "concat (map mbr_entry_bytes es)" 64] assms(4) l(2) by (simp add: es)
  have m: "map (\<lambda>i. mbr_entry (take 16 (drop (16 * i) (concat (map mbr_entry_bytes es))))) [0..<4] = es"
    using l by (simp add: es upt_rec)
  have p: "mbr_part d uninit e = (if system_id e \<in> {0x0B, 0x0C, 0xEF} then Some (mk_part (ucast (start_lba e)) (ucast (total_sectors e)) ''fat32'')
         else if system_id e = 0x83 \<and> fst (read_blocks d (uninit (nat (blocksize d))) 1 (ucast (start_lba e))) \<ge> 0
         then Some (mk_part (ucast (start_lba e)) (ucast (total_sectors e)) ''ext4'')
         else None)" for e
    by (simp add: mbr_part_def not_less)
  show ?thesis
    using assms(1-3) s1 s2 by (simp add: mbr_detect_def Let_def mbr_scan_eq m p [abs_def])
qed

lemma gpt_scan_table:
  assumes "\<forall>e\<in>set es. gpt_entry_ok e" and "length pre = 128 * i" and "128 * (i + length es) < 4294967296"
  shows "gpt_scan (length es) (of_nat i) 128 (pre @ concat (map gpt_entry_bytes es) @ rest) (parts, list)
    = Some (parts @ List.map_filter gpt_part es, list @ List.map_filter gpt_part es)"
  using assms
proof (induction es arbitrary: i pre parts list)
  case Nil
  then show ?case by (simp add: List.map_filter_simps)
next
  case (Cons e es)
  have "unat (of_nat (i * 128) :: u32) = i * 128" using Cons.prems(3) by (intro unat_of_nat_32) simp
  then have u: "unat (of_nat i * 128 :: u32) = 128 * i" by (simp add: mult.commute)
  have b: "gpt_entry (gpt_entry_bytes e) = e" "length (gpt_entry_bytes e) = 128" using gpt_entry_roundtrip Cons.prems(1) by simp_all
  have s: "byte_slice (pre @ concat (map gpt_entry_bytes (e # es)) @ rest) (128 * i) 128 = Some (gpt_entry_bytes e)"
    using slice_at [of pre "128 * i" "gpt_entry_bytes e" 128 "concat (map gpt_entry_bytes es) @ rest"] Cons.prems(2) b(2) by simp
  have IH: "gpt_scan (length es) (of_nat (Suc i)) 128 ((pre @ gpt_entry_bytes e) @ concat (map gpt_entry_bytes es) @ rest) (ps, l)
    = Some (ps @ List.map_filter gpt_part es, l @ List.map_filter gpt_part es)" for ps l
    using Cons.prems b(2) by (intro Cons.IH) simp_all
  show ?case using IH s u b(1) by (simp add: List.map_filter_simps add.commute split: option.splits)
qed

text \<open>
  C26. A GUID partition table.  When the drive returns a header with the signature and 128 byte entries and the
  table the header describes, \<open>gpt_detect\<close> returns the EFI partitions of the table in order, each with the
  number of blocks from its first to its last block, and appends them to the registered partitions.
\<close>

theorem gpt_detect_partitions:
  assumes "7 \<le> blocksize_log2 d" and "read_blocks d (uninit (2 ^ nat (blocksize_log2 d))) 1 1 = (r, gpt_hdr_bytes h @ pad)" and "0 \<le> r"
    and "4 \<le> length pad" and "length (disk_guid h) = 16" and "sig h = sig_expected" and "part_ent_sz h = 128"
    and "part_ent_count h = of_nat (length es)" and "128 * length es < 4294967296" and "\<forall>e\<in>set es. gpt_entry_ok e"
    and "read_blocks d (uninit (128 * length es)) (128 * length es div 2 ^ nat (blocksize_log2 d)) (part_ent_lba h)
      = (r', concat (map gpt_entry_bytes es))"
  shows "gpt_detect d uninit parts = (let ps = map (\<lambda>e. mk_part (ent_lba_st e) (ent_lba_en e - ent_lba_st e + 1) ''fat32'')
      (filter (\<lambda>e. type_guid e = efi_part) es) in Some (parts @ ps, ps))"
proof -
  have s: "byte_slice (gpt_hdr_bytes h @ pad) 0 96 = Some (gpt_hdr_bytes h @ take 4 pad)"
    using assms(4) gpt_hdr_roundtrip(2) [OF assms(5)] by (simp add: byte_slice_def)
  have c: "unat (part_ent_count h) = length es" unfolding assms(8) using assms(9) by (intro unat_of_nat_32) simp
  have "unat (of_nat (128 * length es) :: u32) = 128 * length es" using assms(9) by (intro unat_of_nat_32) simp
  then have z: "unat (128 * part_ent_count h) = 128 * length es" by (simp add: assms(8))
  have mf: "List.map_filter gpt_part es = map (\<lambda>e. mk_part (ent_lba_st e) (ent_lba_en e - ent_lba_st e + 1) ''fat32'') (filter (\<lambda>e. type_guid e = efi_part) es)"
    by (induction es) (simp_all add: List.map_filter_simps gpt_part_def)
  have "gpt_scan (length es) 0 128 (concat (map gpt_entry_bytes es)) (parts, []) = Some (parts @ List.map_filter gpt_part es, List.map_filter gpt_part es)"
    using gpt_scan_table [of es "[]" 0 "[]" parts "[]"] assms(9,10) by simp
  then show ?thesis
    using assms(1-3,6,7,11) s c z gpt_hdr_roundtrip(1) [OF assms(5), of "take 4 pad"]
    by (simp add: gpt_detect_def Let_def unlikely_value_def mf)
qed

text \<open>
  C38. Read errors.  A header that cannot be read, or has another signature, gives no partitions.  An error when
  reading the table is never noticed: the result is the one for a read that succeeded with the same
  buffer, whose bytes may never have been written.
\<close>

theorem gpt_detect_read_errors:
  "(fst (read_blocks d (uninit (2 ^ nat (blocksize_log2 d))) 1 1) < 0 \<longrightarrow> gpt_detect d uninit parts = Some (parts, []))
   \<and> (128 \<le> length (snd (read_blocks d (uninit (2 ^ nat (blocksize_log2 d))) 1 1))
      \<and> take 8 (snd (read_blocks d (uninit (2 ^ nat (blocksize_log2 d))) 1 1)) \<noteq> le_bytes 8 (unat sig_expected)
      \<longrightarrow> gpt_detect d uninit parts = Some (parts, []))
   \<and> gpt_detect (d\<lparr> read_blocks := (\<lambda>buf n lba. (if lba = 1 then fst (read_blocks d buf n lba) else 0, snd (read_blocks d buf n lba))) \<rparr>) uninit parts
      = gpt_detect d uninit parts"
proof (intro conjI impI)
  let ?read = "read_blocks d (uninit (2 ^ nat (blocksize_log2 d))) 1 1"
  show "gpt_detect d uninit parts = Some (parts, [])" if "fst ?read < 0" using that by (simp add: gpt_detect_def Let_def split_def)
  show "gpt_detect d uninit parts = Some (parts, [])"
    if h: "128 \<le> length (snd ?read) \<and> take 8 (snd ?read) \<noteq> le_bytes 8 (unat sig_expected)"
  proof -
    have "le_bytes 8 (le_value (take 8 (snd ?read))) = take 8 (snd ?read)"
      using h le_bytes_value [of "take 8 (snd ?read)"] by simp
    moreover have "le_value (take 8 (snd ?read)) < 18446744073709551616"
      using h le_value_bound [of "take 8 (snd ?read)"] by simp
    ultimately have "of_nat (le_value (take 8 (snd ?read))) \<noteq> sig_expected"
      using h unat_of_nat_64 by metis
    then have "sig (gpt_hdr (take 96 (snd ?read))) \<noteq> sig_expected" by (simp add: gpt_hdr_def le_field_def min_def)
    then show ?thesis using h by (simp add: gpt_detect_def Let_def split_def byte_slice_def)
  qed
  show "gpt_detect (d\<lparr> read_blocks := (\<lambda>buf n lba. (if lba = 1 then fst (read_blocks d buf n lba) else 0, snd (read_blocks d buf n lba))) \<rparr>) uninit parts
      = gpt_detect d uninit parts"
    by (simp add: gpt_detect_def Let_def split_def cong: if_cong)
qed

text \<open>The size of the table is computed in 32 bits.  When the product wraps around to less than an entry, the first
  entry is read past the end of the buffer.\<close>

lemma gpt_detect_overread:
  assumes "7 \<le> blocksize_log2 d" and "read_blocks d (uninit (2 ^ nat (blocksize_log2 d))) 1 1 = (r, gpt_hdr_bytes h @ pad)" and "0 \<le> r"
    and "4 \<le> length pad" and "length (disk_guid h) = 16" and "sig h = sig_expected" and "part_ent_count h \<noteq> 0"
    and "\<And>buf n lba. length (snd (read_blocks d buf n lba)) = length buf" and "\<And>n. length (uninit n) = n"
    and "unat (part_ent_sz h * part_ent_count h) < 128"
  shows "gpt_detect d uninit parts = None"
proof -
  have s: "byte_slice (gpt_hdr_bytes h @ pad) 0 96 = Some (gpt_hdr_bytes h @ take 4 pad)"
    using assms(4) gpt_hdr_roundtrip(2) [OF assms(5)] by (simp add: byte_slice_def)
  obtain n where n: "unat (part_ent_count h) = Suc n" using assms(7) by (metis not0_implies_Suc unsigned_eq_0_iff)
  have "byte_slice (snd (read_blocks d (uninit (unat (part_ent_sz h * part_ent_count h))) k l)) 0 128 = None" for k l
    using assms(8-10) by (simp add: byte_slice_def)
  then show ?thesis
    using assms(1-3,6) s n gpt_hdr_roundtrip(1) [OF assms(5), of "take 4 pad"]
    by (simp add: gpt_detect_def Let_def split_def)
qed

section \<open>Disk images\<close>

definition image_drive :: "nat \<Rightarrow> u8 list \<Rightarrow> storage_dev" where
  "image_drive k img = \<lparr> blocksize = 2 ^ k, blocksize_log2 = int k,
     read_blocks = (\<lambda>buf n lba. if (unat lba + n) * 2 ^ k \<le> length img
       then (0, take (n * 2 ^ k) (drop (unat lba * 2 ^ k) img) @ drop (n * 2 ^ k) buf) else (- 1, buf)) \<rparr>"

definition demo_hdr :: gpt_hdr_t where
  "demo_hdr = \<lparr> sig = sig_expected, rev_no = 0x10000, hdr_sz = 92, hdr_crc32 = 0, reserved1 = 0, cur_lba = 1, bkp_lba = 0,
     hdr_lba_st = 34, hdr_lba_en = 4095, disk_guid = replicate 16 0, part_ent_lba = 2, part_ent_count = 1, part_ent_sz = 128,
     part_ent_crc32 = 0 \<rparr>"

definition demo_ent :: gpt_part_tbl_ent_t where
  "demo_ent = \<lparr> type_guid = efi_part, uniq_guid = replicate 16 0, ent_lba_st = 34, ent_lba_en = 2081, attr = 0,
     ent_name = replicate 72 0 \<rparr>"

lemma demo_gpt: "length (gpt_hdr_bytes demo_hdr) = 92" "gpt_entry_ok demo_ent" "length (gpt_entry_bytes demo_ent) = 128"
  "length (disk_guid demo_hdr) = 16"
proof -
  show "length (disk_guid demo_hdr) = 16" by (simp add: demo_hdr_def)
  then show "length (gpt_hdr_bytes demo_hdr) = 92" by (rule gpt_hdr_roundtrip(2))
  show e: "gpt_entry_ok demo_ent" by (simp add: gpt_entry_ok_def demo_ent_def efi_part_def)
  then show "length (gpt_entry_bytes demo_ent) = 128" using gpt_entry_roundtrip by blast
qed

definition demo_image :: "u8 list" where
  "demo_image = replicate 128 0 @ gpt_hdr_bytes demo_hdr @ replicate 36 0 @ gpt_entry_bytes demo_ent"

theorem gpt_detect_partitions_witness:
  "gpt_detect (image_drive 7 demo_image) (\<lambda>n. replicate n 0) [] = Some ([mk_part 34 2048 ''fat32''], [mk_part 34 2048 ''fat32''])"
proof -
  have "read_blocks (image_drive 7 demo_image) (replicate 128 0) 1 1 = (0, gpt_hdr_bytes demo_hdr @ replicate 36 0)"
    "read_blocks (image_drive 7 demo_image) (replicate 128 0) 1 2 = (0, gpt_entry_bytes demo_ent)"
    by (simp_all add: image_drive_def demo_image_def demo_gpt)
  then show ?thesis
    using gpt_detect_partitions [of "image_drive 7 demo_image" "\<lambda>n. replicate n 0" 0 demo_hdr "replicate 36 0" "[demo_ent]" 0 "[]"] demo_gpt
    by (simp add: image_drive_def demo_hdr_def demo_ent_def Let_def)
qed

theorem gpt_detect_read_errors_witness: "gpt_detect (image_drive 7 []) (\<lambda>n. replicate n 0) [] = Some ([], [])"
  using gpt_detect_read_errors [of "image_drive 7 []" "\<lambda>n. replicate n 0" "[]"] by (simp add: image_drive_def)

definition demo_mbr_ent :: partition_tbl_ent_t where
  "demo_mbr_ent = \<lparr> boot = 0x80, start_head = 32, start_sector = 33, start_cyl = 0, system_id = 0x0C, end_head = 97,
     end_sector = 34, end_cyl = 0, start_lba = 2048, total_sectors = 4096 \<rparr>"

definition no_mbr_ent :: partition_tbl_ent_t where
  "no_mbr_ent = \<lparr> boot = 0, start_head = 0, start_sector = 0, start_cyl = 0, system_id = 0, end_head = 0,
     end_sector = 0, end_cyl = 0, start_lba = 0, total_sectors = 0 \<rparr>"

definition demo_mbr :: "u8 list" where
  "demo_mbr = replicate 446 0 @ concat (map mbr_entry_bytes [demo_mbr_ent, no_mbr_ent, no_mbr_ent, no_mbr_ent]) @ [0x55, 0xAA] @ []"

theorem mbr_detect_partitions_witness:
  "mbr_detect (image_drive 9 demo_mbr) (\<lambda>n. replicate n 0) []
    = Some ([mk_part 2048 4096 ''fat32''], [mk_part 2048 4096 ''fat32''])"
proof -
  have ok: "mbr_entry_ok demo_mbr_ent" "mbr_entry_ok no_mbr_ent" by (simp_all add: mbr_entry_ok_def demo_mbr_ent_def no_mbr_ent_def)
  then have "length demo_mbr = 512" using mbr_entry_roundtrip by (simp add: demo_mbr_def)
  then have "read_blocks (image_drive 9 demo_mbr) (replicate 512 0) 1 0 = (0, demo_mbr)" by (simp add: image_drive_def)
  then show ?thesis
    using mbr_detect_partitions [of "image_drive 9 demo_mbr" 0 "replicate 446 0" "[demo_mbr_ent, no_mbr_ent, no_mbr_ent, no_mbr_ent]" "[]"
        "\<lambda>n. replicate n 0" "[]", folded demo_mbr_def] ok
    by (simp add: image_drive_def List.map_filter_simps Let_def demo_mbr_ent_def no_mbr_ent_def)
qed

end
