(* ===== verification/Spinlock.thy ===== *)
theory Spinlock
  imports Dgos_Prelude
begin

text \<open>
  The spinlock and the reader/writer spinlock of \<^verbatim>\<open>kernel/lib/spinlock.cc\<close>, run by several threads.

  Every function is a sequence of steps with at most one access to the lock word each.  The control
  state of a thread (\<open>spin_pc\<close>, \<open>rw_pc\<close>) says which step is next and holds the local variables; \<open>spin_step\<close>
  and \<open>rw_step\<close> are the steps as functions.  The relations \<open>spin_sys_step\<close> and \<open>rw_sys_step\<close> let any thread
  below \<open>N\<close> take its next step, so their reachable states are those of every interleaving.  The
  clients call a lock function when they do not use the lock, and release what they hold.
  A wait for a value of the lock word is a loop that reads it until it has the value.
\<close>

subsection \<open>Interleaved steps and counting threads\<close>

locale transition_invariant =
  fixes step :: "'s \<Rightarrow> 's \<Rightarrow> bool" and inv :: "'s \<Rightarrow> bool"
  assumes step_inv: "step s s' \<Longrightarrow> inv s \<Longrightarrow> inv s'"
begin

lemma run_inv:
  assumes "step\<^sup>*\<^sup>* s s'" "inv s"
  shows "inv s'"
  using assms by (induction rule: rtranclp_induct) (auto intro: step_inv)

end

definition pc_count :: "nat \<Rightarrow> ('p \<Rightarrow> bool) \<Rightarrow> (nat \<Rightarrow> 'p) \<Rightarrow> int" where
  "pc_count N f pcs = int (card {t. t < N \<and> f (pcs t)})"

lemma pc_count_upd:
  assumes "t < N"
  shows "pc_count N f (pcs(t := pc)) = pc_count N f pcs - of_bool (f (pcs t)) + of_bool (f pc)"
proof -
  define A where "A = {u. u < N \<and> u \<noteq> t \<and> f (pcs u)}"
  have "finite A" "t \<notin> A" by (auto simp: A_def)
  moreover have "{u. u < N \<and> f (pcs u)} = (if f (pcs t) then insert t A else A)"
    using assms by (auto simp: A_def)
  moreover have "{u. u < N \<and> f ((pcs(t := pc)) u)} = (if f pc then insert t A else A)"
    using assms by (auto simp: A_def)
  ultimately show ?thesis by (simp add: pc_count_def)
qed

lemma pc_count_nonneg: "0 \<le> pc_count N f pcs"
  by (simp add: pc_count_def)

lemma pc_count_le: "pc_count N f pcs \<le> int N"
  using card_mono [of "{..<N}" "{t. t < N \<and> f (pcs t)}"] by (auto simp: pc_count_def)

lemma pc_count_pos: "t < N \<Longrightarrow> f (pcs t) \<Longrightarrow> 1 \<le> pc_count N f pcs"
  by (auto simp: pc_count_def Suc_le_eq card_gt_0_iff simp flip: of_nat_Suc)

lemma pc_count_two:
  assumes "t < N" "u < N" "t \<noteq> u" "f (pcs t)" "f (pcs u)"
  shows "2 \<le> pc_count N f pcs"
  using card_mono [of "{t. t < N \<and> f (pcs t)}" "{t, u}"] assms by (auto simp: pc_count_def)

lemma pc_count_one_unique:
  "pc_count N f pcs \<le> 1 \<Longrightarrow> t < N \<Longrightarrow> u < N \<Longrightarrow> f (pcs t) \<Longrightarrow> f (pcs u) \<Longrightarrow> t = u"
  using pc_count_two [of t N u f pcs] by fastforce

lemma pc_count_zero: "pc_count N f pcs = 0 \<Longrightarrow> t < N \<Longrightarrow> \<not> f (pcs t)"
  by (auto simp: pc_count_def)

subsection \<open>The spinlock\<close>

datatype spin_pc =
    Idle
  | Lock_Enter | Lock_Cas | Lock_Wait
  | Try_Enter | Try_Cas | Try_Leave
  | Until_Enter | Until_Cas bool | Until_Assert bool | Until_While bool | Until_Time | Until_Spin nat
  | Until_Again bool | Until_Leave
  | Locked
  | Unlock_Assert | Unlock_Store | Unlock_Leave
  | Panic

text \<open>
  One step of a thread: the next control state, the lock word and the change of the depth of critical
  sections.  The argument \<open>smask\<close> is \<^verbatim>\<open>spincount_mask\<close> and \<open>late\<close> tells whether \<^verbatim>\<open>time_ns() >= timeout_time\<close>.
\<close>

fun spinlock_lock :: "spin_pc \<Rightarrow> int \<Rightarrow> spin_pc \<times> int \<times> int" where
  "spinlock_lock Lock_Enter v = (Lock_Cas, v, 1)"
| "spinlock_lock Lock_Cas v = (if v = 0 then (Locked, 1, 0) else (Lock_Wait, v, 0))"
| "spinlock_lock Lock_Wait v = (if v = 0 then Lock_Cas else Lock_Wait, v, 0)"
| "spinlock_lock pc v = (pc, v, 0)"

fun spinlock_try_lock :: "spin_pc \<Rightarrow> int \<Rightarrow> spin_pc \<times> int \<times> int" where
  "spinlock_try_lock Try_Enter v = (Try_Cas, v, 1)"
| "spinlock_try_lock Try_Cas v = (if v = 0 then (Locked, 1, 0) else (Try_Leave, v, 0))"
| "spinlock_try_lock Try_Leave v = (Idle, v, - 1)"
| "spinlock_try_lock pc v = (pc, v, 0)"

fun spinlock_try_lock_until :: "int \<Rightarrow> bool \<Rightarrow> spin_pc \<Rightarrow> int \<Rightarrow> spin_pc \<times> int \<times> int" where
  "spinlock_try_lock_until smask late Until_Enter v = (Until_Cas False, v, 1)"
| "spinlock_try_lock_until smask late (Until_Cas timed_out) v =
    (if v = 0 then (Locked, 1, 0) else (Until_Assert timed_out, v, 0))"
| "spinlock_try_lock_until smask late (Until_Assert timed_out) v =
    (if smask \<noteq> 0 then Until_While timed_out else Panic, v, 0)"
| "spinlock_try_lock_until smask late (Until_While timed_out) v =
    (if v \<noteq> 0 then Until_Time else Until_Again timed_out, v, 0)"
| "spinlock_try_lock_until smask late Until_Time v = (if late then Until_Again True else Until_Spin 10000, v, 0)"
| "spinlock_try_lock_until smask late (Until_Spin spins) v =
    (if spins = 0 \<or> v = 0 then Until_While False else Until_Spin (spins - 1), v, 0)"
| "spinlock_try_lock_until smask late (Until_Again timed_out) v =
    (if v = 0 \<or> \<not> timed_out then Until_Cas timed_out else Until_Leave, v, 0)"
| "spinlock_try_lock_until smask late Until_Leave v = (Idle, v, - 1)"
| "spinlock_try_lock_until smask late pc v = (pc, v, 0)"

fun spinlock_unlock :: "spin_pc \<Rightarrow> int \<Rightarrow> spin_pc \<times> int \<times> int" where
  "spinlock_unlock Unlock_Assert v = (if v AND 1 \<noteq> 0 then Unlock_Store else Panic, v, 0)"
| "spinlock_unlock Unlock_Store v = (Unlock_Leave, 0, 0)"
| "spinlock_unlock Unlock_Leave v = (Idle, v, - 1)"
| "spinlock_unlock pc v = (pc, v, 0)"

record spin_sys =
  spin_lock :: int
  spin_pcs :: "nat \<Rightarrow> spin_pc"
  spin_cs :: "nat \<Rightarrow> int"

definition spin_move :: "nat \<Rightarrow> spin_pc \<times> int \<times> int \<Rightarrow> spin_sys \<Rightarrow> spin_sys" where
  "spin_move t r s =
    (case r of (pc, v, d) \<Rightarrow>
      \<lparr> spin_lock = v, spin_pcs = (spin_pcs s)(t := pc), spin_cs = (spin_cs s)(t := spin_cs s t + d) \<rparr>)"

lemma spin_move_sel [simp]:
  "spin_lock (spin_move t (pc, v, d) s) = v" "spin_pcs (spin_move t (pc, v, d) s) = (spin_pcs s)(t := pc)"
  "spin_cs (spin_move t (pc, v, d) s) = (spin_cs s)(t := spin_cs s t + d)"
  by (simp_all add: spin_move_def)

inductive spin_sys_step :: "nat \<Rightarrow> int \<Rightarrow> spin_sys \<Rightarrow> spin_sys \<Rightarrow> bool" for N smask where
  call: "t < N \<Longrightarrow> spin_pcs s t = Idle \<Longrightarrow> pc \<in> {Lock_Enter, Try_Enter, Until_Enter}
    \<Longrightarrow> spin_sys_step N smask s (spin_move t (pc, spin_lock s, 0) s)"
| release: "t < N \<Longrightarrow> spin_pcs s t = Locked \<Longrightarrow> spin_sys_step N smask s (spin_move t (Unlock_Assert, spin_lock s, 0) s)"
| lock: "t < N \<Longrightarrow> spin_sys_step N smask s (spin_move t (spinlock_lock (spin_pcs s t) (spin_lock s)) s)"
| try_lock: "t < N \<Longrightarrow> spin_sys_step N smask s (spin_move t (spinlock_try_lock (spin_pcs s t) (spin_lock s)) s)"
| try_until: "t < N \<Longrightarrow>
    spin_sys_step N smask s (spin_move t (spinlock_try_lock_until smask late (spin_pcs s t) (spin_lock s)) s)"
| unlock: "t < N \<Longrightarrow> spin_sys_step N smask s (spin_move t (spinlock_unlock (spin_pcs s t) (spin_lock s)) s)"

definition spin_init :: spin_sys where
  "spin_init = \<lparr> spin_lock = 0, spin_pcs = (\<lambda>t. Idle), spin_cs = (\<lambda>t. 0) \<rparr>"

fun holds_spin :: "spin_pc \<Rightarrow> bool" where
  "holds_spin pc = (pc \<in> {Locked, Unlock_Assert, Unlock_Store})"

fun cs_depth :: "spin_pc \<Rightarrow> int" where
  "cs_depth pc = (if pc \<in> {Idle, Lock_Enter, Try_Enter, Until_Enter} then 0 else 1)"

lemma holds_locked: "holds_spin Locked" "cs_depth Locked = 1" "cs_depth Idle = 0"
  by simp_all

definition spin_inv :: "nat \<Rightarrow> spin_sys \<Rightarrow> bool" where
  "spin_inv N s \<longleftrightarrow> (spin_lock s = 0 \<or> spin_lock s = 1) \<and> pc_count N holds_spin (spin_pcs s) = spin_lock s
     \<and> (\<forall>t<N. spin_pcs s t \<noteq> Panic \<and> spin_cs s t = cs_depth (spin_pcs s t))"

lemma spin_inv_init: "spin_inv N spin_init"
  by (simp add: spin_inv_def spin_init_def pc_count_def)

definition spin_local :: "spin_pc \<Rightarrow> int \<Rightarrow> spin_pc \<times> int \<times> int \<Rightarrow> bool" where
  "spin_local p v r =
    (case r of (pc, v', d) \<Rightarrow> pc \<noteq> Panic \<and> d = cs_depth pc - cs_depth p \<and> (v' = 0 \<or> v' = 1)
       \<and> v' - v = of_bool (holds_spin pc) - of_bool (holds_spin p))"

lemma spin_move_inv:
  assumes "spin_inv N s" "t < N" "spin_local (spin_pcs s t) (spin_lock s) r"
  shows "spin_inv N (spin_move t r s)"
  using assms
  by (cases r) (auto simp: spin_inv_def spin_move_def spin_local_def pc_count_upd simp del: cs_depth.simps holds_spin.simps)

lemma spin_inv_local:
  assumes "spin_inv N s" "t < N"
  shows "spin_lock s = 0 \<or> spin_lock s = 1" "spin_pcs s t \<noteq> Panic" "holds_spin (spin_pcs s t) \<Longrightarrow> spin_lock s = 1"
  using assms pc_count_pos [of t N holds_spin "spin_pcs s"] by (auto simp: spin_inv_def simp del: holds_spin.simps)

lemma spin_local_steps:
  assumes "v = 0 \<or> v = 1" "p \<noteq> Panic" "holds_spin p \<Longrightarrow> v = 1"
  shows "spin_local p v (spinlock_lock p v)" "spin_local p v (spinlock_try_lock p v)"
    "smask \<noteq> 0 \<Longrightarrow> spin_local p v (spinlock_try_lock_until smask late p v)" "spin_local p v (spinlock_unlock p v)"
  using assms by (cases p; force simp: spin_local_def)+

lemma spin_step_inv:
  assumes "spin_sys_step N smask s s'" "smask \<noteq> 0" "spin_inv N s"
  shows "spin_inv N s'"
  using assms(1)
proof cases
  case (call t pc)
  then show ?thesis using spin_inv_local [OF assms(3) call(2)] assms(3)
    by (auto intro!: spin_move_inv simp: spin_local_def)
next
  case (release t)
  then show ?thesis using spin_inv_local [OF assms(3) release(2)] assms(3)
    by (auto intro!: spin_move_inv simp: spin_local_def)
qed (use assms in \<open>auto intro!: spin_move_inv spin_local_steps dest: spin_inv_local simp del: holds_spin.simps\<close>)

interpretation spin: transition_invariant "spin_sys_step N smask" "\<lambda>s. smask \<noteq> 0 \<and> spin_inv N s" for N smask
  by unfold_locales (auto intro: spin_step_inv)

lemma spin_path_lock:
  assumes "t < N" "spin_lock s = 0" "spin_pcs s t \<in> {Lock_Enter, Lock_Cas, Lock_Wait}"
  shows "\<exists>s'. (spin_sys_step N smask)\<^sup>*\<^sup>* s s' \<and> spin_pcs s' t = Locked"
proof -
  have step: "(spin_sys_step N smask)\<^sup>*\<^sup>* s (spin_move t (spinlock_lock (spin_pcs s t) (spin_lock s)) s)" for s
    using assms(1) by (auto intro: spin_sys_step.intros)
  have cas: "\<exists>s'. (spin_sys_step N smask)\<^sup>*\<^sup>* s s' \<and> spin_pcs s' t = Locked"
    if "spin_pcs s t = Lock_Cas" "spin_lock s = 0" for s
    using step [of s] that by (intro exI [of _ "spin_move t (Locked, 1, 0) s"]) simp
  show ?thesis
  proof (cases "spin_pcs s t = Lock_Cas")
    case False
    then have "spinlock_lock (spin_pcs s t) (spin_lock s) \<in> {(Lock_Cas, 0, 1), (Lock_Cas, 0, 0)}"
      using assms by auto
    then obtain d where "spinlock_lock (spin_pcs s t) (spin_lock s) = (Lock_Cas, 0, d)" by blast
    then show ?thesis using step [of s] cas [of "spin_move t (Lock_Cas, 0, d) s"]
      by (auto intro: rtranclp_trans)
  qed (use cas assms in blast)
qed

lemma spin_path_release:
  assumes "spin_inv N s" "h < N" "holds_spin (spin_pcs s h)"
  shows "\<exists>s'. (spin_sys_step N smask)\<^sup>*\<^sup>* s s' \<and> spin_lock s' = 0 \<and> (\<forall>u. u \<noteq> h \<longrightarrow> spin_pcs s' u = spin_pcs s u)"
proof -
  let ?R = "(spin_sys_step N smask)\<^sup>*\<^sup>*"
  have store: "\<exists>s'. ?R r s' \<and> spin_lock s' = 0 \<and> (\<forall>u. u \<noteq> h \<longrightarrow> spin_pcs s' u = spin_pcs r u)"
    if "spin_pcs r h = Unlock_Store" for r
    using spin_sys_step.unlock [OF assms(2), of smask r] that by (auto simp: spin_move_def)
  have test: "\<exists>s'. ?R r s' \<and> spin_lock s' = 0 \<and> (\<forall>u. u \<noteq> h \<longrightarrow> spin_pcs s' u = spin_pcs r u)"
    if "spin_pcs r h = Unlock_Assert" "spin_lock r = 1" for r
    using spin_sys_step.unlock [OF assms(2), of smask r] that store [of "spin_move h (Unlock_Store, 1, 0) r"]
    by (auto intro: converse_rtranclp_into_rtranclp)
  have "spin_lock s = 1" using spin_inv_local(3) [OF assms] .
  moreover consider "spin_pcs s h = Locked" | "spin_pcs s h = Unlock_Assert" | "spin_pcs s h = Unlock_Store"
    using assms(3) by auto
  ultimately show ?thesis
    using spin_sys_step.release [OF assms(2), of s smask] test [of "spin_move h (Unlock_Assert, 1, 0) s"] test [of s] store [of s]
    by cases (auto intro: converse_rtranclp_into_rtranclp)
qed

lemma spin_can_lock:
  assumes "spin_inv N s" "t < N" "spin_pcs s t \<in> {Lock_Enter, Lock_Cas, Lock_Wait}"
  shows "\<exists>s'. (spin_sys_step N smask)\<^sup>*\<^sup>* s s' \<and> spin_pcs s' t = Locked"
proof (cases "spin_lock s = 0")
  case False
  then have "pc_count N holds_spin (spin_pcs s) = 1" using assms(1) by (auto simp: spin_inv_def)
  then obtain h where h: "h < N" "holds_spin (spin_pcs s h)"
    by (auto simp: pc_count_def card_1_singleton_iff)
  then obtain r where "(spin_sys_step N smask)\<^sup>*\<^sup>* s r" "spin_lock r = 0" "\<forall>u. u \<noteq> h \<longrightarrow> spin_pcs r u = spin_pcs s u"
    using spin_path_release [OF assms(1)] by blast
  moreover have "h \<noteq> t" using h(2) assms(3) by auto
  ultimately show ?thesis using spin_path_lock [OF assms(2), of r smask] assms(3) by (metis rtranclp_trans)
qed (use spin_path_lock assms in blast)

text \<open>
  C5. Mutual exclusion and progress of the spinlock.  In every state that any number of threads can
  reach with \<^verbatim>\<open>spinlock_lock\<close>, \<^verbatim>\<open>spinlock_try_lock\<close>, \<^verbatim>\<open>spinlock_try_lock_until\<close> and \<^verbatim>\<open>spinlock_unlock\<close>, at most one
  thread holds the lock.  No assertion fails, a thread that uses the lock is in one critical section and a thread that
  gave up or released it is in none, and a thread inside \<^verbatim>\<open>spinlock_lock\<close> can always still get the lock.
\<close>

theorem spinlock_mutual_exclusion:
  assumes "smask \<noteq> 0" "(spin_sys_step N smask)\<^sup>*\<^sup>* spin_init s" "t < N"
  shows "(\<forall>u<N. holds_spin (spin_pcs s t) \<and> holds_spin (spin_pcs s u) \<longrightarrow> u = t)
    \<and> spin_pcs s t \<noteq> Panic
    \<and> (spin_pcs s t = Locked \<longrightarrow> spin_lock s = 1 \<and> spin_cs s t = 1)
    \<and> (spin_pcs s t = Idle \<longrightarrow> spin_cs s t = 0)
    \<and> (spin_pcs s t \<in> {Lock_Enter, Lock_Cas, Lock_Wait}
        \<longrightarrow> (\<exists>s'. (spin_sys_step N smask)\<^sup>*\<^sup>* s s' \<and> spin_pcs s' t = Locked))"
proof -
  have inv: "spin_inv N s" using spin.run_inv [OF assms(2)] assms(1) spin_inv_init by simp
  then have le: "pc_count N holds_spin (spin_pcs s) \<le> 1" by (auto simp: spin_inv_def)
  have "u = t" if "u < N" "holds_spin (spin_pcs s t)" "holds_spin (spin_pcs s u)" for u
    using pc_count_one_unique [OF le that(1) assms(3)] that by blast
  moreover have "spin_cs s t = cs_depth (spin_pcs s t)" using inv assms(3) by (simp add: spin_inv_def)
  ultimately show ?thesis using spin_inv_local [OF inv assms(3)] spin_can_lock [OF inv assms(3)]
    by (auto simp del: insert_iff holds_spin.simps simp: holds_locked)
qed

theorem spinlock_mutual_exclusion_witness:
  "\<exists>s'. (spin_sys_step 2 (- 1))\<^sup>*\<^sup>* (spin_move 1 (Lock_Enter, 0, 0) spin_init) s' \<and> spin_pcs s' 1 = Locked"
proof -
  have "(spin_sys_step 2 (- 1))\<^sup>*\<^sup>* spin_init (spin_move 1 (Lock_Enter, 0, 0) spin_init)"
    using spin_sys_step.call [of 1 2 spin_init Lock_Enter "- 1"] by (simp add: spin_init_def)
  then show ?thesis using spinlock_mutual_exclusion [of "- 1" 2 _ 1] by (simp add: spin_move_def)
qed

subsection \<open>The reader/writer spinlock\<close>

datatype rw_pc =
    Free | Reading | Writing
  | Ex_Load bool int | Ex_Top bool int int | Ex_Bit30 int int
  | Up_Assert | Down_Assert | Down_Store | Exu_Assert | Exu_Store
  | Sh_Load | Sh_Top int | Sh_Wait
  | Shu_Load | Shu_Top int
  | Etry_Load | Etry_Cas
  | Stry_Load | Stry_Top int | Stry_Wait
  | RW_Panic

text \<open>
  The loop of \<^verbatim>\<open>rwspinlock_ex_lock_impl\<close>: \<open>Ex_Load own_bit30 expect\<close> reads the lock word, \<open>Ex_Top own_bit30 expect
  old_value\<close> is the top of the loop, and \<open>Ex_Bit30 expect old_value\<close> is the attempt to lock out readers.
\<close>

fun rwspinlock_ex_lock_impl :: "rw_pc \<Rightarrow> int \<Rightarrow> rw_pc \<times> int" where
  "rwspinlock_ex_lock_impl (Ex_Load own_bit30 expect) v = (Ex_Top own_bit30 expect v, v)"
| "rwspinlock_ex_lock_impl (Ex_Top own_bit30 expect old_value) v =
    (if \<not> own_bit30 then
       if old_value = expect \<and> v = expect then (Writing, - 1) else (Ex_Bit30 expect old_value, v)
     else if old_value = 2 ^ 30 + expect then
       if v = old_value then (Writing, - 1) else (Ex_Top own_bit30 expect v, v)
     else (Ex_Load own_bit30 expect, v))"
| "rwspinlock_ex_lock_impl (Ex_Bit30 expect old_value) v =
    (if old_value < 2 ^ 30 \<and> old_value > 0 then
       if v = old_value then (Ex_Top True expect old_value, old_value OR 2 ^ 30) else (Ex_Top False expect v, v)
     else (Ex_Load False expect, v))"
| "rwspinlock_ex_lock_impl pc v = (pc, v)"

fun rwspinlock_upgrade :: "rw_pc \<Rightarrow> int \<Rightarrow> rw_pc \<times> int" where
  "rwspinlock_upgrade Up_Assert v = (if v > 0 then Ex_Load False 1 else RW_Panic, v)"
| "rwspinlock_upgrade pc v = (pc, v)"

fun rwspinlock_downgrade :: "rw_pc \<Rightarrow> int \<Rightarrow> rw_pc \<times> int" where
  "rwspinlock_downgrade Down_Assert v = (if v = - 1 then Down_Store else RW_Panic, v)"
| "rwspinlock_downgrade Down_Store v = (Reading, 1)"
| "rwspinlock_downgrade pc v = (pc, v)"

fun rwspinlock_ex_unlock :: "rw_pc \<Rightarrow> int \<Rightarrow> rw_pc \<times> int" where
  "rwspinlock_ex_unlock Exu_Assert v = (if v = - 1 then Exu_Store else RW_Panic, v)"
| "rwspinlock_ex_unlock Exu_Store v = (Free, 0)"
| "rwspinlock_ex_unlock pc v = (pc, v)"

fun rwspinlock_sh_lock :: "rw_pc \<Rightarrow> int \<Rightarrow> rw_pc \<times> int" where
  "rwspinlock_sh_lock Sh_Load v = (Sh_Top v, v)"
| "rwspinlock_sh_lock (Sh_Top old_value) v =
    (if old_value \<ge> 0 \<and> old_value < 2 ^ 30 then
       if v = old_value then (Reading, old_value + 1) else (Sh_Top v, v)
     else if old_value < 0 then (Sh_Wait, v)
     else (Sh_Top old_value, v))"
| "rwspinlock_sh_lock Sh_Wait v = (if v AND (- (2 ^ 31) OR 2 ^ 30) = 0 then Sh_Load else Sh_Wait, v)"
| "rwspinlock_sh_lock pc v = (pc, v)"

fun rwspinlock_sh_unlock :: "rw_pc \<Rightarrow> int \<Rightarrow> rw_pc \<times> int" where
  "rwspinlock_sh_unlock Shu_Load v = (Shu_Top v, v)"
| "rwspinlock_sh_unlock (Shu_Top old_value) v =
    (if old_value > 0 then
       if v = old_value then (Free, old_value - 1) else (Shu_Top v, v)
     else (RW_Panic, v))"
| "rwspinlock_sh_unlock pc v = (pc, v)"

fun rwspinlock_ex_try_lock :: "rw_pc \<Rightarrow> int \<Rightarrow> rw_pc \<times> int" where
  "rwspinlock_ex_try_lock Etry_Load v = (if v = 0 then Etry_Cas else Free, v)"
| "rwspinlock_ex_try_lock Etry_Cas v = (if v = 0 then (Writing, - 1) else (Free, v))"
| "rwspinlock_ex_try_lock pc v = (pc, v)"

fun rwspinlock_sh_try_lock :: "rw_pc \<Rightarrow> int \<Rightarrow> rw_pc \<times> int" where
  "rwspinlock_sh_try_lock Stry_Load v = (Stry_Top v, v)"
| "rwspinlock_sh_try_lock (Stry_Top expect) v =
    (if expect \<ge> 0 then
       if v = expect then (Reading, expect + 1) else (Stry_Wait, v)
     else (Free, v))"
| "rwspinlock_sh_try_lock Stry_Wait v = (if v AND - (2 ^ 31) = 0 then Stry_Load else Stry_Wait, v)"
| "rwspinlock_sh_try_lock pc v = (pc, v)"

definition rw_steps :: "(rw_pc \<Rightarrow> int \<Rightarrow> rw_pc \<times> int) list" where
  "rw_steps = [rwspinlock_ex_lock_impl, rwspinlock_upgrade, rwspinlock_downgrade, rwspinlock_ex_unlock,
     rwspinlock_sh_lock, rwspinlock_sh_unlock, rwspinlock_ex_try_lock, rwspinlock_sh_try_lock]"

text \<open>
  The calls a client makes: any acquiring function when it does not hold the lock; upgrade or unlock when it
  reads; downgrade or unlock when it writes.  \<^verbatim>\<open>rwspinlock_ex_lock\<close> starts the loop with 0.
\<close>

fun rw_calls :: "rw_pc \<Rightarrow> rw_pc list" where
  "rw_calls Free = [Ex_Load False 0, Sh_Load, Etry_Load, Stry_Load]"
| "rw_calls Reading = [Up_Assert, Shu_Load]"
| "rw_calls Writing = [Down_Assert, Exu_Assert]"
| "rw_calls pc = []"

record rw_sys =
  rw_lock :: int
  rw_pcs :: "nat \<Rightarrow> rw_pc"

definition rw_move :: "nat \<Rightarrow> rw_pc \<times> int \<Rightarrow> rw_sys \<Rightarrow> rw_sys" where
  "rw_move t r s = (case r of (pc, v) \<Rightarrow> \<lparr> rw_lock = v, rw_pcs = (rw_pcs s)(t := pc) \<rparr>)"

inductive rw_sys_step :: "nat \<Rightarrow> rw_sys \<Rightarrow> rw_sys \<Rightarrow> bool" for N where
  rw_call: "t < N \<Longrightarrow> pc \<in> set (rw_calls (rw_pcs s t)) \<Longrightarrow> rw_sys_step N s (rw_move t (pc, rw_lock s) s)"
| rw_run: "t < N \<Longrightarrow> f \<in> set rw_steps \<Longrightarrow> rw_sys_step N s (rw_move t (f (rw_pcs s t) (rw_lock s)) s)"

definition rw_init :: rw_sys where
  "rw_init = \<lparr> rw_lock = 0, rw_pcs = (\<lambda>t. Free) \<rparr>"

lemma rw_move_sel [simp]:
  "rw_lock (rw_move t (pc, v) s) = v" "rw_pcs (rw_move t (pc, v) s) = (rw_pcs s)(t := pc)"
  by (simp_all add: rw_move_def)

text \<open>What a thread holds in each control state: a share, the exclusive lock, or bit 30.\<close>

fun shares :: "rw_pc \<Rightarrow> bool" where
  "shares Reading = True"
| "shares (Ex_Load b e) = (e = 1)"
| "shares (Ex_Top b e v) = (e = 1)"
| "shares (Ex_Bit30 e v) = (e = 1)"
| "shares Up_Assert = True"
| "shares Shu_Load = True"
| "shares (Shu_Top v) = True"
| "shares pc = False"

fun excludes :: "rw_pc \<Rightarrow> bool" where
  "excludes Writing = True"
| "excludes Down_Assert = True"
| "excludes Down_Store = True"
| "excludes Exu_Assert = True"
| "excludes Exu_Store = True"
| "excludes pc = False"

fun owns_bit30 :: "rw_pc \<Rightarrow> bool" where
  "owns_bit30 (Ex_Load b e) = b"
| "owns_bit30 (Ex_Top b e v) = b"
| "owns_bit30 pc = False"

fun rw_pc_ok :: "rw_pc \<Rightarrow> bool" where
  "rw_pc_ok (Ex_Load b e) = (e = 0 \<or> e = 1)"
| "rw_pc_ok (Ex_Top b e v) = (e = 0 \<or> e = 1)"
| "rw_pc_ok (Ex_Bit30 e v) = (e = 0 \<or> e = 1)"
| "rw_pc_ok (Shu_Top v) = (v > 0)"
| "rw_pc_ok RW_Panic = False"
| "rw_pc_ok pc = True"

definition rw_word_ok :: "int \<Rightarrow> int \<Rightarrow> int \<Rightarrow> int \<Rightarrow> bool" where
  "rw_word_ok v r w b \<longleftrightarrow> v = - 1 \<and> w = 1 \<and> r = 0 \<and> b = 0
     \<or> 0 \<le> r \<and> w = 0 \<and> (b = 0 \<and> v = r \<or> b = 1 \<and> v = r + 2 ^ 30)"

definition rw_inv :: "nat \<Rightarrow> rw_sys \<Rightarrow> bool" where
  "rw_inv N s \<longleftrightarrow> rw_word_ok (rw_lock s) (pc_count N shares (rw_pcs s)) (pc_count N excludes (rw_pcs s))
       (pc_count N owns_bit30 (rw_pcs s))
     \<and> (\<forall>t<N. rw_pc_ok (rw_pcs s t))"

lemma rw_inv_init: "rw_inv N rw_init"
  by (simp add: rw_inv_def rw_init_def pc_count_def rw_word_ok_def)

text \<open>A step keeps the invariant when it keeps it for the thread that moves and any counts for the others.\<close>

definition rw_local :: "rw_pc \<Rightarrow> int \<Rightarrow> rw_pc \<times> int \<Rightarrow> bool" where
  "rw_local p v q = (case q of (pc, v') \<Rightarrow>
     (\<forall>r w b. 0 \<le> r \<and> 0 \<le> w \<and> 0 \<le> b \<and> r + 1 < 2 ^ 30
        \<longrightarrow> rw_word_ok v (r + of_bool (shares p)) (w + of_bool (excludes p)) (b + of_bool (owns_bit30 p))
        \<longrightarrow> rw_pc_ok pc
          \<and> rw_word_ok v' (r + of_bool (shares pc)) (w + of_bool (excludes pc)) (b + of_bool (owns_bit30 pc))))"

lemma pc_count_others:
  "t < N \<Longrightarrow> 0 \<le> pc_count N f pcs - of_bool (f (pcs t)) \<and> pc_count N f pcs - of_bool (f (pcs t)) \<le> int N"
  using pc_count_nonneg [of N f pcs] pc_count_le [of N f pcs] pc_count_pos [of t N f pcs] by auto

lemma rw_move_inv:
  assumes "rw_inv N s" "t < N" "int N + 1 < 2 ^ 30" "rw_local (rw_pcs s t) (rw_lock s) q"
  shows "rw_inv N (rw_move t q s)"
proof -
  obtain pc v where q: "q = (pc, v)" by fastforce
  define r w b where rwb: "r = pc_count N shares (rw_pcs s) - of_bool (shares (rw_pcs s t))"
    "w = pc_count N excludes (rw_pcs s) - of_bool (excludes (rw_pcs s t))"
    "b = pc_count N owns_bit30 (rw_pcs s) - of_bool (owns_bit30 (rw_pcs s t))"
  have "0 \<le> r" "r \<le> int N" "0 \<le> w" "0 \<le> b"
    using pc_count_others [OF assms(2)] unfolding rwb by blast+
  with assms(3) have "0 \<le> r" "r + 1 < 2 ^ 30" "0 \<le> w" "0 \<le> b" by linarith+
  moreover have "rw_word_ok (rw_lock s) (r + of_bool (shares (rw_pcs s t))) (w + of_bool (excludes (rw_pcs s t)))
      (b + of_bool (owns_bit30 (rw_pcs s t)))"
    using assms(1) by (simp add: rwb rw_inv_def)
  ultimately have "rw_pc_ok pc \<and> rw_word_ok v (r + of_bool (shares pc)) (w + of_bool (excludes pc)) (b + of_bool (owns_bit30 pc))"
    using assms(4) unfolding rw_local_def q prod.case by blast
  then show ?thesis using assms(1,2) by (simp add: rw_inv_def q pc_count_upd rwb)
qed

lemma or_bit30:
  assumes "0 < v" "v < 1073741824"
  shows "v OR 1073741824 = v + (1073741824 :: int)"
proof -
  have "\<not> bit v 30" using assms by (simp add: bit_iff_odd div_pos_pos_trivial)
  then have "v + 2 ^ 30 = v OR 2 ^ 30" by (intro disjunctive_add) (auto simp only: bit_exp_iff)
  then show ?thesis by simp
qed

lemma rw_local_refl: "rw_pc_ok p \<Longrightarrow> rw_local p v (p, v)"
  by (simp add: rw_local_def)

lemma rw_localI:
  assumes "\<And>r w b. 0 \<le> r \<Longrightarrow> 0 \<le> w \<Longrightarrow> 0 \<le> b \<Longrightarrow> r + 1 < 2 ^ 30
      \<Longrightarrow> rw_word_ok v (r + of_bool (shares p)) (w + of_bool (excludes p)) (b + of_bool (owns_bit30 p))
      \<Longrightarrow> rw_pc_ok pc
          \<and> rw_word_ok v' (r + of_bool (shares pc)) (w + of_bool (excludes pc)) (b + of_bool (owns_bit30 pc))"
  shows "rw_local p v (pc, v')"
  using assms unfolding rw_local_def prod.case by blast

lemma rw_local_ex: "rw_pc_ok p \<Longrightarrow> rw_local p v (rwspinlock_ex_lock_impl p v)"
  by (cases p) (auto simp: rw_local_refl or_bit30 rw_word_ok_def intro!: rw_localI)

lemma rw_local_convert:
  "rw_pc_ok p \<Longrightarrow> rw_local p v (rwspinlock_upgrade p v)" "rw_pc_ok p \<Longrightarrow> rw_local p v (rwspinlock_downgrade p v)"
  by (cases p; auto simp: rw_local_refl rw_word_ok_def intro!: rw_localI)+

lemma rw_local_unlock:
  "rw_pc_ok p \<Longrightarrow> rw_local p v (rwspinlock_ex_unlock p v)" "rw_pc_ok p \<Longrightarrow> rw_local p v (rwspinlock_sh_unlock p v)"
  by (cases p; auto simp: rw_local_refl rw_word_ok_def intro!: rw_localI)+

lemma rw_local_sh: "rw_pc_ok p \<Longrightarrow> rw_local p v (rwspinlock_sh_lock p v)"
  by (cases p) (auto simp: rw_local_refl rw_word_ok_def intro!: rw_localI)

lemma rw_local_try:
  "rw_pc_ok p \<Longrightarrow> rw_local p v (rwspinlock_ex_try_lock p v)" "rw_pc_ok p \<Longrightarrow> rw_local p v (rwspinlock_sh_try_lock p v)"
  by (cases p; auto simp: rw_local_refl rw_word_ok_def intro!: rw_localI)+

lemmas rw_local_all = rw_local_ex rw_local_convert rw_local_unlock rw_local_sh rw_local_try

lemma rw_local_steps: "rw_pc_ok p \<Longrightarrow> f \<in> set rw_steps \<Longrightarrow> rw_local p v (f p v)"
  by (auto simp: rw_steps_def intro: rw_local_all)

lemma rw_local_calls: "pc \<in> set (rw_calls p) \<Longrightarrow> rw_local p v (pc, v)"
  by (cases p) (auto simp: rw_local_def rw_word_ok_def)

lemma rw_inv_pc: "rw_inv N s \<Longrightarrow> t < N \<Longrightarrow> rw_pc_ok (rw_pcs s t)"
  by (simp add: rw_inv_def)

interpretation rw: transition_invariant "rw_sys_step N" "\<lambda>s. int N + 1 < 2 ^ 30 \<and> rw_inv N s" for N
proof unfold_locales
  fix s s'
  assume "rw_sys_step N s s'" "int N + 1 < 2 ^ 30 \<and> rw_inv N s"
  then show "int N + 1 < 2 ^ 30 \<and> rw_inv N s'"
    by cases (auto intro!: rw_move_inv rw_local_calls rw_local_steps dest: rw_inv_pc)
qed

text \<open>
  C7. The reader/writer spinlock excludes.  In every state that fewer than \<open>2 ^ 30 - 1\<close> threads can reach with all
  the functions of the lock, a writer is alone: no other thread writes or reads, and the word is -1.  Otherwise the low
  30 bits of the word are the number of threads that hold a share, upgrading ones included.  No assertion fails.
\<close>

theorem rwspinlock_excludes:
  assumes "int N + 1 < 2 ^ 30" "(rw_sys_step N)\<^sup>*\<^sup>* rw_init s" "t < N"
  shows "(excludes (rw_pcs s t) \<longrightarrow> rw_lock s = - 1
        \<and> (\<forall>u<N. u \<noteq> t \<longrightarrow> \<not> excludes (rw_pcs s u) \<and> \<not> shares (rw_pcs s u)))
    \<and> (shares (rw_pcs s t) \<longrightarrow> 0 < rw_lock s)
    \<and> (0 \<le> rw_lock s \<longrightarrow> rw_lock s mod 2 ^ 30 = pc_count N shares (rw_pcs s))
    \<and> rw_pcs s t \<noteq> RW_Panic"
proof -
  have inv: "rw_inv N s" using rw.run_inv [OF assms(2)] assms(1) rw_inv_init by blast
  define r w b where rwb: "r = pc_count N shares (rw_pcs s)" "w = pc_count N excludes (rw_pcs s)"
    "b = pc_count N owns_bit30 (rw_pcs s)"
  have ok: "rw_word_ok (rw_lock s) r w b" using inv by (simp add: rw_inv_def rwb)
  have r: "r < 2 ^ 30" using pc_count_le [of N shares "rw_pcs s"] assms(1) unfolding rwb by linarith
  have "rw_lock s = - 1" "r = 0" "w = 1" if "excludes (rw_pcs s t)"
    using pc_count_pos [OF assms(3), of excludes "rw_pcs s"] that ok unfolding rw_word_ok_def rwb by auto
  moreover have "\<not> excludes (rw_pcs s u) \<and> \<not> shares (rw_pcs s u)" if "w = 1" "r = 0" "excludes (rw_pcs s t)" "u < N" "u \<noteq> t" for u
    using pc_count_one_unique [of N excludes "rw_pcs s" u t] pc_count_zero [of N shares "rw_pcs s" u] that assms(3)
    by (auto simp: rwb)
  moreover have "0 < rw_lock s" if "shares (rw_pcs s t)"
    using pc_count_pos [OF assms(3), of shares "rw_pcs s"] that ok unfolding rw_word_ok_def rwb by auto
  moreover have "rw_lock s mod 2 ^ 30 = r" if "0 \<le> rw_lock s"
    using ok that r by (auto simp: rw_word_ok_def)
  moreover have "rw_pcs s t \<noteq> RW_Panic" using rw_inv_pc [OF inv assms(3)] by auto
  ultimately show ?thesis unfolding rwb by blast
qed

text \<open>Replaying a schedule: each entry names a thread and the call it makes or the step function it runs.\<close>

fun rw_replay :: "nat \<Rightarrow> (nat \<times> (rw_pc + nat)) list \<Rightarrow> rw_sys \<Rightarrow> rw_sys option" where
  "rw_replay N [] s = Some s"
| "rw_replay N ((t, Inl pc) # acts) s =
    (if t < N \<and> pc \<in> set (rw_calls (rw_pcs s t)) then rw_replay N acts (rw_move t (pc, rw_lock s) s) else None)"
| "rw_replay N ((t, Inr i) # acts) s =
    (if t < N \<and> i < length rw_steps then rw_replay N acts (rw_move t ((rw_steps ! i) (rw_pcs s t) (rw_lock s)) s) else None)"

lemma rw_replay_run: "rw_replay N acts s = Some s' \<Longrightarrow> (rw_sys_step N)\<^sup>*\<^sup>* s s'"
proof (induction N acts s rule: rw_replay.induct)
  case (2 N t pc acts s)
  then have "t < N" "pc \<in> set (rw_calls (rw_pcs s t))" "(rw_sys_step N)\<^sup>*\<^sup>* (rw_move t (pc, rw_lock s) s) s'"
    by (simp_all split: if_splits)
  then show ?case using converse_rtranclp_into_rtranclp [of "rw_sys_step N" s, OF rw_sys_step.rw_call] by blast
next
  case (3 N t i acts s)
  then have "t < N" "rw_steps ! i \<in> set rw_steps"
      "(rw_sys_step N)\<^sup>*\<^sup>* (rw_move t ((rw_steps ! i) (rw_pcs s t) (rw_lock s)) s) s'"
    by (simp_all split: if_splits)
  then show ?case using converse_rtranclp_into_rtranclp [of "rw_sys_step N" s, OF rw_sys_step.rw_run] by blast
qed simp

definition stale_reader_run :: "(nat \<times> (rw_pc + nat)) list" where
  "stale_reader_run =
    [(0, Inl Sh_Load), (0, Inr 4), (0, Inr 4),
     (1, Inl (Ex_Load False 0)), (1, Inr 0), (1, Inr 0), (1, Inr 0),
     (2, Inl Sh_Load), (2, Inr 4),
     (0, Inl Shu_Load), (0, Inr 5), (0, Inr 5),
     (1, Inr 0), (1, Inr 0), (1, Inr 0), (1, Inl Exu_Assert), (1, Inr 3), (1, Inr 3)]"

lemma stale_reader_replay:
  assumes "3 \<le> N"
  shows "\<exists>s. rw_replay N stale_reader_run rw_init = Some s \<and> rw_lock s = 0
    \<and> rw_pcs s 0 = Free \<and> rw_pcs s 1 = Free \<and> rw_pcs s 2 = Sh_Top (2 ^ 30 + 1)"
  using assms by (simp add: stale_reader_run_def rw_init_def rw_steps_def)

lemma stale_reader_stuck:
  assumes "(rw_sys_step N)\<^sup>*\<^sup>* s s'" "rw_pcs s t = Sh_Top v" "2 ^ 30 \<le> v"
  shows "rw_pcs s' t = Sh_Top v"
  using assms
proof (induction rule: rtranclp_induct)
  case (step s1 s2)
  from step(2) show ?case
  proof cases
    case (rw_call u pc)
    then show ?thesis using step by (cases "u = t") auto
  next
    case (rw_run u f)
    then show ?thesis using step by (cases "u = t"; cases "f (rw_pcs s1 u) (rw_lock s1)") (auto simp: rw_steps_def)
  qed
qed

text \<open>
  C36. A reader that sees a waiting writer never gets the lock.  \<^verbatim>\<open>rwspinlock_sh_lock\<close> reads the word again only after
  a failed exchange or when it is negative.  With three threads there is a run after which the word is 0 and the first
  reader and the writer are done, and whatever the threads do from there on, the second reader stays in its loop with the
  value it once read.
\<close>

theorem rwspinlock_reader_starves:
  assumes "3 \<le> N"
  shows "\<exists>s. (rw_sys_step N)\<^sup>*\<^sup>* rw_init s \<and> rw_lock s = 0 \<and> rw_pcs s 0 = Free \<and> rw_pcs s 1 = Free
    \<and> (\<forall>s'. (rw_sys_step N)\<^sup>*\<^sup>* s s' \<longrightarrow> rw_pcs s' 2 = Sh_Top (2 ^ 30 + 1))"
proof -
  obtain s where s: "rw_replay N stale_reader_run rw_init = Some s" "rw_lock s = 0" "rw_pcs s 0 = Free"
    "rw_pcs s 1 = Free" "rw_pcs s 2 = Sh_Top (2 ^ 30 + 1)"
    using stale_reader_replay [OF assms] by blast
  have "rw_pcs s' 2 = Sh_Top (2 ^ 30 + 1)" if "(rw_sys_step N)\<^sup>*\<^sup>* s s'" for s'
    using stale_reader_stuck [OF that s(5)] by simp
  then show ?thesis using s(2-4) rw_replay_run [OF s(1)] by blast
qed

theorem rwspinlock_reader_starves_witness:
  "\<exists>s. (rw_sys_step 3)\<^sup>*\<^sup>* rw_init s \<and> rw_lock s = 0 \<and> rw_pcs s 2 = Sh_Top (2 ^ 30 + 1)"
  using rwspinlock_reader_starves [of 3] by auto

theorem rwspinlock_excludes_witness:
  "\<exists>s. (rw_sys_step 2)\<^sup>*\<^sup>* rw_init s \<and> rw_pcs s 0 = Writing \<and> \<not> excludes (rw_pcs s 1) \<and> \<not> shares (rw_pcs s 1)"
proof -
  have "\<exists>s. rw_replay 2 [(0, Inl Etry_Load), (0, Inr 6), (0, Inr 6)] rw_init = Some s \<and> rw_pcs s 0 = Writing"
    by (simp add: rw_init_def rw_steps_def)
  then obtain s where s: "(rw_sys_step 2)\<^sup>*\<^sup>* rw_init s" "rw_pcs s 0 = Writing" using rw_replay_run by blast
  then show ?thesis using rwspinlock_excludes [OF _ s(1), of 0] by auto
qed

end
