(* ===== verification/Ticketlock.thy ===== *)
theory Ticketlock
  imports Spinlock
begin

text \<open>
  The ticket lock of \<^verbatim>\<open>kernel/lib/spinlock.cc\<close>, run by several threads.

  As for the spinlock, the control state of a thread holds its local variables and every step accesses
  one field of the lock.  The system counts how often each field has moved on (\<open>tk_issued\<close>, \<open>tk_served\<close>); the counts are
  not part of the program and number the tickets without wrap-around.
\<close>

record ticketlock_t =
  now_serving :: u32
  next_ticket :: u32

datatype tk_pc =
    TIdle | TSaved u32 | THeld
  | TLock_Enter | TLock_Xadd | TLock_Load u32 | TLock_Store u32 u32 | TLock_Wait u32
  | TRest_Xadd u32 | TRest_Load u32 u32 | TRest_Store u32 u32 u32 | TRest_Wait u32 u32
  | TTry_Enter | TTry_Next | TTry_Serving u32 | TTry_Cas u32 u32 | TTry_Store u32 | TTry_Leave
  | TUnl_Load | TUnl_Store u32 | TUnl_Leave
  | TSave_Intr | TSave_Load u32 | TSave_Store u32 u32

text \<open>One step of a thread: the next control state, the lock and the change of the depth of critical sections.\<close>

fun ticketlock_lock :: "tk_pc \<Rightarrow> ticketlock_t \<Rightarrow> tk_pc \<times> ticketlock_t \<times> int" where
  "ticketlock_lock TLock_Enter l = (TLock_Xadd, l, 1)"
| "ticketlock_lock TLock_Xadd l = (TLock_Load (next_ticket l), l\<lparr> next_ticket := next_ticket l + 2 \<rparr>, 0)"
| "ticketlock_lock (TLock_Load my_ticket) l =
    (if my_ticket = now_serving l AND - 2 then TLock_Store my_ticket (now_serving l) else TLock_Wait my_ticket, l, 0)"
| "ticketlock_lock (TLock_Store my_ticket serving) l = (THeld, l\<lparr> now_serving := serving AND - 2 \<rparr>, 0)"
| "ticketlock_lock (TLock_Wait my_ticket) l =
    (if now_serving l = my_ticket then TLock_Load my_ticket else TLock_Wait my_ticket, l, 0)"
| "ticketlock_lock pc l = (pc, l, 0)"

fun ticketlock_lock_restore :: "tk_pc \<Rightarrow> ticketlock_t \<Rightarrow> tk_pc \<times> ticketlock_t \<times> int" where
  "ticketlock_lock_restore (TRest_Xadd saved) l =
    (TRest_Load saved (next_ticket l), l\<lparr> next_ticket := next_ticket l + 2 \<rparr>, 0)"
| "ticketlock_lock_restore (TRest_Load saved my_ticket) l =
    (if my_ticket = now_serving l AND - 2 then TRest_Store saved my_ticket (now_serving l)
     else TRest_Wait saved my_ticket, l, 0)"
| "ticketlock_lock_restore (TRest_Store saved my_ticket serving) l =
    (THeld, l\<lparr> now_serving := (serving AND - 2) OR saved \<rparr>, 0)"
| "ticketlock_lock_restore (TRest_Wait saved my_ticket) l =
    (if now_serving l = my_ticket then TRest_Load saved my_ticket else TRest_Wait saved my_ticket, l, 0)"
| "ticketlock_lock_restore pc l = (pc, l, 0)"

fun ticketlock_try_lock :: "tk_pc \<Rightarrow> ticketlock_t \<Rightarrow> tk_pc \<times> ticketlock_t \<times> int" where
  "ticketlock_try_lock TTry_Enter l = (TTry_Next, l, 1)"
| "ticketlock_try_lock TTry_Next l = (TTry_Serving (next_ticket l), l, 0)"
| "ticketlock_try_lock (TTry_Serving old_next) l =
    (if now_serving l = old_next then TTry_Cas old_next (now_serving l) else TTry_Leave, l, 0)"
| "ticketlock_try_lock (TTry_Cas old_next serving) l =
    (if next_ticket l = old_next then (TTry_Store serving, l\<lparr> next_ticket := (old_next + 2) AND - 2 \<rparr>, 0)
     else (TTry_Leave, l, 0))"
| "ticketlock_try_lock (TTry_Store serving) l = (THeld, l\<lparr> now_serving := serving AND - 2 \<rparr>, 0)"
| "ticketlock_try_lock TTry_Leave l = (TIdle, l, - 1)"
| "ticketlock_try_lock pc l = (pc, l, 0)"

fun ticketlock_unlock :: "tk_pc \<Rightarrow> ticketlock_t \<Rightarrow> tk_pc \<times> ticketlock_t \<times> int" where
  "ticketlock_unlock TUnl_Load l = (TUnl_Store (now_serving l), l, 0)"
| "ticketlock_unlock (TUnl_Store serving) l = (TUnl_Leave, l\<lparr> now_serving := (serving + 2) AND - 2 \<rparr>, 0)"
| "ticketlock_unlock TUnl_Leave l = (TIdle, l, - 1)"
| "ticketlock_unlock pc l = (pc, l, 0)"

fun ticketlock_unlock_save :: "tk_pc \<Rightarrow> ticketlock_t \<Rightarrow> tk_pc \<times> ticketlock_t \<times> int" where
  "ticketlock_unlock_save TSave_Intr l = (TSave_Load (now_serving l AND 1), l, 0)"
| "ticketlock_unlock_save (TSave_Load intr_state) l = (TSave_Store intr_state (now_serving l), l, 0)"
| "ticketlock_unlock_save (TSave_Store intr_state serving) l =
    (TSaved intr_state, l\<lparr> now_serving := (serving + 2) AND - 2 \<rparr>, 0)"
| "ticketlock_unlock_save pc l = (pc, l, 0)"

definition tk_steps :: "(tk_pc \<Rightarrow> ticketlock_t \<Rightarrow> tk_pc \<times> ticketlock_t \<times> int) list" where
  "tk_steps = [ticketlock_lock, ticketlock_lock_restore, ticketlock_try_lock, ticketlock_unlock, ticketlock_unlock_save]"

text \<open>The calls of a client; what \<^verbatim>\<open>ticketlock_unlock_save\<close> returned is given to \<^verbatim>\<open>ticketlock_lock_restore\<close>.\<close>

fun tk_calls :: "tk_pc \<Rightarrow> tk_pc list" where
  "tk_calls TIdle = [TLock_Enter, TTry_Enter]"
| "tk_calls THeld = [TUnl_Load, TSave_Intr]"
| "tk_calls (TSaved saved) = [TRest_Xadd saved]"
| "tk_calls pc = []"

record tk_sys =
  tk_lock :: ticketlock_t
  tk_pcs :: "nat \<Rightarrow> tk_pc"
  tk_cs :: "nat \<Rightarrow> int"
  tk_issued :: nat
  tk_served :: nat

definition tk_move :: "nat \<Rightarrow> tk_pc \<times> ticketlock_t \<times> int \<Rightarrow> tk_sys \<Rightarrow> tk_sys" where
  "tk_move t q s =
    (case q of (pc, l, d) \<Rightarrow>
      \<lparr> tk_lock = l, tk_pcs = (tk_pcs s)(t := pc), tk_cs = (tk_cs s)(t := tk_cs s t + d),
        tk_issued = tk_issued s + (if next_ticket l = next_ticket (tk_lock s) then 0 else 1),
        tk_served = tk_served s + (if now_serving l AND - 2 = now_serving (tk_lock s) AND - 2 then 0 else 1) \<rparr>)"

inductive tk_sys_step :: "nat \<Rightarrow> tk_sys \<Rightarrow> tk_sys \<Rightarrow> bool" for N where
  tk_call: "t < N \<Longrightarrow> pc \<in> set (tk_calls (tk_pcs s t)) \<Longrightarrow> tk_sys_step N s (tk_move t (pc, tk_lock s, 0) s)"
| tk_run: "t < N \<Longrightarrow> f \<in> set tk_steps \<Longrightarrow> tk_sys_step N s (tk_move t (f (tk_pcs s t) (tk_lock s)) s)"

definition tk_init :: tk_sys where
  "tk_init = \<lparr> tk_lock = \<lparr> now_serving = 0, next_ticket = 0 \<rparr>, tk_pcs = (\<lambda>t. TIdle), tk_cs = (\<lambda>t. 0),
     tk_issued = 0, tk_served = 0 \<rparr>"

subsection \<open>Tickets as numbers\<close>

definition tk_num :: "nat \<Rightarrow> u32" where
  "tk_num k = of_nat (2 * k)"

lemma tk_num_Suc: "tk_num (Suc k) = tk_num k + 2"
  by (simp add: tk_num_def)

lemma unat_tk_num: "k < 2 ^ 31 \<Longrightarrow> unat (tk_num k) = 2 * k"
  unfolding tk_num_def by (rule unat_of_nat_32) simp

lemma tk_num_inj:
  assumes "tk_num j = tk_num k" "j < 2 ^ 31" "k < 2 ^ 31"
  shows "j = k"
proof -
  have "2 * j = 2 * k" unfolding unat_tk_num [OF assms(2), symmetric] unat_tk_num [OF assms(3), symmetric] assms(1) ..
  then show ?thesis by simp
qed

lemma even_part: "(x :: u32) AND - 2 = x - of_bool (odd x)"
  using and_neg_power_eq [of x 1] by (simp add: mod_2_eq_odd)

lemma even_part_num [simp]: "tk_num k AND - 2 = tk_num k"
  by (simp add: even_part) (simp add: tk_num_def)

lemma even_part_step: "((x :: u32) + 2) AND - 2 = (x AND - 2) + 2"
  by (simp add: even_part)

lemma even_part_or:
  assumes "y \<le> 1"
  shows "(((x :: u32) AND - 2) OR y) AND - 2 = x AND - 2"
proof -
  have "y AND - 2 = 0" using assms by (cases "y = 0") (auto simp: order_le_less)
  then show ?thesis by (simp add: bit.conj_disj_distrib2)
qed

subsection \<open>The invariant\<close>

fun tk_waits :: "tk_pc \<Rightarrow> u32 option" where
  "tk_waits (TLock_Load my_ticket) = Some my_ticket"
| "tk_waits (TLock_Wait my_ticket) = Some my_ticket"
| "tk_waits (TRest_Load saved my_ticket) = Some my_ticket"
| "tk_waits (TRest_Wait saved my_ticket) = Some my_ticket"
| "tk_waits pc = None"

fun tk_holds :: "tk_pc \<Rightarrow> bool" where
  "tk_holds THeld = True"
| "tk_holds (TLock_Store my_ticket serving) = True"
| "tk_holds (TRest_Store saved my_ticket serving) = True"
| "tk_holds (TTry_Store serving) = True"
| "tk_holds TUnl_Load = True"
| "tk_holds (TUnl_Store serving) = True"
| "tk_holds TSave_Intr = True"
| "tk_holds (TSave_Load intr_state) = True"
| "tk_holds (TSave_Store intr_state serving) = True"
| "tk_holds pc = False"

fun tk_depth :: "tk_pc \<Rightarrow> int" where
  "tk_depth TIdle = 0"
| "tk_depth TLock_Enter = 0"
| "tk_depth TTry_Enter = 0"
| "tk_depth pc = 1"

definition tk_ticket :: "nat \<Rightarrow> tk_pc \<Rightarrow> u32 option" where
  "tk_ticket S pc = (if tk_holds pc then Some (tk_num S) else tk_waits pc)"

text \<open>What a thread knows in each control state when \<open>I\<close> tickets were issued and \<open>S\<close> served.\<close>

fun tk_knows :: "nat \<Rightarrow> nat \<Rightarrow> tk_pc \<Rightarrow> bool" where
  "tk_knows I S (TLock_Store my_ticket serving) \<longleftrightarrow> serving AND - 2 = tk_num S"
| "tk_knows I S (TRest_Store saved my_ticket serving) \<longleftrightarrow> serving AND - 2 = tk_num S \<and> saved \<le> 1"
| "tk_knows I S (TTry_Store serving) \<longleftrightarrow> serving AND - 2 = tk_num S"
| "tk_knows I S (TUnl_Store serving) \<longleftrightarrow> serving AND - 2 = tk_num S"
| "tk_knows I S (TSave_Store intr_state serving) \<longleftrightarrow> serving AND - 2 = tk_num S \<and> intr_state \<le> 1"
| "tk_knows I S (TSave_Load intr_state) \<longleftrightarrow> intr_state \<le> 1"
| "tk_knows I S (TSaved saved) \<longleftrightarrow> saved \<le> 1"
| "tk_knows I S (TRest_Xadd saved) \<longleftrightarrow> saved \<le> 1"
| "tk_knows I S (TRest_Load saved my_ticket) \<longleftrightarrow> saved \<le> 1"
| "tk_knows I S (TRest_Wait saved my_ticket) \<longleftrightarrow> saved \<le> 1"
| "tk_knows I S (TTry_Serving old_next) \<longleftrightarrow> (\<exists>k\<le>I. old_next = tk_num k)"
| "tk_knows I S (TTry_Cas old_next serving) \<longleftrightarrow> serving = old_next \<and> (\<exists>k\<le>S. old_next = tk_num k)"
| "tk_knows I S pc \<longleftrightarrow> True"

definition tk_pc_ok :: "nat \<Rightarrow> nat \<Rightarrow> tk_pc \<Rightarrow> bool" where
  "tk_pc_ok I S pc \<longleftrightarrow> tk_knows I S pc \<and> (tk_holds pc \<longrightarrow> S < I)
     \<and> (\<forall>w. tk_waits pc = Some w \<longrightarrow> (\<exists>j. S \<le> j \<and> j < I \<and> w = tk_num j))"

definition tk_word_ok :: "nat \<Rightarrow> nat \<Rightarrow> ticketlock_t \<Rightarrow> bool" where
  "tk_word_ok I S l \<longleftrightarrow> next_ticket l = tk_num I \<and> now_serving l AND - 2 = tk_num S"

definition tk_inv :: "nat \<Rightarrow> tk_sys \<Rightarrow> bool" where
  "tk_inv N s \<longleftrightarrow> tk_word_ok (tk_issued s) (tk_served s) (tk_lock s) \<and> tk_served s \<le> tk_issued s
     \<and> (\<forall>t<N. tk_pc_ok (tk_issued s) (tk_served s) (tk_pcs s t) \<and> tk_cs s t = tk_depth (tk_pcs s t))
     \<and> (\<forall>t<N. \<forall>u<N. t \<noteq> u \<longrightarrow> tk_ticket (tk_served s) (tk_pcs s t) \<noteq> None
          \<longrightarrow> tk_ticket (tk_served s) (tk_pcs s t) \<noteq> tk_ticket (tk_served s) (tk_pcs s u))"

lemma tk_inv_init: "tk_inv N tk_init"
  by (simp add: tk_inv_def tk_init_def tk_word_ok_def tk_pc_ok_def tk_num_def tk_ticket_def)

lemma tk_ticket_range:
  "tk_pc_ok I S pc \<Longrightarrow> tk_ticket S pc = Some w \<Longrightarrow> \<exists>j. S \<le> j \<and> j < I \<and> w = tk_num j"
  by (auto simp: tk_pc_ok_def tk_ticket_def split: if_splits)

lemma tk_pc_ok_issue: "tk_pc_ok I S pc \<Longrightarrow> tk_pc_ok (Suc I) S pc"
  by (cases pc) (auto simp: tk_pc_ok_def less_Suc_eq intro: le_SucI)

lemma tk_pc_ok_serve:
  assumes "tk_pc_ok I S pc" "tk_ticket S pc \<noteq> Some (tk_num S)"
  shows "tk_pc_ok I (Suc S) pc" "tk_ticket (Suc S) pc = tk_ticket S pc"
proof -
  have "\<not> tk_holds pc" using assms(2) by (auto simp: tk_ticket_def)
  then show "tk_ticket (Suc S) pc = tk_ticket S pc" by (simp add: tk_ticket_def)
  have "\<exists>j. Suc S \<le> j \<and> j < I \<and> w = tk_num j" if "tk_waits pc = Some w" for w
  proof -
    obtain j where "S \<le> j" "j < I" "w = tk_num j" using assms(1) \<open>tk_waits pc = Some w\<close> by (auto simp: tk_pc_ok_def)
    moreover have "w \<noteq> tk_num S" using assms(2) that \<open>\<not> tk_holds pc\<close> by (auto simp: tk_ticket_def)
    ultimately show ?thesis by (metis Suc_leI order_le_less)
  qed
  moreover have "tk_knows I (Suc S) pc"
    using assms(1) \<open>\<not> tk_holds pc\<close> by (cases pc) (auto simp: tk_pc_ok_def intro: le_SucI)
  ultimately show "tk_pc_ok I (Suc S) pc" using \<open>\<not> tk_holds pc\<close> by (simp add: tk_pc_ok_def)
qed

text \<open>A step keeps both counts, takes the next ticket, or serves the next ticket.\<close>

definition tk_local :: "nat \<Rightarrow> nat \<Rightarrow> tk_pc \<Rightarrow> tk_pc \<times> ticketlock_t \<times> int \<Rightarrow> bool" where
  "tk_local I S p q = (case q of (pc, l, d) \<Rightarrow> d = tk_depth pc - tk_depth p \<and>
     (tk_word_ok I S l \<and> tk_pc_ok I S pc \<and> tk_ticket S pc = tk_ticket S p
      \<or> tk_word_ok (Suc I) S l \<and> tk_pc_ok (Suc I) S pc \<and> tk_ticket S pc = Some (tk_num I)
      \<or> tk_word_ok I (Suc S) l \<and> tk_pc_ok I (Suc S) pc \<and> tk_holds p \<and> S < I \<and> tk_ticket (Suc S) pc = None))"

lemma tk_num_neq_Suc: "tk_num (Suc k) \<noteq> tk_num k"
  by (simp add: tk_num_Suc)

lemma tk_move_inv:
  assumes inv: "tk_inv N s" and t: "t < N" and q: "tk_local (tk_issued s) (tk_served s) (tk_pcs s t) q"
    and bound: "tk_issued (tk_move t q s) < 2 ^ 31"
  shows "tk_inv N (tk_move t q s)"
proof -
  obtain pc l d where [simp]: "q = (pc, l, d)" by (cases q)
  let ?I = "tk_issued s" and ?S = "tk_served s" and ?T = "\<lambda>u. tk_ticket (tk_served s) (tk_pcs s u)"
  have word: "tk_word_ok ?I ?S (tk_lock s)" and le: "?S \<le> ?I" and cs: "tk_cs s u = tk_depth (tk_pcs s u)"
    and ok: "tk_pc_ok ?I ?S (tk_pcs s u)" if "u < N" for u
    using inv t that by (auto simp: tk_inv_def)
  have dist: "?T u \<noteq> None \<Longrightarrow> ?T u \<noteq> ?T v" if "u < N" "v < N" "u \<noteq> v" for u v
    using inv that unfolding tk_inv_def by blast
  have d: "d = tk_depth pc - tk_depth (tk_pcs s t)" using q by (simp add: tk_local_def)
  consider (stay) "tk_word_ok ?I ?S l" "tk_pc_ok ?I ?S pc" "tk_ticket ?S pc = ?T t"
    | (issue) "tk_word_ok (Suc ?I) ?S l" "tk_pc_ok (Suc ?I) ?S pc" "tk_ticket ?S pc = Some (tk_num ?I)"
    | (serve) "tk_word_ok ?I (Suc ?S) l" "tk_pc_ok ?I (Suc ?S) pc" "tk_holds (tk_pcs s t)" "?S < ?I" "tk_ticket (Suc ?S) pc = None"
    using q by (auto simp: tk_local_def)
  then show ?thesis
  proof cases
    case stay
    then have "tk_issued (tk_move t q s) = ?I" "tk_served (tk_move t q s) = ?S"
      using word [OF t] by (simp_all add: tk_move_def tk_word_ok_def)
    then show ?thesis using stay le [OF t] ok cs dist t d by (auto simp: tk_inv_def tk_move_def)
  next
    case issue
    then have *: "tk_issued (tk_move t q s) = Suc ?I" "tk_served (tk_move t q s) = ?S"
      using word [OF t] by (simp_all add: tk_move_def tk_word_ok_def tk_num_neq_Suc)
    have new: "?T u \<noteq> Some (tk_num ?I)" if "u < N" for u
      using tk_ticket_range [OF ok [OF that]] tk_num_inj bound *(1) by (metis Suc_lessD less_irrefl less_trans)
    then have "Some (tk_num ?I) \<noteq> ?T u" if "u < N" for u using that by metis
    with new show ?thesis using issue * le [OF t] ok cs dist t d by (auto simp: tk_inv_def tk_move_def intro: tk_pc_ok_issue le_SucI)
  next
    case serve
    then have *: "tk_issued (tk_move t q s) = ?I" "tk_served (tk_move t q s) = Suc ?S"
      using word [OF t] by (simp_all add: tk_move_def tk_word_ok_def tk_num_neq_Suc)
    have "?T t = Some (tk_num ?S)" using serve(3) by (simp add: tk_ticket_def)
    then have "?T u \<noteq> Some (tk_num ?S)" if "u < N" "u \<noteq> t" for u
      using dist [OF t that(1)] that(2) by auto
    then have "tk_pc_ok ?I (Suc ?S) (tk_pcs s u)" "tk_ticket (Suc ?S) (tk_pcs s u) = ?T u" if "u < N" "u \<noteq> t" for u
      using tk_pc_ok_serve [OF ok] that by blast+
    then show ?thesis using serve * cs dist t d by (auto simp: tk_inv_def tk_move_def)
  qed
qed

lemma tk_num_or: "y \<le> 1 \<Longrightarrow> (tk_num k OR y) AND - 2 = tk_num k"
  using even_part_or [of y "tk_num k"] by simp

lemma tk_local_refl:
  "tk_word_ok I S l \<Longrightarrow> tk_pc_ok I S p \<Longrightarrow> tk_local I S p (p, l, 0)"
  by (simp add: tk_local_def)

lemma tk_local_lock: "tk_word_ok I S l \<Longrightarrow> tk_pc_ok I S p \<Longrightarrow> S \<le> I \<Longrightarrow> tk_local I S p (ticketlock_lock p l)"
  by (cases p) (auto simp: tk_local_refl, auto simp: tk_local_def tk_word_ok_def tk_pc_ok_def tk_ticket_def tk_num_Suc)

lemma tk_local_restore:
  "tk_word_ok I S l \<Longrightarrow> tk_pc_ok I S p \<Longrightarrow> S \<le> I \<Longrightarrow> tk_local I S p (ticketlock_lock_restore p l)"
  by (cases p)
    (auto simp: tk_local_refl, auto simp: tk_local_def tk_word_ok_def tk_pc_ok_def tk_ticket_def tk_num_Suc tk_num_or)

lemma tk_local_unlock:
  "tk_word_ok I S l \<Longrightarrow> tk_pc_ok I S p \<Longrightarrow> tk_local I S p (ticketlock_unlock p l)"
  by (cases p)
    (auto simp: tk_local_refl, auto simp: tk_local_def tk_word_ok_def tk_pc_ok_def tk_ticket_def tk_num_Suc even_part_step)

lemma bit0_le_1: "(x :: u32) AND 1 \<le> 1"
  by (simp add: word_and_le1)

lemma tk_local_save:
  "tk_word_ok I S l \<Longrightarrow> tk_pc_ok I S p \<Longrightarrow> tk_local I S p (ticketlock_unlock_save p l)"
  by (cases p) (auto simp: tk_local_refl, auto simp: tk_local_def tk_word_ok_def tk_pc_ok_def tk_ticket_def tk_num_Suc
      even_part_step bit0_le_1 simp del: and_one_eq)

lemma tk_local_try:
  assumes "tk_word_ok I S l" "tk_pc_ok I S p" "S \<le> I" "I < 2 ^ 31"
  shows "tk_local I S p (ticketlock_try_lock p l)"
proof (cases p)
  case (TTry_Serving old_next)
  then obtain k where k: "k \<le> I" "old_next = tk_num k" using assms(2) by (auto simp: tk_pc_ok_def)
  have "k = S" if "now_serving l = old_next"
    using that k assms by (auto simp: tk_word_ok_def intro!: tk_num_inj)
  then show ?thesis using TTry_Serving assms k by (auto simp: tk_local_def tk_pc_ok_def tk_ticket_def)
next
  case (TTry_Cas old_next serving)
  then obtain k where k: "k \<le> S" "old_next = tk_num k" "serving = tk_num k" using assms(2) by (auto simp: tk_pc_ok_def)
  have "k = I" if "next_ticket l = old_next"
    using that k assms by (auto simp: tk_word_ok_def intro!: tk_num_inj)
  show ?thesis
  proof (cases "next_ticket l = old_next")
    case True
    with \<open>next_ticket l = old_next \<Longrightarrow> k = I\<close> k assms(3) have "k = I" "S = I" by simp_all
    then show ?thesis using TTry_Cas assms(1) k True
      by (simp add: tk_local_def tk_pc_ok_def tk_ticket_def tk_word_ok_def even_part_step tk_num_Suc)
  next
    case False
    then show ?thesis using TTry_Cas assms(1)
      by (simp add: tk_local_def tk_pc_ok_def tk_ticket_def)
  qed
qed (use assms in \<open>auto simp: tk_local_def tk_pc_ok_def tk_ticket_def tk_word_ok_def\<close>)

lemma tk_local_steps:
  assumes "tk_word_ok I S l" "tk_pc_ok I S p" "S \<le> I" "I < 2 ^ 31" "f \<in> set tk_steps"
  shows "tk_local I S p (f p l)"
  using assms tk_local_lock tk_local_restore tk_local_unlock tk_local_save tk_local_try by (auto simp: tk_steps_def)

lemma tk_local_calls:
  assumes "tk_word_ok I S l" "tk_pc_ok I S p" "pc \<in> set (tk_calls p)"
  shows "tk_local I S p (pc, l, 0)"
  using assms by (cases p) (auto simp: tk_local_def tk_pc_ok_def tk_ticket_def)

lemma tk_step_local:
  assumes "tk_sys_step N s s'" "tk_inv N s" "tk_issued s < 2 ^ 31"
  obtains t q where "t < N" "s' = tk_move t q s" "tk_local (tk_issued s) (tk_served s) (tk_pcs s t) q"
  using assms(1)
proof cases
  case (tk_call t pc)
  then show ?thesis using assms(2) by (intro that [OF tk_call(2,1)] tk_local_calls) (auto simp: tk_inv_def)
next
  case (tk_run t f)
  then show ?thesis using assms(2,3) by (intro that [OF tk_run(2,1)] tk_local_steps) (auto simp: tk_inv_def)
qed

lemma tk_issued_mono: "tk_sys_step N s s' \<Longrightarrow> tk_issued s \<le> tk_issued s'"
  by (erule tk_sys_step.cases) (auto simp: tk_move_def split: prod.splits)

interpretation tk: transition_invariant "tk_sys_step N" "\<lambda>s. tk_issued s < 2 ^ 31 \<longrightarrow> tk_inv N s" for N
proof unfold_locales
  fix s s'
  assume step: "tk_sys_step N s s'" and inv: "tk_issued s < 2 ^ 31 \<longrightarrow> tk_inv N s"
  show "tk_issued s' < 2 ^ 31 \<longrightarrow> tk_inv N s'"
  proof
    assume bound: "tk_issued s' < 2 ^ 31"
    then have "tk_issued s < 2 ^ 31" using tk_issued_mono [OF step] by simp
    with inv obtain t q where "t < N" "s' = tk_move t q s" "tk_local (tk_issued s) (tk_served s) (tk_pcs s t) q" "tk_inv N s"
      using tk_step_local [OF step] by blast
    then show "tk_inv N s'" using tk_move_inv bound by blast
  qed
qed

text \<open>
  C8. The ticket lock excludes and serves in order.  In every state that threads reach with all the functions of the
  lock while fewer than \<open>2 ^ 31\<close> tickets were drawn, a thread that holds the lock has the ticket being served and is
  in a critical section.  No other thread holds the lock; every waiting thread has a later ticket that was drawn and not
  served, and no two of them have the same.  An idle thread is in no critical section.
\<close>

theorem ticketlock_fifo:
  assumes "(tk_sys_step N)\<^sup>*\<^sup>* tk_init s" "tk_issued s < 2 ^ 31" "t < N" "tk_holds (tk_pcs s t)"
  shows "now_serving (tk_lock s) AND - 2 = tk_num (tk_served s) \<and> next_ticket (tk_lock s) = tk_num (tk_issued s)
    \<and> tk_cs s t = 1
    \<and> (\<forall>u<N. u \<noteq> t \<longrightarrow> \<not> tk_holds (tk_pcs s u)
        \<and> (\<forall>w. tk_waits (tk_pcs s u) = Some w
             \<longrightarrow> (\<exists>j. tk_served s < j \<and> j < tk_issued s \<and> w = tk_num j)
               \<and> (\<forall>v<N. v \<noteq> u \<longrightarrow> tk_waits (tk_pcs s v) \<noteq> Some w))
        \<and> (tk_pcs s u = TIdle \<longrightarrow> tk_cs s u = 0))"
proof -
  let ?S = "tk_served s"
  let ?T = "\<lambda>u. tk_ticket ?S (tk_pcs s u)"
  have inv: "tk_inv N s" using tk.run_inv [OF assms(1)] assms(2) tk_inv_init by blast
  have dist: "?T u \<noteq> ?T v" if "u < N" "v < N" "u \<noteq> v" "?T u \<noteq> None" for u v
    using inv that unfolding tk_inv_def by blast
  have t: "?T t = Some (tk_num ?S)" using assms(4) by (simp add: tk_ticket_def)
  have others: "\<not> tk_holds (tk_pcs s u)" "tk_waits (tk_pcs s u) \<noteq> Some (tk_num ?S)" if "u < N" "u \<noteq> t" for u
    using dist [OF assms(3) that(1)] that(2) t by (auto simp: tk_ticket_def split: if_splits)
  have later: "\<exists>j. ?S < j \<and> j < tk_issued s \<and> w = tk_num j" if u: "u < N" "u \<noteq> t" and w: "tk_waits (tk_pcs s u) = Some w" for u w
  proof -
    obtain j where "?S \<le> j" "j < tk_issued s" "w = tk_num j"
      using inv u(1) w unfolding tk_inv_def tk_pc_ok_def by blast
    then show ?thesis using others(2) [OF u] w by (metis order_le_less)
  qed
  have "tk_waits (tk_pcs s v) \<noteq> Some w"
    if "u < N" "u \<noteq> t" "v < N" "v \<noteq> u" and w: "tk_waits (tk_pcs s u) = Some w" for u v w
  proof
    assume v: "tk_waits (tk_pcs s v) = Some w"
    then have "\<not> tk_holds (tk_pcs s v)" by (cases "tk_pcs s v") auto
    then show False using dist [OF that(1,3)] that(4) others(1) [OF that(1,2)] v w by (auto simp: tk_ticket_def)
  qed
  moreover have "tk_depth (tk_pcs s t) = 1" using assms(4) by (cases "tk_pcs s t") auto
  ultimately show ?thesis using inv assms(3) others(1) later by (auto simp: tk_inv_def tk_word_ok_def)
qed

fun tk_replay :: "nat \<Rightarrow> (nat \<times> (tk_pc + nat)) list \<Rightarrow> tk_sys \<Rightarrow> tk_sys option" where
  "tk_replay N [] s = Some s"
| "tk_replay N ((t, Inl pc) # acts) s =
    (if t < N \<and> pc \<in> set (tk_calls (tk_pcs s t)) then tk_replay N acts (tk_move t (pc, tk_lock s, 0) s) else None)"
| "tk_replay N ((t, Inr i) # acts) s =
    (if t < N \<and> i < length tk_steps then tk_replay N acts (tk_move t ((tk_steps ! i) (tk_pcs s t) (tk_lock s)) s) else None)"

lemma tk_replay_run: "tk_replay N acts s = Some s' \<Longrightarrow> (tk_sys_step N)\<^sup>*\<^sup>* s s'"
proof (induction N acts s rule: tk_replay.induct)
  case (2 N t pc acts s)
  then have "t < N" "pc \<in> set (tk_calls (tk_pcs s t))" "(tk_sys_step N)\<^sup>*\<^sup>* (tk_move t (pc, tk_lock s, 0) s) s'"
    by (simp_all split: if_splits)
  then show ?case using converse_rtranclp_into_rtranclp [of "tk_sys_step N" s, OF tk_sys_step.tk_call] by blast
next
  case (3 N t i acts s)
  then have "t < N" "tk_steps ! i \<in> set tk_steps"
      "(tk_sys_step N)\<^sup>*\<^sup>* (tk_move t ((tk_steps ! i) (tk_pcs s t) (tk_lock s)) s) s'"
    by (simp_all split: if_splits)
  then show ?case using converse_rtranclp_into_rtranclp [of "tk_sys_step N" s, OF tk_sys_step.tk_run] by blast
qed simp

text \<open>A thread takes the lock with \<^verbatim>\<open>ticketlock_try_lock\<close> and a second one queues for it.\<close>

definition tk_demo :: "(nat \<times> (tk_pc + nat)) list" where
  "tk_demo = [(0, Inl TTry_Enter), (0, Inr 2), (0, Inr 2), (0, Inr 2), (0, Inr 2), (0, Inr 2),
     (1, Inl TLock_Enter), (1, Inr 0), (1, Inr 0), (1, Inr 0)]"

lemma tk_demo_state:
  "\<exists>s. tk_replay 2 tk_demo tk_init = Some s \<and> tk_issued s = 2 \<and> tk_served s = 0 \<and> tk_pcs s 0 = THeld \<and> tk_pcs s 1 = TLock_Wait 2"
  by (simp add: tk_demo_def tk_init_def tk_steps_def tk_move_def)

theorem ticketlock_fifo_witness:
  "\<exists>s. (tk_sys_step 2)\<^sup>*\<^sup>* tk_init s \<and> tk_pcs s 0 = THeld \<and> tk_pcs s 1 = TLock_Wait 2
    \<and> (\<exists>j. 0 < j \<and> j < 2 \<and> 2 = tk_num j)"
proof -
  obtain s where s: "(tk_sys_step 2)\<^sup>*\<^sup>* tk_init s" "tk_issued s = 2" "tk_served s = 0" "tk_pcs s 0 = THeld"
    "tk_pcs s 1 = TLock_Wait 2"
    using tk_demo_state tk_replay_run by blast
  have "\<forall>u<2. u \<noteq> 0 \<longrightarrow> (\<forall>w. tk_waits (tk_pcs s u) = Some w \<longrightarrow> (\<exists>j. 0 < j \<and> j < 2 \<and> w = tk_num j))"
    using ticketlock_fifo [OF s(1), of 0] s by simp
  then have "\<exists>j. 0 < j \<and> j < 2 \<and> 2 = tk_num j"
    using s(5) by (elim allE [of _ 1]) simp
  with s show ?thesis by blast
qed

end
