(* ===== verification/Mcslock.thy ===== *)
theory Mcslock
  imports Spinlock
begin

text \<open>
  The queue lock of \<^verbatim>\<open>kernel/lib/spinlock.cc\<close> (Mellor-Crummey and Scott), run by several threads.

  Every thread has one node, which has the number of the thread, and null is \<open>None\<close>.  The fields of the nodes are
  functions from nodes.  The control state of a thread holds its local variables and every step accesses the lock or one
  field.  The system keeps the threads in the order in which they joined (\<open>mcs_queue\<close>), which is not part of the
  program.
\<close>

datatype mcs_pc =
    MIdle | MHeld | MPanic
  | MTry_Enter | MTry_Next | MTry_Cas | MTry_Leave
  | MLock_Tid | MLock_Enter | MLock_Next | MLock_Xchg | MLock_Locked nat | MLock_Assert nat | MLock_Link nat | MLock_Wait
  | MUnl_Test | MUnl_Cas | MUnl_Wait | MUnl_Pass | MUnl_Leave

text \<open>The lock and the nodes; \<open>mcs_queue_ent_t\<close> has the three fields of all nodes.\<close>

record mcs_queue_ent_t =
  m_next :: "nat \<Rightarrow> nat option"
  m_tid :: "nat \<Rightarrow> int"
  m_locked :: "nat \<Rightarrow> bool"

record mcs_sys = mcs_queue_ent_t +
  mcs_lock :: "nat option"
  mcs_pcs :: "nat \<Rightarrow> mcs_pc"
  mcs_cs :: "nat \<Rightarrow> int"
  mcs_queue :: "nat list"

definition mcs_goto :: "nat \<Rightarrow> mcs_pc \<Rightarrow> mcs_sys \<Rightarrow> mcs_sys" where
  "mcs_goto t pc s = s\<lparr> mcs_pcs := (mcs_pcs s)(t := pc) \<rparr>"

definition mcs_nest :: "nat \<Rightarrow> int \<Rightarrow> mcs_sys \<Rightarrow> mcs_sys" where
  "mcs_nest t d s = s\<lparr> mcs_cs := (mcs_cs s)(t := mcs_cs s t + d) \<rparr>"

fun mcslock_try_lock :: "nat \<Rightarrow> mcs_pc \<Rightarrow> mcs_sys \<Rightarrow> mcs_sys" where
  "mcslock_try_lock node MTry_Enter s = mcs_goto node MTry_Next (mcs_nest node 1 s)"
| "mcslock_try_lock node MTry_Next s = mcs_goto node MTry_Cas (s\<lparr> m_next := (m_next s)(node := None) \<rparr>)"
| "mcslock_try_lock node MTry_Cas s =
    (if mcs_lock s = None then mcs_goto node MHeld (s\<lparr> mcs_lock := Some node \<rparr>) else mcs_goto node MTry_Leave s)"
| "mcslock_try_lock node MTry_Leave s = mcs_goto node MIdle (mcs_nest node (- 1) s)"
| "mcslock_try_lock node pc s = s"

fun mcslock_lock :: "nat \<Rightarrow> mcs_pc \<Rightarrow> mcs_sys \<Rightarrow> mcs_sys" where
  "mcslock_lock node MLock_Tid s = mcs_goto node MLock_Enter (s\<lparr> m_tid := (m_tid s)(node := int node) \<rparr>)"
| "mcslock_lock node MLock_Enter s = mcs_goto node MLock_Next (mcs_nest node 1 s)"
| "mcslock_lock node MLock_Next s = mcs_goto node MLock_Xchg (s\<lparr> m_next := (m_next s)(node := None) \<rparr>)"
| "mcslock_lock node MLock_Xchg s =
    mcs_goto node (case mcs_lock s of None \<Rightarrow> MHeld | Some pred \<Rightarrow> MLock_Locked pred) (s\<lparr> mcs_lock := Some node \<rparr>)"
| "mcslock_lock node (MLock_Locked pred) s =
    mcs_goto node (MLock_Assert pred) (s\<lparr> m_locked := (m_locked s)(node := True) \<rparr>)"
| "mcslock_lock node (MLock_Assert pred) s =
    mcs_goto node (if m_tid s pred \<noteq> m_tid s node then MLock_Link pred else MPanic) s"
| "mcslock_lock node (MLock_Link pred) s = mcs_goto node MLock_Wait (s\<lparr> m_next := (m_next s)(pred := Some node) \<rparr>)"
| "mcslock_lock node MLock_Wait s = (if \<not> m_locked s node then mcs_goto node MHeld s else s)"
| "mcslock_lock node pc s = s"

fun mcslock_unlock :: "nat \<Rightarrow> mcs_pc \<Rightarrow> mcs_sys \<Rightarrow> mcs_sys" where
  "mcslock_unlock node MUnl_Test s = mcs_goto node (if m_next s node = None then MUnl_Cas else MUnl_Pass) s"
| "mcslock_unlock node MUnl_Cas s =
    (if mcs_lock s = Some node then mcs_goto node MUnl_Leave (s\<lparr> mcs_lock := None \<rparr>) else mcs_goto node MUnl_Wait s)"
| "mcslock_unlock node MUnl_Wait s = (if m_next s node \<noteq> None then mcs_goto node MUnl_Pass s else s)"
| "mcslock_unlock node MUnl_Pass s =
    (case m_next s node of
       None \<Rightarrow> mcs_goto node MPanic s
     | Some next \<Rightarrow> mcs_goto node MUnl_Leave (s\<lparr> m_locked := (m_locked s)(next := False) \<rparr>))"
| "mcslock_unlock node MUnl_Leave s = mcs_goto node MIdle (mcs_nest node (- 1) s)"
| "mcslock_unlock node pc s = s"

definition mcs_steps :: "(nat \<Rightarrow> mcs_pc \<Rightarrow> mcs_sys \<Rightarrow> mcs_sys) list" where
  "mcs_steps = [mcslock_try_lock, mcslock_lock, mcslock_unlock]"

fun mcs_calls :: "mcs_pc \<Rightarrow> mcs_pc list" where
  "mcs_calls MIdle = [MTry_Enter, MLock_Tid]"
| "mcs_calls MHeld = [MUnl_Test]"
| "mcs_calls pc = []"

text \<open>A thread has joined from the exchange of the lock word until it has left or passed the lock on.\<close>

fun mcs_holds :: "mcs_pc \<Rightarrow> bool" where
  "mcs_holds MHeld = True"
| "mcs_holds MUnl_Test = True"
| "mcs_holds MUnl_Cas = True"
| "mcs_holds MUnl_Wait = True"
| "mcs_holds MUnl_Pass = True"
| "mcs_holds pc = False"

fun mcs_joins :: "mcs_pc \<Rightarrow> bool" where
  "mcs_joins (MLock_Locked pred) = True"
| "mcs_joins (MLock_Assert pred) = True"
| "mcs_joins (MLock_Link pred) = True"
| "mcs_joins MLock_Wait = True"
| "mcs_joins pc = mcs_holds pc"

definition mcs_track :: "nat \<Rightarrow> mcs_sys \<Rightarrow> mcs_sys \<Rightarrow> mcs_sys" where
  "mcs_track t s s' =
    (if \<not> mcs_joins (mcs_pcs s t) \<and> mcs_joins (mcs_pcs s' t) then s'\<lparr> mcs_queue := mcs_queue s @ [t] \<rparr>
     else if mcs_joins (mcs_pcs s t) \<and> \<not> mcs_joins (mcs_pcs s' t) then s'\<lparr> mcs_queue := remove1 t (mcs_queue s) \<rparr>
     else s')"

inductive mcs_sys_step :: "nat \<Rightarrow> mcs_sys \<Rightarrow> mcs_sys \<Rightarrow> bool" for N where
  mcs_call: "t < N \<Longrightarrow> pc \<in> set (mcs_calls (mcs_pcs s t)) \<Longrightarrow> mcs_sys_step N s (mcs_track t s (mcs_goto t pc s))"
| mcs_run: "t < N \<Longrightarrow> f \<in> set mcs_steps \<Longrightarrow> mcs_sys_step N s (mcs_track t s (f t (mcs_pcs s t) s))"

text \<open>At the start the lock is free; the fields of the nodes are not initialised.\<close>

definition mcs_init :: "mcs_queue_ent_t \<Rightarrow> mcs_sys" where
  "mcs_init nodes = \<lparr> m_next = m_next nodes, m_tid = m_tid nodes, m_locked = m_locked nodes,
     mcs_lock = None, mcs_pcs = (\<lambda>t. MIdle), mcs_cs = (\<lambda>t. 0), mcs_queue = [] \<rparr>"

subsection \<open>Neighbours in the queue\<close>

definition adj :: "'a list \<Rightarrow> ('a \<times> 'a) set" where
  "adj q = set (zip q (tl q))"

lemma adj_nth: "(a, b) \<in> adj q \<longleftrightarrow> (\<exists>i. Suc i < length q \<and> q ! i = a \<and> q ! Suc i = b)"
  by (auto simp: adj_def in_set_zip nth_tl less_diff_conv intro: exI)

lemma adj_unique:
  assumes "distinct q"
  shows "(a, b) \<in> adj q \<Longrightarrow> (a, c) \<in> adj q \<Longrightarrow> b = c" "(a, c) \<in> adj q \<Longrightarrow> (b, c) \<in> adj q \<Longrightarrow> a = b"
  using assms by (auto simp: adj_nth nth_eq_iff_index_eq)

lemma adj_mem: "(a, b) \<in> adj q \<Longrightarrow> a \<in> set q \<and> b \<in> set q \<and> b \<in> set (tl q)"
  by (cases q) (auto simp: adj_def dest: set_zip_leftD set_zip_rightD)

lemma adj_not_hd: "distinct q \<Longrightarrow> (a, b) \<in> adj q \<Longrightarrow> b \<noteq> hd q"
  using adj_mem [of a b q] by (cases q) auto

lemma adj_not_last: "distinct q \<Longrightarrow> (a, b) \<in> adj q \<Longrightarrow> a \<noteq> last q"
  by (cases "q = []") (auto simp: adj_nth last_conv_nth nth_eq_iff_index_eq)

lemma adj_irrefl: "distinct q \<Longrightarrow> (a, b) \<in> adj q \<Longrightarrow> a \<noteq> b"
  by (auto simp: adj_nth nth_eq_iff_index_eq)

lemma adj_pred: "b \<in> set q \<Longrightarrow> b \<noteq> hd q \<Longrightarrow> \<exists>a. (a, b) \<in> adj q"
  by (cases q) (auto simp: adj_nth in_set_conv_nth)

lemma adj_append: "adj (q @ [t]) = (if q = [] then {} else insert (last q, t) (adj q))"
  by (induction q) (auto simp: adj_def neq_Nil_conv)

lemma adj_tl: "adj (tl q) \<subseteq> adj q"
  by (cases q; cases "tl q") (auto simp: adj_def)

lemma adj_hd: "tl q \<noteq> [] \<Longrightarrow> (hd q, hd (tl q)) \<in> adj q"
  by (cases q; cases "tl q") (auto simp: adj_def)

subsection \<open>The invariant\<close>

fun mcs_depth :: "mcs_pc \<Rightarrow> int" where
  "mcs_depth MIdle = 0"
| "mcs_depth MTry_Enter = 0"
| "mcs_depth MLock_Tid = 0"
| "mcs_depth MLock_Enter = 0"
| "mcs_depth pc = 1"

text \<open>The head of the queue holds the lock or has been told so; every other thread is linked behind the one before it,
  or is about to link itself.\<close>

definition mcs_first :: "mcs_sys \<Rightarrow> nat \<Rightarrow> bool" where
  "mcs_first s t \<longleftrightarrow> mcs_holds (mcs_pcs s t) \<or> mcs_pcs s t = MLock_Wait \<and> \<not> m_locked s t"

definition mcs_link :: "mcs_sys \<Rightarrow> nat \<Rightarrow> nat \<Rightarrow> bool" where
  "mcs_link s p t \<longleftrightarrow>
     m_next s p = None \<and> (mcs_pcs s t = MLock_Locked p \<or> m_locked s t \<and> mcs_pcs s t \<in> {MLock_Assert p, MLock_Link p})
     \<or> m_next s p = Some t \<and> mcs_pcs s t = MLock_Wait \<and> m_locked s t"

fun mcs_knows :: "nat \<Rightarrow> nat list \<Rightarrow> mcs_pc \<Rightarrow> nat option \<Rightarrow> int \<Rightarrow> bool" where
  "mcs_knows t q MPanic nx tid \<longleftrightarrow> False"
| "mcs_knows t q MTry_Cas nx tid \<longleftrightarrow> nx = None"
| "mcs_knows t q MLock_Enter nx tid \<longleftrightarrow> tid = int t"
| "mcs_knows t q MLock_Next nx tid \<longleftrightarrow> tid = int t"
| "mcs_knows t q MLock_Xchg nx tid \<longleftrightarrow> nx = None \<and> tid = int t"
| "mcs_knows t q (MLock_Locked p) nx tid \<longleftrightarrow> tid = int t"
| "mcs_knows t q (MLock_Assert p) nx tid \<longleftrightarrow> tid = int t"
| "mcs_knows t q (MLock_Link p) nx tid \<longleftrightarrow> tid = int t"
| "mcs_knows t q MLock_Wait nx tid \<longleftrightarrow> tid = int t"
| "mcs_knows t q MUnl_Wait nx tid \<longleftrightarrow> tl q \<noteq> []"
| "mcs_knows t q MUnl_Pass nx tid \<longleftrightarrow> nx \<noteq> None"
| "mcs_knows t q pc nx tid \<longleftrightarrow> True"

definition mcs_own :: "nat \<Rightarrow> mcs_sys \<Rightarrow> nat \<Rightarrow> bool" where
  "mcs_own N s t \<longleftrightarrow> mcs_knows t (mcs_queue s) (mcs_pcs s t) (m_next s t) (m_tid s t)
     \<and> mcs_cs s t = mcs_depth (mcs_pcs s t) \<and> (\<forall>u<N. u \<noteq> t \<longrightarrow> m_tid s t \<noteq> int u)"

lemma mcs_knows_next: "mcs_knows t q pc nx tid \<Longrightarrow> mcs_joins pc \<Longrightarrow> nx' \<noteq> None \<Longrightarrow> mcs_knows t q pc nx' tid"
  by (cases pc) auto

definition mcs_inv :: "nat \<Rightarrow> mcs_sys \<Rightarrow> bool" where
  "mcs_inv N s \<longleftrightarrow> distinct (mcs_queue s) \<and> set (mcs_queue s) = {t. t < N \<and> mcs_joins (mcs_pcs s t)}
     \<and> mcs_lock s = (if mcs_queue s = [] then None else Some (last (mcs_queue s)))
     \<and> (mcs_queue s \<noteq> [] \<longrightarrow> mcs_first s (hd (mcs_queue s)) \<and> m_next s (last (mcs_queue s)) = None)
     \<and> (\<forall>a b. (a, b) \<in> adj (mcs_queue s) \<longrightarrow> mcs_link s a b)
     \<and> (\<forall>t<N. mcs_own N s t)"

definition nodes_ok :: "nat \<Rightarrow> mcs_queue_ent_t \<Rightarrow> bool" where
  "nodes_ok N nodes \<longleftrightarrow> (\<forall>t<N. \<forall>u<N. u \<noteq> t \<longrightarrow> m_tid nodes t \<noteq> int u)"

lemma mcs_inv_init: "nodes_ok N nodes \<Longrightarrow> mcs_inv N (mcs_init nodes)"
  by (simp add: mcs_inv_def mcs_init_def mcs_own_def nodes_ok_def adj_def)

lemma mcs_holds_joins: "mcs_holds pc \<Longrightarrow> mcs_joins pc"
  by (cases pc) auto

lemma mcs_link_not_holds: "mcs_link s a b \<Longrightarrow> \<not> mcs_first s b"
  by (auto simp: mcs_link_def mcs_first_def)

text \<open>Only the head of the queue can hold the lock.\<close>

lemma mcs_first_hd:
  assumes "mcs_inv N s" "t < N" "mcs_first s t"
  shows "mcs_queue s \<noteq> []" "hd (mcs_queue s) = t"
proof -
  have "t \<in> set (mcs_queue s)" using assms by (auto simp: mcs_inv_def mcs_first_def intro: mcs_holds_joins)
  then show "mcs_queue s \<noteq> []" by auto
  show "hd (mcs_queue s) = t"
  proof (rule ccontr)
    assume "hd (mcs_queue s) \<noteq> t"
    then obtain a where "(a, t) \<in> adj (mcs_queue s)" using adj_pred [OF \<open>t \<in> set (mcs_queue s)\<close>] by auto
    then show False using assms(1,3) mcs_link_not_holds unfolding mcs_inv_def by blast
  qed
qed

lemma mcs_behind:
  assumes "mcs_inv N s" "t < N" "mcs_joins (mcs_pcs s t)" "\<not> mcs_first s t"
  obtains a where "(a, t) \<in> adj (mcs_queue s)" "mcs_link s a t" "t \<in> set (mcs_queue s)" "t \<noteq> hd (mcs_queue s)"
proof -
  have t: "t \<in> set (mcs_queue s)" using assms by (auto simp: mcs_inv_def)
  moreover have "t \<noteq> hd (mcs_queue s)" using assms t by (auto simp: mcs_inv_def)
  ultimately show ?thesis using adj_pred [of t "mcs_queue s"] assms(1) that by (auto simp: mcs_inv_def)
qed

subsection \<open>Steps that keep the queue\<close>

lemma mcs_keep:
  assumes inv: "mcs_inv N s" and t: "t < N"
    and same: "mcs_queue s' = mcs_queue s" "mcs_lock s' = mcs_lock s" "mcs_joins (mcs_pcs s' t) = mcs_joins (mcs_pcs s t)"
    and others: "\<And>u. u \<noteq> t \<Longrightarrow> mcs_pcs s' u = mcs_pcs s u \<and> m_locked s' u = m_locked s u \<and> m_tid s' u = m_tid s u \<and> mcs_cs s' u = mcs_cs s u"
    and nexts: "\<And>u. u \<noteq> t \<Longrightarrow> m_next s' u = m_next s u \<or> m_next s' u \<noteq> None \<and> mcs_joins (mcs_pcs s u)"
      "\<And>a b. (a, b) \<in> adj (mcs_queue s) \<Longrightarrow> b \<noteq> t \<Longrightarrow> m_next s' a = m_next s a"
      "mcs_queue s \<noteq> [] \<Longrightarrow> m_next s' (last (mcs_queue s)) = m_next s (last (mcs_queue s))"
    and first: "mcs_queue s \<noteq> [] \<Longrightarrow> hd (mcs_queue s) = t \<Longrightarrow> mcs_first s' t"
    and link: "\<And>a. (a, t) \<in> adj (mcs_queue s) \<Longrightarrow> mcs_link s' a t"
    and own: "mcs_own N s' t"
  shows "mcs_inv N s'"
proof -
  have "{u. u < N \<and> mcs_joins (mcs_pcs s' u)} = {u. u < N \<and> mcs_joins (mcs_pcs s u)}"
    using same(3) others by metis
  moreover have "mcs_first s' (hd (mcs_queue s))" if "mcs_queue s \<noteq> []"
    using first inv others that by (cases "hd (mcs_queue s) = t") (auto simp: mcs_inv_def mcs_first_def)
  moreover have "mcs_link s' a b" if "(a, b) \<in> adj (mcs_queue s)" for a b
    using link nexts(2) [OF that] inv others that by (cases "b = t") (auto simp: mcs_inv_def mcs_link_def)
  moreover have "mcs_own N s' u" if "u < N" for u
  proof (cases "u = t")
    case False
    have "mcs_own N s u" using inv that by (simp add: mcs_inv_def)
    then show ?thesis using others [OF False] nexts(1) [OF False] same(1) mcs_knows_next
      unfolding mcs_own_def by metis
  qed (use own in simp)
  ultimately show ?thesis using inv same nexts(3) by (simp add: mcs_inv_def)
qed

lemma mcs_not_joined:
  assumes "mcs_inv N s" "\<not> mcs_joins (mcs_pcs s t)"
  shows "t \<notin> set (mcs_queue s)" "(a, t) \<notin> adj (mcs_queue s)" "(t, b) \<notin> adj (mcs_queue s)"
    "mcs_queue s \<noteq> [] \<Longrightarrow> hd (mcs_queue s) \<noteq> t" "mcs_queue s \<noteq> [] \<Longrightarrow> last (mcs_queue s) \<noteq> t"
proof -
  show t: "t \<notin> set (mcs_queue s)" using assms by (auto simp: mcs_inv_def)
  show "(a, t) \<notin> adj (mcs_queue s)" "(t, b) \<notin> adj (mcs_queue s)"
    using t adj_mem [of a t "mcs_queue s"] adj_mem [of t b "mcs_queue s"] by blast+
  show "mcs_queue s \<noteq> [] \<Longrightarrow> hd (mcs_queue s) \<noteq> t" "mcs_queue s \<noteq> [] \<Longrightarrow> last (mcs_queue s) \<noteq> t"
    using t by auto
qed

text \<open>A step of a thread outside the queue, which touches only its own node.\<close>

lemma mcs_keep_outside:
  assumes "mcs_inv N s" "t < N" "\<not> mcs_joins (mcs_pcs s t)" "\<not> mcs_joins (mcs_pcs s' t)"
    "mcs_queue s' = mcs_queue s" "mcs_lock s' = mcs_lock s"
    "\<And>u. u \<noteq> t \<Longrightarrow> mcs_pcs s' u = mcs_pcs s u \<and> m_locked s' u = m_locked s u \<and> m_tid s' u = m_tid s u \<and> mcs_cs s' u = mcs_cs s u"
    "\<And>u. u \<noteq> t \<Longrightarrow> m_next s' u = m_next s u" "mcs_own N s' t"
  shows "mcs_inv N s'"
proof (rule mcs_keep [OF assms(1,2)])
  show "m_next s' a = m_next s a" if "(a, b) \<in> adj (mcs_queue s)" for a b
    using assms(8) [of a] mcs_not_joined(3) [OF assms(1,3), of b] that by metis
qed (use assms mcs_not_joined [OF assms(1,3)] in auto)

text \<open>A step of the thread at the head of the queue.\<close>

lemma mcs_keep_first:
  assumes "mcs_inv N s" "t < N" "mcs_first s t" "mcs_holds pc" "mcs_own N (mcs_goto t pc s) t"
  shows "mcs_inv N (mcs_goto t pc s)"
proof (rule mcs_keep [OF assms(1,2)])
  show "mcs_joins (mcs_pcs (mcs_goto t pc s) t) = mcs_joins (mcs_pcs s t)"
    using assms(3,4) by (auto simp: mcs_goto_def mcs_first_def intro: mcs_holds_joins)
  show "mcs_link (mcs_goto t pc s) a t" if "(a, t) \<in> adj (mcs_queue s)" for a
    using adj_not_hd [OF _ that] mcs_first_hd [OF assms(1-3)] assms(1) by (auto simp: mcs_inv_def)
qed (use assms in \<open>auto simp: mcs_goto_def mcs_first_def\<close>)

lemma mcs_depth_joins: "mcs_joins pc \<Longrightarrow> mcs_depth pc = 1"
  by (cases pc) auto

text \<open>A step of a thread that waits behind another one and keeps the fields \<open>next\<close>.\<close>

lemma mcs_keep_behind:
  assumes "mcs_inv N s" "t < N" "mcs_pcs s t \<in> {MLock_Locked p, MLock_Assert p}" "pc \<in> {MLock_Assert p, MLock_Link p}"
  shows "mcs_inv N (mcs_goto t pc (s\<lparr> m_locked := (m_locked s)(t := True) \<rparr>))"
proof -
  obtain a where a: "(a, t) \<in> adj (mcs_queue s)" "mcs_link s a t" "t \<noteq> hd (mcs_queue s)"
    by (rule mcs_behind [OF assms(1,2)]) (use assms(3) in \<open>auto simp: mcs_first_def\<close>)
  have p: "a = p" "m_next s p = None" using a(2) assms(3) by (auto simp: mcs_link_def)
  have u: "b = a" if "(b, t) \<in> adj (mcs_queue s)" for b
    using adj_unique(2) [OF _ that a(1)] assms(1) by (simp add: mcs_inv_def)
  let ?s = "mcs_goto t pc (s\<lparr> m_locked := (m_locked s)(t := True) \<rparr>)"
  have "mcs_own N s t" using assms(1,2) by (simp add: mcs_inv_def)
  then have own: "mcs_own N ?s t" using assms(3,4) by (auto simp: mcs_goto_def mcs_own_def)
  have link: "mcs_link ?s b t" if "(b, t) \<in> adj (mcs_queue s)" for b
    using u [OF that] p assms(4) by (auto simp: mcs_goto_def mcs_link_def)
  have joins: "mcs_joins (mcs_pcs ?s t) = mcs_joins (mcs_pcs s t)" using assms(3,4) by (auto simp: mcs_goto_def)
  show ?thesis by (rule mcs_keep [OF assms(1,2) _ _ joins]) (use a(3) own link in \<open>auto simp: mcs_goto_def\<close>)
qed

lemma mcs_keep_link:
  assumes "mcs_inv N s" "t < N" "mcs_pcs s t = MLock_Link p"
  shows "mcs_inv N (mcs_goto t MLock_Wait (s\<lparr> m_next := (m_next s)(p := Some t) \<rparr>))"
proof -
  obtain a where a: "(a, t) \<in> adj (mcs_queue s)" "mcs_link s a t" "t \<noteq> hd (mcs_queue s)"
    by (rule mcs_behind [OF assms(1,2)]) (use assms(3) in \<open>auto simp: mcs_first_def\<close>)
  have d: "distinct (mcs_queue s)" using assms(1) by (simp add: mcs_inv_def)
  have p: "a = p" using a(2) assms(3) by (auto simp: mcs_link_def)
  have u: "b = p" if "(b, t) \<in> adj (mcs_queue s)" for b using adj_unique(2) [OF d that a(1)] p by simp
  have v: "b \<noteq> p" if "(b, c) \<in> adj (mcs_queue s)" "c \<noteq> t" for b c using adj_unique(1) [OF d _ a(1)] that p by blast
  have q: "p \<noteq> t" "p \<noteq> last (mcs_queue s)" "mcs_joins (mcs_pcs s p)"
    using adj_irrefl [OF d a(1)] adj_not_last [OF d a(1)] adj_mem [OF a(1)] assms(1) p by (auto simp: mcs_inv_def)
  let ?s = "mcs_goto t MLock_Wait (s\<lparr> m_next := (m_next s)(p := Some t) \<rparr>)"
  have "mcs_own N s t" using assms(1,2) by (simp add: mcs_inv_def)
  then have own: "mcs_own N ?s t" using assms(3) by (auto simp: mcs_goto_def mcs_own_def)
  have link: "mcs_link ?s b t" if "(b, t) \<in> adj (mcs_queue s)" for b
    using u [OF that] p a(2) assms(3) by (auto simp: mcs_goto_def mcs_link_def)
  have joins: "mcs_joins (mcs_pcs ?s t) = mcs_joins (mcs_pcs s t)" using assms(3) by (simp add: mcs_goto_def)
  show ?thesis by (rule mcs_keep [OF assms(1,2) _ _ joins]) (use a(3) own link q v in \<open>auto simp: mcs_goto_def\<close>)
qed

subsection \<open>Joining and leaving the queue\<close>

lemma mcs_enqueue:
  assumes inv: "mcs_inv N s" and t: "t < N" and pc: "mcs_pcs s t = MLock_Xchg \<or> mcs_pcs s t = MTry_Cas \<and> mcs_lock s = None"
  shows "mcs_inv N ((mcs_goto t (case mcs_lock s of None \<Rightarrow> MHeld | Some p \<Rightarrow> MLock_Locked p) (s\<lparr> mcs_lock := Some t \<rparr>))
    \<lparr> mcs_queue := mcs_queue s @ [t] \<rparr>)" (is "mcs_inv N ?s")
proof -
  let ?q = "mcs_queue s"
  have lock: "mcs_lock s = (if ?q = [] then None else Some (last ?q))" using inv by (simp add: mcs_inv_def)
  have "\<not> mcs_joins (mcs_pcs s t)" using pc by auto
  note out = mcs_not_joined [OF inv this]
  have own: "mcs_own N s u" if "u < N" for u using inv that by (simp add: mcs_inv_def)
  have "mcs_own N ?s u" if "u < N" for u
  proof (cases "u = t")
    case True
    then show ?thesis using own [OF t] pc lock by (auto simp: mcs_own_def mcs_goto_def)
  next
    case False
    then show ?thesis using own [OF that]
      by (cases "mcs_pcs s u") (auto simp: mcs_own_def mcs_goto_def tl_append split: list.splits)
  qed
  moreover have "mcs_link ?s a b" if "(a, b) \<in> adj (?q @ [t])" for a b
  proof (cases "(a, b) \<in> adj ?q")
    case True
    then have "mcs_link s a b" "b \<noteq> t" using inv out(2) by (auto simp: mcs_inv_def)
    then show ?thesis by (simp add: mcs_link_def mcs_goto_def)
  next
    case False
    then have "a = last ?q" "b = t" "?q \<noteq> []" using that by (auto simp: adj_append split: if_splits)
    then show ?thesis using inv lock by (simp add: mcs_link_def mcs_goto_def mcs_inv_def)
  qed
  moreover have "mcs_first ?s (hd (?q @ [t]))"
    using inv lock out(4) by (cases "?q = []") (auto simp: mcs_first_def mcs_goto_def mcs_inv_def)
  moreover have "m_next s t = None" using own [OF t] pc by (auto simp: mcs_own_def)
  moreover have "mcs_joins (mcs_pcs ?s t)" using lock by (simp add: mcs_goto_def)
  then have "set (?q @ [t]) = {u. u < N \<and> mcs_joins (mcs_pcs ?s u)}"
    using inv t by (auto simp: mcs_inv_def mcs_goto_def)
  ultimately show ?thesis using inv out(1) by (simp add: mcs_inv_def mcs_goto_def)
qed

lemma mcs_hd_remove: "mcs_inv N s \<Longrightarrow> t < N \<Longrightarrow> mcs_first s t \<Longrightarrow> remove1 t (mcs_queue s) = tl (mcs_queue s)"
  using mcs_first_hd [of N s t] by (cases "mcs_queue s") auto

lemma mcs_last_leaves:
  assumes inv: "mcs_inv N s" and t: "t < N" and pc: "mcs_pcs s t = MUnl_Cas" and lock: "mcs_lock s = Some t"
  shows "mcs_inv N ((mcs_goto t MUnl_Leave (s\<lparr> mcs_lock := None \<rparr>))\<lparr> mcs_queue := remove1 t (mcs_queue s) \<rparr>)" (is "mcs_inv N ?s")
proof -
  have "mcs_first s t" using pc by (simp add: mcs_first_def)
  note hd = mcs_first_hd [OF inv t this]
  have "last (mcs_queue s) = t" "distinct (mcs_queue s)" using inv lock hd(1) by (auto simp: mcs_inv_def)
  then have q: "mcs_queue s = [t]" using hd by (cases "mcs_queue s") (auto split: if_splits)
  have own: "mcs_own N s u" if "u < N" for u using inv that by (simp add: mcs_inv_def)
  have none: "\<not> mcs_joins (mcs_pcs s u)" if "u < N" "u \<noteq> t" for u using inv q that by (auto simp: mcs_inv_def)
  have "mcs_own N ?s u" if "u < N" for u
  proof (cases "u = t")
    case False
    then show ?thesis using own [OF that] none [OF that False] by (cases "mcs_pcs s u") (auto simp: mcs_own_def mcs_goto_def)
  qed (use own [OF t] pc in \<open>simp add: mcs_own_def mcs_goto_def\<close>)
  then show ?thesis using none q by (auto simp: mcs_inv_def mcs_goto_def adj_def)
qed

lemma mcs_passes:
  assumes inv: "mcs_inv N s" and t: "t < N" and pc: "mcs_pcs s t = MUnl_Pass"
  obtains n where "m_next s t = Some n"
    "mcs_inv N ((mcs_goto t MUnl_Leave (s\<lparr> m_locked := (m_locked s)(n := False) \<rparr>))\<lparr> mcs_queue := remove1 t (mcs_queue s) \<rparr>)"
proof -
  let ?q = "mcs_queue s"
  have first: "mcs_first s t" using pc by (simp add: mcs_first_def)
  note hd = mcs_first_hd [OF inv t first]
  have own: "mcs_own N s u" if "u < N" for u using inv that by (simp add: mcs_inv_def)
  have d: "distinct ?q" and last: "m_next s (last ?q) = None" and lock: "mcs_lock s = Some (last ?q)"
    using inv hd(1) by (auto simp: mcs_inv_def)
  obtain n where n: "m_next s t = Some n" using own [OF t] pc by (auto simp: mcs_own_def)
  obtain b r where q: "?q = t # b # r"
    using hd last n by (cases ?q rule: list.exhaust; cases "tl ?q") auto
  have "mcs_link s t b" using inv adj_hd [of ?q] q by (auto simp: mcs_inv_def)
  with n have b: "b = n" "mcs_pcs s n = MLock_Wait" by (auto simp: mcs_link_def)
  let ?s = "(mcs_goto t MUnl_Leave (s\<lparr> m_locked := (m_locked s)(n := False) \<rparr>))\<lparr> mcs_queue := remove1 t ?q \<rparr>"
  have tl: "mcs_queue ?s = n # r" "t \<notin> set (n # r)" "n \<notin> set r" using q d b(1) by (auto simp: mcs_goto_def)
  have "mcs_link ?s a c" if "(a, c) \<in> adj (n # r)" for a c
  proof -
    have "mcs_link s a c" using inv adj_tl [of ?q] that q b(1) by (auto simp: mcs_inv_def)
    moreover have "c \<noteq> n" "c \<noteq> t" using adj_mem [OF that] tl by auto
    ultimately show ?thesis by (simp add: mcs_link_def mcs_goto_def)
  qed
  moreover have "mcs_own N ?s u" if "u < N" for u
  proof (cases "u = t")
    case False
    then have "mcs_pcs s u \<noteq> MUnl_Wait"
      using mcs_first_hd(2) [OF inv that] hd(2) by (auto simp: mcs_first_def)
    then show ?thesis using own [OF that] False by (cases "mcs_pcs s u") (auto simp: mcs_own_def mcs_goto_def)
  qed (use own [OF t] pc in \<open>simp add: mcs_own_def mcs_goto_def\<close>)
  moreover have "mcs_first ?s n" using b tl(2) by (auto simp: mcs_first_def mcs_goto_def)
  moreover have "set (n # r) = {u. u < N \<and> mcs_joins (mcs_pcs ?s u)}"
    using inv q tl(2) b(1) by (auto simp: mcs_inv_def mcs_goto_def)
  ultimately have "mcs_inv N ?s" using tl d last lock q b(1) by (simp add: mcs_inv_def mcs_goto_def)
  with n show ?thesis by (rule that)
qed

subsection \<open>Every step keeps the invariant\<close>

lemma mcs_track_keep: "mcs_joins (mcs_pcs s' t) = mcs_joins (mcs_pcs s t) \<Longrightarrow> mcs_track t s s' = s'"
  by (simp add: mcs_track_def)

lemma mcs_inv_own: "mcs_inv N s \<Longrightarrow> t < N \<Longrightarrow> mcs_own N s t"
  by (simp add: mcs_inv_def)

lemma mcs_call_inv:
  assumes "mcs_inv N s" "t < N" "pc \<in> set (mcs_calls (mcs_pcs s t))"
  shows "mcs_inv N (mcs_track t s (mcs_goto t pc s))"
proof (cases "mcs_pcs s t = MHeld")
  case True
  then have "mcs_inv N (mcs_goto t MUnl_Test s)"
    using mcs_inv_own [OF assms(1,2)] by (intro mcs_keep_first assms) (auto simp: mcs_first_def mcs_own_def mcs_goto_def)
  then show ?thesis using True assms(3) by (simp add: mcs_track_keep mcs_goto_def)
next
  case False
  then have idle: "mcs_pcs s t = MIdle" "pc = MTry_Enter \<or> pc = MLock_Tid" using assms(3) by (cases "mcs_pcs s t"; auto)+
  then have "mcs_inv N (mcs_goto t pc s)"
    using mcs_inv_own [OF assms(1,2)] by (intro mcs_keep_outside [OF assms(1,2)]) (auto simp: mcs_own_def mcs_goto_def)
  moreover have "mcs_track t s (mcs_goto t pc s) = mcs_goto t pc s"
    using idle by (intro mcs_track_keep) (auto simp: mcs_goto_def)
  ultimately show ?thesis by simp
qed

text \<open>The steps of a thread outside the queue.\<close>

lemma mcs_outside_inv:
  assumes "mcs_inv N s" "t < N"
    "s' \<in> {mcslock_try_lock t (mcs_pcs s t) s, mcslock_lock t (mcs_pcs s t) s, mcslock_unlock t (mcs_pcs s t) s}"
    "\<not> mcs_joins (mcs_pcs s t)" "\<not> mcs_joins (mcs_pcs s' t)"
  shows "mcs_inv N (mcs_track t s s')"
proof -
  have "mcs_inv N s'"
    using mcs_inv_own [OF assms(1,2)] assms(3-)
    by (intro mcs_keep_outside [OF assms(1,2,4,5)]; cases "mcs_pcs s t")
      (auto simp: mcs_goto_def mcs_nest_def mcs_own_def split: if_splits option.splits)
  then show ?thesis using assms(4,5) by (simp add: mcs_track_keep)
qed

lemma mcs_track_same [simp]: "mcs_track t s s = s"
  by (simp add: mcs_track_def)

lemma mcs_try_inv:
  assumes "mcs_inv N s" "t < N"
  shows "mcs_inv N (mcs_track t s (mcslock_try_lock t (mcs_pcs s t) s))"
proof (cases "mcs_joins (mcs_pcs s t)")
  case True
  then have "mcslock_try_lock t (mcs_pcs s t) s = s" by (cases "mcs_pcs s t") auto
  then show ?thesis using assms by simp
next
  case False
  show ?thesis
  proof (cases "mcs_pcs s t = MTry_Cas \<and> mcs_lock s = None")
    case True
    then show ?thesis using mcs_enqueue [OF assms] by (simp add: mcs_track_def mcs_goto_def)
  next
    case cas: False
    then have "\<not> mcs_joins (mcs_pcs (mcslock_try_lock t (mcs_pcs s t) s) t)"
      using False by (cases "mcs_pcs s t") (auto simp: mcs_goto_def mcs_nest_def)
    then show ?thesis using mcs_outside_inv [OF assms _ False] by simp
  qed
qed

lemma mcs_lock_inv:
  assumes "mcs_inv N s" "t < N"
  shows "mcs_inv N (mcs_track t s (mcslock_lock t (mcs_pcs s t) s))"
proof (cases "mcs_pcs s t")
  case MLock_Xchg
  then show ?thesis using mcs_enqueue [OF assms] by (auto simp: mcs_track_def mcs_goto_def split: option.splits)
next
  case (MLock_Locked p)
  then show ?thesis using mcs_keep_behind [OF assms, of p "MLock_Assert p"] by (simp add: mcs_track_keep mcs_goto_def)
next
  case (MLock_Assert p)
  then have own: "m_tid s t = int t" using mcs_inv_own [OF assms] by (simp add: mcs_own_def)
  obtain a where a: "(a, t) \<in> adj (mcs_queue s)" "mcs_link s a t"
    by (rule mcs_behind [OF assms]) (use MLock_Assert in \<open>auto simp: mcs_first_def\<close>)
  have "a = p" "m_locked s t" using a(2) MLock_Assert by (auto simp: mcs_link_def)
  moreover have "a < N" "a \<noteq> t" using adj_mem [OF a(1)] adj_irrefl [OF _ a(1)] assms(1) by (auto simp: mcs_inv_def)
  ultimately have "m_tid s p \<noteq> m_tid s t" "(m_locked s)(t := True) = m_locked s"
    using mcs_inv_own [OF assms(1), of a] own assms(2) by (auto simp: mcs_own_def fun_upd_idem_iff)
  then show ?thesis using mcs_keep_behind [OF assms, of p "MLock_Link p"] MLock_Assert by (simp add: mcs_track_keep mcs_goto_def)
next
  case (MLock_Link p)
  then show ?thesis using mcs_keep_link [OF assms] by (simp add: mcs_track_keep mcs_goto_def)
next
  case MLock_Wait
  have "mcs_inv N (mcs_goto t MHeld s)" if "\<not> m_locked s t"
    using mcs_inv_own [OF assms] MLock_Wait that
    by (intro mcs_keep_first assms) (auto simp: mcs_first_def mcs_own_def mcs_goto_def)
  then show ?thesis using assms MLock_Wait by (simp add: mcs_track_keep mcs_goto_def)
qed (use assms mcs_outside_inv [OF assms, of "mcslock_lock t (mcs_pcs s t) s"] in \<open>simp_all add: mcs_goto_def mcs_nest_def\<close>)

lemma mcs_unlock_inv:
  assumes "mcs_inv N s" "t < N"
  shows "mcs_inv N (mcs_track t s (mcslock_unlock t (mcs_pcs s t) s))"
proof -
  have first: "mcs_inv N (mcs_goto t pc s)"
    if "mcs_holds (mcs_pcs s t)" "mcs_holds pc" "mcs_knows t (mcs_queue s) pc (m_next s t) (m_tid s t)" for pc
    using mcs_inv_own [OF assms] that
    by (intro mcs_keep_first assms) (auto simp: mcs_first_def mcs_own_def mcs_goto_def mcs_depth_joins mcs_holds_joins)
  show ?thesis
  proof (cases "mcs_pcs s t")
    case MUnl_Test
    then show ?thesis using first [of MUnl_Cas] first [of MUnl_Pass] by (auto simp: mcs_track_keep mcs_goto_def)
  next
    case MUnl_Cas
    have hd: "mcs_queue s \<noteq> []" "hd (mcs_queue s) = t" using mcs_first_hd [OF assms] MUnl_Cas by (auto simp: mcs_first_def)
    have "tl (mcs_queue s) \<noteq> []" if "mcs_lock s \<noteq> Some t"
      using hd assms(1) that by (cases "mcs_queue s") (auto simp: mcs_inv_def)
    then show ?thesis using mcs_last_leaves [OF assms MUnl_Cas] first [of MUnl_Wait] MUnl_Cas
      by (cases "mcs_lock s = Some t") (auto simp: mcs_track_def mcs_goto_def)
  next
    case MUnl_Wait
    then show ?thesis using assms first [of MUnl_Pass] by (auto simp: mcs_track_keep mcs_goto_def)
  next
    case MUnl_Pass
    obtain n where "m_next s t = Some n"
      "mcs_inv N ((mcs_goto t MUnl_Leave (s\<lparr> m_locked := (m_locked s)(n := False) \<rparr>))\<lparr> mcs_queue := remove1 t (mcs_queue s) \<rparr>)"
      using mcs_passes [OF assms MUnl_Pass] .
    then show ?thesis using MUnl_Pass by (simp add: mcs_track_def mcs_goto_def)
  qed (use assms mcs_outside_inv [OF assms, of "mcslock_unlock t (mcs_pcs s t) s"] in \<open>simp_all add: mcs_goto_def mcs_nest_def\<close>)
qed

interpretation mcs: transition_invariant "mcs_sys_step N" "mcs_inv N" for N
proof unfold_locales
  fix s s'
  assume "mcs_sys_step N s s'" "mcs_inv N s"
  then show "mcs_inv N s'"
    by cases (auto simp: mcs_steps_def intro: mcs_call_inv mcs_try_inv mcs_lock_inv mcs_unlock_inv)
qed

subsection \<open>Order of service\<close>

lemma mcs_steps_queue: "f \<in> set mcs_steps \<Longrightarrow> mcs_queue (f t (mcs_pcs s t) s) = mcs_queue s"
  by (cases "mcs_pcs s t") (auto simp: mcs_steps_def mcs_goto_def mcs_nest_def split: option.splits)

lemma mcs_steps_leave:
  assumes "f \<in> set mcs_steps" "mcs_joins (mcs_pcs s t)" "\<not> mcs_joins (mcs_pcs (f t (mcs_pcs s t) s) t)"
    "mcs_pcs (f t (mcs_pcs s t) s) t \<noteq> MPanic"
  shows "mcs_holds (mcs_pcs s t)"
  using assms by (cases "mcs_pcs s t") (auto simp: mcs_steps_def mcs_goto_def split: if_splits)

lemma mcs_calls_keep: "pc \<in> set (mcs_calls p) \<Longrightarrow> mcs_joins pc = mcs_joins p"
  by (cases p) auto

lemma mcs_step_queue:
  assumes inv: "mcs_inv N s" and step: "mcs_sys_step N s s'"
  shows "mcs_queue s' = mcs_queue s \<or> (\<exists>u<N. mcs_queue s' = mcs_queue s @ [u]) \<or> mcs_queue s' = tl (mcs_queue s)"
  using step
proof cases
  case (mcs_call t pc)
  then show ?thesis using mcs_calls_keep by (simp add: mcs_track_keep mcs_goto_def)
next
  case (mcs_run t f)
  let ?s = "f t (mcs_pcs s t) s"
  have "mcs_inv N s'" using mcs.step_inv [OF step inv] .
  then have "mcs_pcs s' t \<noteq> MPanic" using mcs_inv_own [of N s' t] mcs_run(2) by (auto simp: mcs_own_def)
  moreover have "mcs_pcs s' t = mcs_pcs ?s t" using mcs_run(1) by (simp add: mcs_track_def)
  ultimately have "mcs_first s t" if "mcs_joins (mcs_pcs s t)" "\<not> mcs_joins (mcs_pcs ?s t)"
    using mcs_steps_leave [OF mcs_run(3) that] by (simp add: mcs_first_def)
  then show ?thesis using mcs_run mcs_steps_queue [OF mcs_run(3)] mcs_hd_remove [OF inv mcs_run(2)]
    by (auto simp: mcs_track_def)
qed


fun mcs_replay :: "nat \<Rightarrow> (nat \<times> (mcs_pc + nat)) list \<Rightarrow> mcs_sys \<Rightarrow> mcs_sys option" where
  "mcs_replay N [] s = Some s"
| "mcs_replay N ((t, Inl pc) # acts) s =
    (if t < N \<and> pc \<in> set (mcs_calls (mcs_pcs s t)) then mcs_replay N acts (mcs_track t s (mcs_goto t pc s)) else None)"
| "mcs_replay N ((t, Inr i) # acts) s =
    (if t < N \<and> i < length mcs_steps then mcs_replay N acts (mcs_track t s ((mcs_steps ! i) t (mcs_pcs s t) s)) else None)"

lemma mcs_replay_run: "mcs_replay N acts s = Some s' \<Longrightarrow> (mcs_sys_step N)\<^sup>*\<^sup>* s s'"
proof (induction N acts s rule: mcs_replay.induct)
  case (2 N t pc acts s)
  then have "t < N" "pc \<in> set (mcs_calls (mcs_pcs s t))" "(mcs_sys_step N)\<^sup>*\<^sup>* (mcs_track t s (mcs_goto t pc s)) s'"
    by (simp_all split: if_splits)
  then show ?case using converse_rtranclp_into_rtranclp [of "mcs_sys_step N" s, OF mcs_sys_step.mcs_call] by blast
next
  case (3 N t i acts s)
  then have "t < N" "mcs_steps ! i \<in> set mcs_steps"
      "(mcs_sys_step N)\<^sup>*\<^sup>* (mcs_track t s ((mcs_steps ! i) t (mcs_pcs s t) s)) s'"
    by (simp_all split: if_splits)
  then show ?case using converse_rtranclp_into_rtranclp [of "mcs_sys_step N" s, OF mcs_sys_step.mcs_run] by blast
qed simp

text \<open>A thread takes the lock with \<^verbatim>\<open>mcslock_try_lock\<close>; a second one joins with \<^verbatim>\<open>mcslock_lock\<close> up to its assertion.\<close>

definition mcs_demo :: "(nat \<times> (mcs_pc + nat)) list" where
  "mcs_demo = [(0, Inl MTry_Enter), (0, Inr 0), (0, Inr 0), (0, Inr 0),
     (1, Inl MLock_Tid), (1, Inr 1), (1, Inr 1), (1, Inr 1), (1, Inr 1), (1, Inr 1), (1, Inr 1)]"

lemma mcs_demo_state:
  "2 \<le> N \<Longrightarrow> \<exists>s. mcs_replay N mcs_demo (mcs_init nodes) = Some s \<and> mcs_pcs s 0 = MHeld
    \<and> mcs_queue s = (if m_tid nodes 0 \<noteq> 1 then [0, 1] else [0])
    \<and> mcs_pcs s 1 = (if m_tid nodes 0 \<noteq> 1 then MLock_Link 0 else MPanic)"
  by (simp add: mcs_demo_def mcs_init_def mcs_steps_def mcs_goto_def mcs_nest_def mcs_track_def)


text \<open>
  C37. \<^verbatim>\<open>mcslock_try_lock\<close> does not store the thread id in its node.  When the node of a thread that took the lock
  this way happens to hold the id of another thread, the assertion of \<^verbatim>\<open>mcslock_lock\<close> in that thread fails, though the
  thread does not hold the lock.
\<close>

theorem mcslock_try_lock_false_alarm:
  assumes "2 \<le> N" "m_tid nodes 0 = 1"
  shows "\<exists>s. (mcs_sys_step N)\<^sup>*\<^sup>* (mcs_init nodes) s \<and> mcs_pcs s 0 = MHeld \<and> mcs_pcs s 1 = MPanic"
  using mcs_demo_state [OF assms(1), of nodes] mcs_replay_run assms(2) by force

theorem mcslock_try_lock_false_alarm_witness:
  "\<exists>s. (mcs_sys_step 2)\<^sup>*\<^sup>* (mcs_init \<lparr> m_next = (\<lambda>t. None), m_tid = (\<lambda>t. 1), m_locked = (\<lambda>t. False) \<rparr>) s
    \<and> mcs_pcs s 1 = MPanic"
  using mcslock_try_lock_false_alarm [of 2 "\<lparr> m_next = (\<lambda>t. None), m_tid = (\<lambda>t. 1), m_locked = (\<lambda>t. False) \<rparr>"] by auto

end
