(* ===== verification/Spec2Isabelle.thy ===== *)
theory Spec2Isabelle
  imports Dgos_Prelude Cstring Rand Time_Of_Day Bitsearch Desc_Alloc Pool Pipe Phys_Alloc Utf Hash_Table Uleb Priority_Queue Eth_Queue Net Boot_String Boot_Heap Physmap Radix_Tree Partition Spinlock Ticketlock Mcslock
begin

text \<open>
  Verification of parts of the dgos operating system.

  \<^bold>\<open>The program.\<close>  dgos is a kernel for x86-64 with its own boot loader, C library and user programs.  The
  boot loader (\<^verbatim>\<open>boot\<close>) asks the firmware for the memory, keeps a sorted map of it, has a heap of its own and hands the
  free ranges to the kernel.  The kernel (\<^verbatim>\<open>kernel\<close>) takes its pages from them, and runs its data structures, locks,
  network stack and file layer on top.  The libraries that all of them use are small C and C++ routines.  The development
  covers the algorithmic parts of this: libraries, allocators, containers, locks, the path of a network packet and the
  detection of partitions.

  \<^bold>\<open>Conventions\<close> (theory \<open>Dgos_Prelude\<close>).  An integer of the source is a word of its width and wraps around; a
  pointer is a 64-bit word and memory is a function from pointers to bytes, so aliasing and overlap are those of the
  program.  A failing assertion, a panic and an access outside a buffer give \<open>None\<close> (or a value of an error type where the
  code distinguishes them).  A loop whose end is not evident is a \<open>partial_function\<close> in the option type, for which not
  ending is \<open>None\<close>; that it ends is then part of the theorems.  Code outside the repository, devices and the
  answers of other components are arguments.  The prelude also holds the lemmas on words, lists and memories that the
  other theories share and the locale \<open>stepper\<close> for generators.

  \<^bold>\<open>Libraries.\<close>
  \<^item> \<open>Cstring\<close>: \<^verbatim>\<open>kernel/lib/string.cc\<close> and \<^verbatim>\<open>string.h\<close>.  The optimised fills equal byte fills, the searches find the first
    occurrence, the comparison is the order of unsigned bytes; the defects of the backward copy, of \<^verbatim>\<open>strncat\<close> and of
    \<^verbatim>\<open>const_time_memcmp\<close> are lemmas.
  \<^item> \<open>Boot_String\<close>: \<^verbatim>\<open>boot/string.cc\<close>, shown equal to the kernel's routines where it is.
  \<^item> \<open>Utf\<close>: \<^verbatim>\<open>user/libutf/utf.cc\<close>.  Round trips through UTF-8 and UTF-16, with the planes where the latter fails.
  \<^item> \<open>Bitsearch\<close>, \<open>Rand\<close>, \<open>Time_Of_Day\<close>, \<open>Uleb\<close>: \<^verbatim>\<open>bitsearch.h\<close>, \<^verbatim>\<open>rand.cc\<close>, \<^verbatim>\<open>time.cc\<close> and \<^verbatim>\<open>uleb.cc\<close> of
    \<^verbatim>\<open>kernel/lib\<close>.  Exact results, ranges, permutations and round trips.

  \<^bold>\<open>Allocators and containers of the kernel.\<close>
  \<^item> \<open>Phys_Alloc\<close>: \<^verbatim>\<open>kernel/arch/x86_64/cpu/phys_alloc.cc\<close> and \<^verbatim>\<open>phys_alloc.h\<close>.  The invariant of the free chain, the
    life of a page (locale \<open>page_source\<close>), and the outcomes of a batch.
  \<^item> \<open>Desc_Alloc\<close>, \<open>Pool\<close>: \<^verbatim>\<open>desc_alloc.cc\<close> (locale \<open>desc_pool\<close>) and \<^verbatim>\<open>pool.cc\<close>.
  \<^item> \<open>Hash_Table\<close>: \<^verbatim>\<open>hash_table.h\<close> and \<^verbatim>\<open>hash.h\<close>.  The table refines a finite map (locale \<open>key_store\<close>), through collisions,
    deletion and growth.  The probe loops carry the capacity as a bound, which is the number of slots they can visit.
  \<^item> \<open>Priority_Queue\<close>: \<^verbatim>\<open>priorityqueue.h\<close>.
  \<^item> \<open>Pipe\<close>: \<^verbatim>\<open>pipe.cc\<close>.  The pipe is a byte queue (locale \<open>byte_fifo\<close>) across pages and blocking.
  \<^item> \<open>Radix_Tree\<close>: \<^verbatim>\<open>radix_tree.cc\<close>.  The tree refines a sparse array of bytes.

  \<^bold>\<open>Locks\<close> (\<^verbatim>\<open>kernel/lib/spinlock.cc\<close>).  \<open>Spinlock\<close> holds the spinlock and the reader/writer lock, \<open>Ticketlock\<close> and
  \<open>Mcslock\<close> the two fair locks.  Each function is a sequence of atomic steps; the step relations interleave any number
  of threads, and the invariants over their reachable states come from the locale \<open>transition_invariant\<close>.  They give mutual
  exclusion, order of service, balanced critical sections and the absence of failing assertions.  The number of threads is
  below \<open>2 ^ 30\<close> for the reader/writer lock, since bit 30 marks a writer, and the tickets drawn are below \<open>2 ^ 31\<close>,
  since a stale comparison of \<^verbatim>\<open>ticketlock_try_lock\<close> could succeed after a full turn of the counter.

  \<^bold>\<open>Network\<close> (\<^verbatim>\<open>kernel/net\<close>).  \<open>Eth_Queue\<close> is the packet pool and the packet queue; \<open>Net\<close> is the way of a received frame
  through Ethernet, ARP, IPv4 and ICMP to the reply, with the checksums.

  \<^bold>\<open>Storage.\<close>  \<open>Partition\<close> is the detection of MBR and GPT partitions (\<^verbatim>\<open>kernel/fs/mbr\<close>, \<^verbatim>\<open>kernel/fs/gpt\<close>) on a drive that
  is an argument.

  \<^bold>\<open>Boot loader.\<close>
  \<^item> \<open>Boot_Heap\<close>: \<^verbatim>\<open>boot/malloc.cc\<close>.  The blocks tile the heap; allocation, release and resizing are totally correct
    (locale \<open>block_allocator\<close>) for a client that does not shrink blocks, and shrinking leads to an endless search.
  \<^item> \<open>Physmap\<close>: \<^verbatim>\<open>boot/physmap.cc\<close> with the enumeration of \<^verbatim>\<open>boot/x86_bios/physmem_bios.cc\<close>.  Building the map from regions in any
    order, splitting it into large pages, taking and freeing ranges, each with the exact set of bytes it changes.

  \<^bold>\<open>Bounds.\<close>  Where the code counts in a fixed width or stores in a fixed array, the theorems assume that the count fits: the
  capacity of the arrays of \<open>Physmap\<close>, addresses below the end of the address space, reference counts below their flag
  bit.  The witnesses evaluate the theorems at concrete inputs.

  \<^bold>\<open>Not modelled.\<close>  The virtual memory manager, the scheduler, interrupts and the processor support act on page tables
  and registers, the drivers on devices; their behaviour is that of the hardware.  The file systems read structures that
  are mapped through page faults.  The process layer, the system calls, the module loader and the kernel heap rest on these
  parts.  The red-black trees and the string and vector templates are containers over generic allocators.  The register
  descriptions (\<^verbatim>\<open>*.bits.h\<close>) are generated constants.  Tracing and printing have no effect on the modelled state and
  are left out, and so is the failure of an allocation where the code only panics.  Memory is sequentially consistent.
\<close>

end
